(* ===== verification/Prelude.thy ===== *)
theory Prelude
  imports Main "HOL-Library.Monad_Syntax" "HOL-Library.AList"
begin

text \<open>
  Shared vocabulary of the development: Go strings and header maps, Go errors with their wrapping
  and \<open>errors.Is\<close>/\<open>errors.As\<close>, contexts, buffered channels, results of calls that may panic, and
  the two library interfaces every component uses: invariants of transition systems and codecs
  with a left inverse.
\<close>

section \<open>Names for the types of the model\<close>

text \<open>A Go string, and a Go byte slice, is a sequence of bytes: a list of 8-bit characters.\<close>

type_synonym bytes = string
type_synonym headers = "string \<rightharpoonup> string"

text \<open>A \<open>time.Duration\<close> in nanoseconds; no arithmetic of the program can overflow it.\<close>

type_synonym duration = int

abbreviation second :: duration where
  "second \<equiv> 1000000000"

named_theorems chan_simps \<open>rewriting of channel operations\<close>
named_theorems err_simps \<open>rewriting of errors.Is and errors.As\<close>

section \<open>Go errors\<close>

text \<open>
  The errors the program makes, wraps or tells apart. \<open>Foreign\<close> is an error of a library that the
  program only passes on. \<open>GostompError text frame\<close> is a go-stomp error value, \<open>frame\<close> telling
  whether it carries a frame. \<open>Errorf fmt args es\<close> is \<open>fmt.Errorf\<close> with the format, its plain
  arguments as they are passed and the errors of its \<open>%w\<close> verbs. \<open>BoundedError\<close> is the wrapper of the package auth.
\<close>

datatype goarg = StrArg string | DurArg duration

datatype goerr =
    Foreign string
  | GostompError string bool
  | RuntimeError string
  | ContextCanceled
  | DeadlineExceeded
  | ErrSubscriptionClosed
  | ErrHandshakeTimeout
  | ErrDisconnected
  | ErrDisconnectReceiptTimeout
  | Errorf string "goarg list" "goerr list"
  | BoundedError goerr

text \<open>\<open>errors.Is\<close>: the error itself or anything it wraps, depth first.\<close>

fun errors_Is :: "goerr \<Rightarrow> goerr \<Rightarrow> bool" where
  "errors_Is (Errorf f as es) t = (Errorf f as es = t \<or> list_ex (\<lambda>e. errors_Is e t) es)"
| "errors_Is (BoundedError e) t = (BoundedError e = t \<or> errors_Is e t)"
| "errors_Is e t = (e = t)"

declare errors_Is.simps [simp del, err_simps]

text \<open>\<open>errors.As\<close> for \<open>*gostomp.Error\<close>: whether the first one in the chain carries a frame.\<close>

fun errors_As_gostomp :: "goerr \<Rightarrow> bool option"
  and errors_As_gostomp_list :: "goerr list \<Rightarrow> bool option" where
  "errors_As_gostomp (GostompError m frame) = Some frame"
| "errors_As_gostomp (Errorf f as es) = errors_As_gostomp_list es"
| "errors_As_gostomp (BoundedError e) = errors_As_gostomp e"
| "errors_As_gostomp e = None"
| "errors_As_gostomp_list [] = None"
| "errors_As_gostomp_list (e # es) =
     (case errors_As_gostomp e of Some b \<Rightarrow> Some b | None \<Rightarrow> errors_As_gostomp_list es)"

lemma errors_Is_refl [simp, intro]: "errors_Is e e"
  by (cases e) (simp_all add: err_simps)

lemma errors_Is_wrap [intro]: "e \<in> set es \<Longrightarrow> errors_Is e t \<Longrightarrow> errors_Is (Errorf f as es) t"
  by (auto simp: err_simps list_ex_iff)

lemma errors_Is_trans: "errors_Is e t \<Longrightarrow> errors_Is t u \<Longrightarrow> errors_Is e u"
proof (induction e t rule: errors_Is.induct)
  case (1 f as es t)
  then show ?case by (auto simp: errors_Is.simps(1) [of f as es] list_ex_iff)
qed (auto simp: err_simps)

text \<open>An error value that wraps nothing: what a caller passes to \<open>errors.Is\<close> as the target.\<close>

fun leaf_err :: "goerr \<Rightarrow> bool" where
  "leaf_err (Errorf f as es) = False"
| "leaf_err (BoundedError e) = False"
| "leaf_err e = True"

lemma errors_Is_Errorf_leaf [simp]:
  "leaf_err t \<Longrightarrow> errors_Is (Errorf f as es) t \<longleftrightarrow> (\<exists>e \<in> set es. errors_Is e t)"
  by (cases t) (auto simp: err_simps list_ex_iff)

lemma errors_Is_Bounded_leaf [simp]: "leaf_err t \<Longrightarrow> errors_Is (BoundedError e) t \<longleftrightarrow> errors_Is e t"
  by (cases t) (auto simp: err_simps)

section \<open>Results of calls\<close>

text \<open>A call that returns, or panics with a runtime error or with some other value.\<close>

datatype 'a outcome = Ret 'a | PanicRuntime string | PanicOther string

section \<open>Contexts\<close>

text \<open>
  A context as the program builds it: the caller's, with the deadline it may carry, and what
  \<open>context.WithoutCancel\<close> and \<open>context.WithTimeout\<close> make of one. Whether the caller's context is
  done changes with time and is asked of the environment.
\<close>

datatype gocontext =
    CallerCtx "int option"
  | WithoutCancel gocontext
  | WithTimeout gocontext duration

fun ctx_Deadline :: "int \<Rightarrow> gocontext \<Rightarrow> int option" where
  "ctx_Deadline now (CallerCtx d) = d"
| "ctx_Deadline now (WithoutCancel c) = None"
| "ctx_Deadline now (WithTimeout c t) =
     (case ctx_Deadline now c of None \<Rightarrow> Some (now + t) | Some d \<Rightarrow> Some (min d (now + t)))"

text \<open>Whether a context can end because the caller's one does.\<close>

fun ctx_cancellable :: "gocontext \<Rightarrow> bool" where
  "ctx_cancellable (CallerCtx d) = True"
| "ctx_cancellable (WithoutCancel c) = False"
| "ctx_cancellable (WithTimeout c t) = True"

section \<open>Buffered channels\<close>

text \<open>
  A buffered Go channel: its queue, capacity and whether it is closed. A non-blocking send (a
  \<open>select\<close> with a \<open>default\<close>) finds room, finds none, or panics on a closed channel. A receive
  takes the oldest value, reports the close of a drained channel, or blocks.
\<close>

record 'a chan =
  ch_buf :: "'a list"
  ch_cap :: nat
  ch_closed :: bool

definition make_chan :: "nat \<Rightarrow> 'a chan" where
  "make_chan n = \<lparr>ch_buf = [], ch_cap = n, ch_closed = False\<rparr>"

datatype 'a send_result = Sent "'a chan" | WouldBlock | SendOnClosed

definition try_send :: "'a \<Rightarrow> 'a chan \<Rightarrow> 'a send_result" where
  "try_send v c =
     (if ch_closed c then SendOnClosed
      else if length (ch_buf c) < ch_cap c then Sent (c\<lparr>ch_buf := ch_buf c @ [v]\<rparr>)
      else WouldBlock)"

datatype 'a recv_result = Received 'a "'a chan" | RecvClosed | RecvBlock

definition try_recv :: "'a chan \<Rightarrow> 'a recv_result" where
  "try_recv c =
     (case ch_buf c of
        v # vs \<Rightarrow> Received v (c\<lparr>ch_buf := vs\<rparr>)
      | [] \<Rightarrow> if ch_closed c then RecvClosed else RecvBlock)"

definition close_chan :: "'a chan \<Rightarrow> 'a chan" where
  "close_chan c = c\<lparr>ch_closed := True\<rparr>"

definition chan_ok :: "'a chan \<Rightarrow> bool" where
  "chan_ok c \<longleftrightarrow> length (ch_buf c) \<le> ch_cap c"

lemma make_chan_sel [simp]:
  "ch_buf (make_chan n) = []" "ch_cap (make_chan n) = n" "\<not> ch_closed (make_chan n)"
  by (simp_all add: make_chan_def)

lemma close_chan_sel [simp]:
  "ch_buf (close_chan c) = ch_buf c" "ch_cap (close_chan c) = ch_cap c" "ch_closed (close_chan c)"
  by (simp_all add: close_chan_def)

lemma chan_ok_make [simp, intro]: "chan_ok (make_chan n)"
  by (simp add: chan_ok_def)

lemma try_send_Sent [chan_simps]:
  "try_send v c = Sent c' \<longleftrightarrow>
     \<not> ch_closed c \<and> length (ch_buf c) < ch_cap c \<and> c' = c\<lparr>ch_buf := ch_buf c @ [v]\<rparr>"
  by (auto simp: try_send_def)

lemma try_send_ok: "try_send v c = Sent c' \<Longrightarrow> chan_ok c'"
  by (auto simp: chan_simps chan_ok_def)

lemma try_recv_Received [chan_simps]:
  "try_recv c = Received v c' \<longleftrightarrow> (\<exists>vs. ch_buf c = v # vs \<and> c' = c\<lparr>ch_buf := vs\<rparr>)"
  by (auto simp: try_recv_def split: list.splits if_splits)

lemma try_recv_ok: "chan_ok c \<Longrightarrow> try_recv c = Received v c' \<Longrightarrow> chan_ok c'"
  by (auto simp: chan_simps chan_ok_def)

section \<open>The interface of a transition system with an invariant\<close>

text \<open>
  A machine given by its start states and a partial step function over labelled actions. Its laws
  are those of an inductive invariant; its client gets runs, reachability and the invariant in
  every reachable state.
\<close>

fun run_actions :: "('a \<Rightarrow> 's \<Rightarrow> 's option) \<Rightarrow> 'a list \<Rightarrow> 's \<Rightarrow> 's option" where
  "run_actions f [] s = Some s"
| "run_actions f (a # as) s = f a s \<bind> run_actions f as"

lemma run_actions_append:
  "run_actions f (as @ bs) s = run_actions f as s \<bind> run_actions f bs"
  by (induction as arbitrary: s) (auto split: Option.bind_splits)

inductive reach :: "('a \<Rightarrow> 's \<Rightarrow> 's option) \<Rightarrow> 's \<Rightarrow> 's \<Rightarrow> bool"
  for f :: "'a \<Rightarrow> 's \<Rightarrow> 's option" and s0 :: 's where
  reach_start: "reach f s0 s0"
| reach_step: "reach f s0 s \<Longrightarrow> f a s = Some t \<Longrightarrow> reach f s0 t"

lemma reach_run: "reach f s0 s \<Longrightarrow> run_actions f as s = Some t \<Longrightarrow> reach f s0 t"
  by (induction as arbitrary: s) (auto split: Option.bind_splits intro: reach_step)

lemma run_reach: "run_actions f as s = Some t \<Longrightarrow> reach f s t"
  using reach_run [OF reach_start] .

locale machine =
  fixes step :: "'a \<Rightarrow> 's \<Rightarrow> 's option"
    and start :: 's
    and inv :: "'s \<Rightarrow> bool"
  assumes inv_start: "inv start"
    and inv_step: "inv s \<Longrightarrow> step a s = Some t \<Longrightarrow> inv t"
begin

lemma inv_reach: "reach step start s \<Longrightarrow> inv s"
  by (induction rule: reach.induct) (auto intro: inv_start inv_step)

lemma inv_run: "inv s \<Longrightarrow> run_actions step as s = Some t \<Longrightarrow> inv t"
  by (induction as arbitrary: s) (auto split: Option.bind_splits intro: inv_step)

lemma inv_run_start: "run_actions step as start = Some t \<Longrightarrow> inv t"
  by (rule inv_run [OF inv_start])

lemma stable_reach:
  assumes stable: "\<And>a s t. inv s \<Longrightarrow> P s \<Longrightarrow> step a s = Some t \<Longrightarrow> P t"
    and "inv s" "P s" "run_actions step as s = Some t"
  shows "P t"
  using assms(2-)
proof (induction as arbitrary: s)
  case (Cons a as)
  then show ?case by (auto split: Option.bind_splits intro: inv_step stable)
qed simp

end

section \<open>The interface of a codec\<close>

text \<open>
  A printer with a reader that undoes it on the values of interest. Its client gets that the
  printed form identifies the value.
\<close>

locale codec =
  fixes encode :: "'a \<Rightarrow> 'b list"
    and decode :: "'b list \<Rightarrow> 'a option"
    and dom_ok :: "'a \<Rightarrow> bool"
  assumes decode_encode: "dom_ok x \<Longrightarrow> decode (encode x) = Some x"
begin

lemma encode_inj: "dom_ok x \<Longrightarrow> dom_ok y \<Longrightarrow> encode x = encode y \<longleftrightarrow> x = y"
  using decode_encode by (metis option.inject)

lemma encode_prefix_inj: "dom_ok x \<Longrightarrow> dom_ok y \<Longrightarrow> p @ encode x = p @ encode y \<longleftrightarrow> x = y"
  by (simp add: encode_inj)

end

section \<open>Lemmas on association lists used as Go maps\<close>

lemma alist_delete_nonempty: "AList.delete k xs = [] \<longleftrightarrow> (\<forall>p \<in> set xs. fst p = k)"
  by (auto simp: AList.delete_eq filter_empty_conv)

lemma set_alist_delete [simp]: "set (AList.delete k xs) = {p \<in> set xs. fst p \<noteq> k}"
  by (auto simp: AList.delete_eq)

lemma alist_update_nonempty [simp]: "AList.update k v xs \<noteq> []"
  by (cases xs) auto

lemma set_alist_update:
  "distinct (map fst xs) \<Longrightarrow> set (AList.update k v xs) = insert (k, v) {p \<in> set xs. fst p \<noteq> k}"
  by (induction xs) (auto simp: image_iff)

lemma map_of_Some_set:
  "distinct (map fst xs) \<Longrightarrow> map_of xs k = Some v \<longleftrightarrow> (k, v) \<in> set xs"
  by (simp add: map_of_eq_Some_iff)

end
