(* ===== verification/Topics.thy ===== *)
theory Topics
  imports Prelude "HOL-Library.Sublist"
begin

text \<open>
  The packages topics and message: the well-known destination names, the queue-prepend rule and
  the header names the messaging core stamps.
\<close>

section \<open>Constants\<close>

definition FieldBusInput :: string where
  "FieldBusInput = ''/topic/goss.gridappsd.field.input''"

definition FieldBusOutput :: string where
  "FieldBusOutput = ''/topic/goss.gridappsd.field.output''"

definition Blazegraph :: string where
  "Blazegraph = ''goss.gridappsd.process.request.data.powergridmodel''"

definition Logs :: string where
  "Logs = ''goss.gridappsd.process.request.log''"

definition Timeseries :: string where
  "Timeseries = ''goss.gridappsd.process.request.data.timeseries''"

definition Config_topic :: string where
  "Config_topic = ''goss.gridappsd.process.request.config''"

definition PlatformStatus :: string where
  "PlatformStatus = ''goss.gridappsd.process.request.status.platform''"

definition HeaderGossHasSubject :: string where
  "HeaderGossHasSubject = ''GOSS_HAS_SUBJECT''"

definition HeaderGossSubject :: string where
  "HeaderGossSubject = ''GOSS_SUBJECT''"

definition HeaderReplyTo :: string where
  "HeaderReplyTo = ''reply-to''"

definition HeaderContentType :: string where
  "HeaderContentType = ''content-type''"

definition HeaderDestination :: string where
  "HeaderDestination = ''destination''"

lemmas header_names =
  HeaderGossHasSubject_def HeaderGossSubject_def HeaderReplyTo_def HeaderContentType_def
  HeaderDestination_def

section \<open>The queue-prepend rule\<close>

text \<open>\<open>strings.HasPrefix(s, p)\<close>.\<close>

definition HasPrefix :: "string \<Rightarrow> string \<Rightarrow> bool" where
  "HasPrefix s p \<longleftrightarrow> take (length p) s = p"

lemma HasPrefix_prefix: "HasPrefix s p \<longleftrightarrow> prefix p s"
  unfolding HasPrefix_def by (metis append_eq_conv_conj prefix_def)

definition NormalizeDestination :: "string \<Rightarrow> string" where
  "NormalizeDestination dest =
     (if HasPrefix dest ''/topic/'' \<or> HasPrefix dest ''/queue/'' \<or> HasPrefix dest ''/temp-queue/''
      then dest
      else ''/queue/'' @ dest)"

definition is_qualified :: "string \<Rightarrow> bool" where
  "is_qualified d \<longleftrightarrow> HasPrefix d ''/topic/'' \<or> HasPrefix d ''/queue/'' \<or> HasPrefix d ''/temp-queue/''"

lemma HasPrefix_append [simp]: "HasPrefix (p @ s) p"
  by (simp add: HasPrefix_prefix)

lemma NormalizeDestination_qualified [simp]: "is_qualified d \<Longrightarrow> NormalizeDestination d = d"
  by (simp add: NormalizeDestination_def is_qualified_def)

lemma NormalizeDestination_bare: "\<not> is_qualified d \<Longrightarrow> NormalizeDestination d = ''/queue/'' @ d"
  by (simp add: NormalizeDestination_def is_qualified_def)

lemma qualified_NormalizeDestination [simp]: "is_qualified (NormalizeDestination d)"
  using HasPrefix_append [of "''/queue/''" d]
  by (cases "is_qualified d") (auto simp: NormalizeDestination_bare is_qualified_def)

end
