(* ===== verification/Transport.thy ===== *)
theory Transport
  imports Prelude
begin

text \<open>
  The package transport: the configuration and message types every layer shares, and the
  interfaces \<open>Conn\<close> and \<open>Subscription\<close>. A Go interface value is a table of methods; here a table is
  a record of functions over the state \<open>'w\<close> behind it, and a subscription is a handle of type \<open>'s\<close>.
  The interface's promises, as its comments state them and its clients rely on them, are the laws
  of the locale \<open>transport_conn\<close>.
\<close>

section \<open>Configuration and messages\<close>

record HeartBeatIntervals =
  hb_Send :: duration
  hb_Recv :: duration

record ConnConfig =
  Login :: string
  Passcode :: string
  HeartBeat :: duration
  HeartBeats :: "HeartBeatIntervals option"

record Msg =
  Body :: bytes
  Destination :: string
  Err :: "goerr option"

section \<open>The interfaces\<close>

text \<open>
  What a \<open>select\<close> over a subscription's channel and the context yields: a message, the close of the
  channel, or the end of the context with its error.
\<close>

datatype select_result = GotMsg Msg | GotClosed | GotCtxDone goerr

text \<open>
  The \<open>select\<close> itself. \<open>cdone\<close> is the context's error if it has ended; \<open>pick\<close> is Go's choice when both
  cases are ready, \<open>None\<close> means that the caller stays blocked.
\<close>

definition select_reply :: "bool \<Rightarrow> goerr option \<Rightarrow> Msg chan \<Rightarrow> (select_result \<times> Msg chan) option" where
  "select_reply pick cdone c =
     (let fin = (case cdone of None \<Rightarrow> None | Some e \<Rightarrow> Some (GotCtxDone e, c)) in
      case try_recv c of
        RecvBlock \<Rightarrow> fin
      | RecvClosed \<Rightarrow> (if pick \<or> fin = None then Some (GotClosed, c) else fin)
      | Received m c' \<Rightarrow> (if pick \<or> fin = None then Some (GotMsg m, c') else fin))"

lemma select_reply_closed: "select_reply pick cdone c = Some (res, c') \<Longrightarrow> ch_closed c' = ch_closed c"
  by (auto simp: select_reply_def Let_def chan_simps split: recv_result.splits option.splits if_splits)

text \<open>
  The methods of \<open>Conn\<close> and \<open>Subscription\<close>. \<open>wait_reply\<close> is the \<open>select\<close> over \<open>C()\<close> and
  \<open>ctx.Done()\<close>; it is \<open>None\<close> when neither ever becomes ready, that is, when the caller blocks for
  good, and so is a Disconnect that waits for good.
\<close>

record ('w, 's) Conn =
  conn_Send :: "gocontext \<Rightarrow> string \<Rightarrow> string \<Rightarrow> bytes \<Rightarrow> headers \<Rightarrow> 'w \<Rightarrow> goerr option \<times> 'w"
  conn_Subscribe :: "gocontext \<Rightarrow> string \<Rightarrow> 'w \<Rightarrow> (goerr + 's) \<times> 'w"
  conn_Disconnect :: "'w \<Rightarrow> (goerr option \<times> 'w) option"
  sub_Unsubscribe :: "'s \<Rightarrow> 'w \<Rightarrow> goerr option outcome \<times> 'w"
  wait_reply :: "gocontext \<Rightarrow> 's \<Rightarrow> 'w \<Rightarrow> (select_result \<times> 'w) option"

text \<open>An outbound SEND frame as its parts.\<close>

record send_frame =
  sf_dest :: string
  sf_ctype :: string
  sf_body :: bytes
  sf_headers :: headers

text \<open>
  The promises of a connection, in terms of what can be observed of its state: the SEND frames
  handed over, the subscriptions made with their destinations, and the subscriptions cancelled.
  A call changes only its own observation, a failed Subscribe or Send adds nothing, a successful
  Subscribe returns a subscription not seen before, Unsubscribe cancels its subscription whatever it
  returns, and waiting changes none of the three, except that a transport may cancel the
  subscription waited on when the context ends.
\<close>

locale transport_conn =
  fixes ops :: "('w, 's) Conn"
    and sent :: "'w \<Rightarrow> send_frame list"
    and subscribed :: "'w \<Rightarrow> ('s \<times> string) list"
    and cancelled :: "'w \<Rightarrow> 's set"
    and invar :: "'w \<Rightarrow> bool"
  assumes send_ok:
      "invar w \<Longrightarrow> conn_Send ops ctx d ct b hs w = (None, w') \<Longrightarrow>
         invar w' \<and> sent w' = sent w @ [\<lparr>sf_dest = d, sf_ctype = ct, sf_body = b, sf_headers = hs\<rparr>]
         \<and> subscribed w' = subscribed w \<and> cancelled w' = cancelled w"
    and send_err:
      "invar w \<Longrightarrow> conn_Send ops ctx d ct b hs w = (Some e, w') \<Longrightarrow>
         invar w' \<and> sent w' = sent w \<and> subscribed w' = subscribed w \<and> cancelled w' = cancelled w"
    and subscribe_ok:
      "invar w \<Longrightarrow> conn_Subscribe ops ctx d w = (Inr s, w') \<Longrightarrow>
         invar w' \<and> sent w' = sent w \<and> subscribed w' = subscribed w @ [(s, d)]
         \<and> s \<notin> fst ` set (subscribed w) \<and> cancelled w' = cancelled w"
    and subscribe_err:
      "invar w \<Longrightarrow> conn_Subscribe ops ctx d w = (Inl e, w') \<Longrightarrow>
         invar w' \<and> sent w' = sent w \<and> subscribed w' = subscribed w \<and> cancelled w' = cancelled w"
    and unsubscribe_any:
      "invar w \<Longrightarrow> s \<in> fst ` set (subscribed w) \<Longrightarrow> sub_Unsubscribe ops s w = (r, w') \<Longrightarrow>
         invar w' \<and> sent w' = sent w \<and> subscribed w' = subscribed w
         \<and> cancelled w' = insert s (cancelled w)"
    and wait_frame:
      "invar w \<Longrightarrow> s \<in> fst ` set (subscribed w) \<Longrightarrow> wait_reply ops ctx s w = Some (res, w') \<Longrightarrow>
         invar w' \<and> sent w' = sent w \<and> subscribed w' = subscribed w
         \<and> cancelled w \<subseteq> cancelled w' \<and> cancelled w' \<subseteq> insert s (cancelled w)"
    and disconnect_frame:
      "invar w \<Longrightarrow> conn_Disconnect ops w = Some (err, w') \<Longrightarrow>
         invar w' \<and> sent w' = sent w \<and> subscribed w' = subscribed w \<and> cancelled w' = cancelled w"

end
