(* ===== verification/Router.thy ===== *)
theory Router
  imports Topics Transport "HOL-Library.Word" "HOL-Library.Multiset"
begin

text \<open>
  The package internal/router: per-destination callback dispatch. The state is the router's own
  (registry, destination states, token counter, error channel, wait group) and what runs beside
  it: one reader goroutine per destination state, the subscription channels they drain, and the
  Unsubscribe calls that the router has still to make after it released its lock.

  A destination state lives on a heap, a list indexed by its address, because the code compares
  the registry entry with the reader's own state by pointer. A reader has the address of its state
  as its name and a program counter that names the point it has reached in \<open>readLoop\<close>. What runs
  under the router's mutex is one step; everything else is a step of its own, so every
  interleaving of readers, callers, the transport and the consumer of \<open>Errors()\<close> is a sequence of
  actions.
\<close>

section \<open>State\<close>

type_synonym token = "64 word"

definition ErrorChanBuffer :: nat where
  "ErrorChanBuffer = 16"

record 'h destState =
  ds_sub :: nat
  ds_handlers :: "(token \<times> 'h) list"
  ds_done :: bool

text \<open>\<open>destState.dead\<close>: whether \<open>done\<close> has been closed.\<close>

definition dead :: "'h destState \<Rightarrow> bool" where
  "dead st \<longleftrightarrow> ds_done st"

text \<open>Where a reader goroutine is.\<close>

datatype 'h rpc =
    ReadRecv
  | ReadSnap Msg
  | ReadCall "'h list" Msg
  | ReadExit "goerr option"
  | ReadDereg "goerr option"
  | ReadReport "goerr option" bool
  | PubSend goerr nat
  | PubDrain goerr nat
  | ReadFin
  | ReadDone

record 'h reader =
  rd_dest :: string
  rd_pc :: "'h rpc"

record 'h router =
  dests :: "(string \<times> nat) list"
  states :: "'h destState list"
  readers :: "'h reader list"
  chans :: "Msg chan list"
  nextToken :: token
  errs :: "goerr chan"
  wg :: nat
  pending :: "nat list"
  called :: "nat list"
  closing :: "nat list"
  calls :: "('h \<times> headers \<times> bytes) list"

definition NewWithErrorChan :: "goerr chan option \<Rightarrow> 'h router" where
  "NewWithErrorChan ec =
     \<lparr>dests = [], states = [], readers = [], chans = [], nextToken = 0,
      errs = (case ec of None \<Rightarrow> make_chan ErrorChanBuffer | Some c \<Rightarrow> c),
      wg = 0, pending = [], called = [], closing = [], calls = []\<rparr>"

definition New_router :: "'h router" where
  "New_router = NewWithErrorChan None"

definition router_Errors :: "'h router \<Rightarrow> goerr chan" where
  "router_Errors r = errs r"

section \<open>The operations of the callers\<close>

text \<open>The state a destination is registered with, unless its reader has begun to exit.\<close>

definition live_state :: "'h router \<Rightarrow> string \<Rightarrow> nat option" where
  "live_state r dest =
     (case map_of (dests r) dest of
        None \<Rightarrow> None
      | Some a \<Rightarrow> if dead (states r ! a) then None else Some a)"

text \<open>
  \<open>Subscribe\<close>. The token is drawn before the lock is taken; here the two are one step, and theory LockRefine
  shows that taking them apart only renames tokens. \<open>res\<close> is the error of the transport's Subscribe, if
  it fails; \<open>n\<close> is the depth of the channel it returns. A fresh destination state comes with its reader,
  started at the top of \<open>readLoop\<close>.
\<close>

definition router_Subscribe ::
  "string \<Rightarrow> 'h \<Rightarrow> goerr option \<Rightarrow> nat \<Rightarrow> 'h router \<Rightarrow> (goerr + token) \<times> 'h router" where
  "router_Subscribe dest h res n r =
     (let tok = nextToken r + 1;
          r1 = r\<lparr>nextToken := tok\<rparr> in
      case live_state r1 dest of
        Some a \<Rightarrow>
          (let st = states r1 ! a in
           (Inr tok,
            r1\<lparr>states := (states r1)[a := st\<lparr>ds_handlers := AList.update tok h (ds_handlers st)\<rparr>]\<rparr>))
      | None \<Rightarrow>
          (case res of
             Some e \<Rightarrow> (Inl (Errorf ''router: subscribe %q: %w'' [StrArg dest] [e]), r1)
           | None \<Rightarrow>
               (let sub = length (chans r1);
                    st = \<lparr>ds_sub = sub, ds_handlers = [(tok, h)], ds_done = False\<rparr> in
                (Inr tok,
                 r1\<lparr>chans := chans r1 @ [make_chan n],
                    states := states r1 @ [st],
                    dests := AList.update dest (length (states r1)) (dests r1),
                    wg := wg r1 + 1,
                    readers := readers r1 @ [\<lparr>rd_dest = dest, rd_pc = ReadRecv\<rparr>]\<rparr>))))"

text \<open>
  \<open>Unsubscribe\<close> up to the release of the lock: the result tells which subscription the caller has
  still to unsubscribe. That call and its result are the second part.
\<close>

definition Unsubscribe_locked :: "string \<Rightarrow> token \<Rightarrow> 'h router \<Rightarrow> nat option \<times> 'h router" where
  "Unsubscribe_locked dest tok r =
     (case map_of (dests r) dest of
        None \<Rightarrow> (None, r)
      | Some a \<Rightarrow>
          (let st = (states r ! a)\<lparr>ds_handlers := AList.delete tok (ds_handlers (states r ! a))\<rparr>;
               r1 = r\<lparr>states := (states r)[a := st]\<rparr> in
           if ds_handlers st \<noteq> [] then (None, r1)
           else
             (let r2 = r1\<lparr>dests := AList.delete dest (dests r1)\<rparr> in
              if dead st then (None, r2) else (Some (ds_sub st), r2))))"

definition Unsubscribe_result :: "string \<Rightarrow> goerr option \<Rightarrow> goerr option" where
  "Unsubscribe_result dest err =
     (case err of None \<Rightarrow> None | Some e \<Rightarrow> Some (Errorf ''router: unsubscribe %q: %w'' [StrArg dest] [e]))"

text \<open>\<open>Close\<close> up to the release of the lock: the live subscriptions, and the cleared registry.\<close>

definition Close_locked :: "'h router \<Rightarrow> nat list \<times> 'h router" where
  "Close_locked r =
     (map (\<lambda>(d, a). ds_sub (states r ! a)) (filter (\<lambda>(d, a). \<not> dead (states r ! a)) (dests r)),
      r\<lparr>dests := []\<rparr>)"

section \<open>The reader goroutine\<close>

definition set_pc :: "nat \<Rightarrow> 'h rpc \<Rightarrow> 'h router \<Rightarrow> 'h router" where
  "set_pc a pc r = r\<lparr>readers := (readers r)[a := (readers r ! a)\<lparr>rd_pc := pc\<rparr>]\<rparr>"

text \<open>
  One iteration step of \<open>publishErr\<close>: a non-blocking send, then, when the buffer is full, a
  non-blocking receive that discards the oldest error. \<open>readLoop_step\<close> is the whole of \<open>readLoop\<close>,
  one step at a time: \<open>hs\<close> is the order in which Go iterates over the handler map when the snapshot
  is taken. \<open>None\<close> means that the reader is blocked or finished.
\<close>

definition readLoop_headers :: "string \<Rightarrow> headers" where
  "readLoop_headers dest = [HeaderDestination \<mapsto> dest]"

definition readLoop_step :: "'h list \<Rightarrow> nat \<Rightarrow> 'h router \<Rightarrow> 'h router option" where
  "readLoop_step hs a r =
     (if a < length (readers r) then
       (let st = states r ! a;
            dest = rd_dest (readers r ! a) in
        case rd_pc (readers r ! a) of
          ReadRecv \<Rightarrow>
            (case try_recv (chans r ! ds_sub st) of
               RecvBlock \<Rightarrow> None
             | RecvClosed \<Rightarrow> Some (set_pc a (ReadExit None) r)
             | Received msg c \<Rightarrow>
                 (let r1 = r\<lparr>chans := (chans r)[ds_sub st := c]\<rparr> in
                  case Err msg of
                    Some e \<Rightarrow>
                      Some (set_pc a (ReadExit (Some
                        (Errorf ''router: subscription error on %q: %w'' [StrArg dest] [e]))) r1)
                  | None \<Rightarrow> Some (set_pc a (ReadSnap msg) r1)))
        | ReadSnap msg \<Rightarrow>
            (if mset hs = mset (map snd (ds_handlers st)) then Some (set_pc a (ReadCall hs msg) r)
             else None)
        | ReadCall hl msg \<Rightarrow>
            (case hl of
               [] \<Rightarrow> Some (set_pc a ReadRecv r)
             | h # hl' \<Rightarrow>
                 Some (set_pc a (ReadCall hl' msg)
                   (r\<lparr>calls := calls r @ [(h, readLoop_headers dest, Body msg)]\<rparr>)))
        | ReadExit termErr \<Rightarrow>
            Some (set_pc a (ReadDereg termErr) (r\<lparr>states := (states r)[a := st\<lparr>ds_done := True\<rparr>]\<rparr>))
        | ReadDereg termErr \<Rightarrow>
            (let unexpected = (map_of (dests r) dest = Some a);
                 r1 = (if unexpected then r\<lparr>dests := AList.delete dest (dests r)\<rparr> else r) in
             Some (set_pc a (ReadReport termErr unexpected) r1))
        | ReadReport termErr unexpected \<Rightarrow>
            (case termErr of
               Some e \<Rightarrow> Some (set_pc a (PubSend e 0) r)
             | None \<Rightarrow>
                 if unexpected then
                   Some (set_pc a (PubSend
                     (Errorf ''router: subscription on %q ended: %w'' [StrArg dest] [ErrSubscriptionClosed]) 0) r)
                 else Some (set_pc a ReadFin r))
        | PubSend e i \<Rightarrow>
            (if ErrorChanBuffer < i then Some (set_pc a ReadFin r)
             else
               (case try_send e (errs r) of
                  Sent c \<Rightarrow> Some (set_pc a ReadFin (r\<lparr>errs := c\<rparr>))
                | WouldBlock \<Rightarrow> Some (set_pc a (PubDrain e i) r)
                | SendOnClosed \<Rightarrow> None))
        | PubDrain e i \<Rightarrow>
            (case try_recv (errs r) of
               Received _ c \<Rightarrow> Some (set_pc a (PubSend e (i + 1)) (r\<lparr>errs := c\<rparr>))
             | _ \<Rightarrow> Some (set_pc a (PubSend e (i + 1)) r))
        | ReadFin \<Rightarrow> Some (set_pc a ReadDone (r\<lparr>wg := wg r - 1\<rparr>))
        | ReadDone \<Rightarrow> None)
      else None)"

text \<open>\<open>publishErr\<close> as a call that no other goroutine interrupts.\<close>

fun publish_loop :: "nat \<Rightarrow> goerr \<Rightarrow> goerr chan \<Rightarrow> goerr chan option" where
  "publish_loop 0 e c = Some c"
| "publish_loop (Suc k) e c =
     (case try_send e c of
        Sent c' \<Rightarrow> Some c'
      | SendOnClosed \<Rightarrow> None
      | WouldBlock \<Rightarrow>
          publish_loop k e (case try_recv c of Received _ c' \<Rightarrow> c' | _ \<Rightarrow> c))"

definition publishErr :: "goerr \<Rightarrow> goerr chan \<Rightarrow> goerr chan option" where
  "publishErr e c = publish_loop (ErrorChanBuffer + 1) e c"

section \<open>All actions\<close>

text \<open>
  What can happen next: a caller's operation up to the release of the lock, a pending call of a
  subscription's Unsubscribe, the return of \<open>Close\<close> from its wait, a step of a reader, and what the
  environment does: the transport delivers a message or closes a channel, after our Unsubscribe or on
  its own, the health monitor takes an error. Close returns when it has made the Unsubscribe calls of
  its list, \<open>closing\<close>, and its wait for the readers is over.
\<close>

datatype 'h action =
    DoSubscribe string 'h "goerr option" nat
  | DoUnsubscribe string token
  | DoClose
  | DoCallUnsubscribe nat
  | DoCloseReturn
  | DoReader "'h list" nat
  | DoDeliver nat Msg
  | DoPeerClose nat
  | DoConsume

fun router_step :: "'h action \<Rightarrow> 'h router \<Rightarrow> 'h router option" where
  "router_step (DoSubscribe dest h res n) r = Some (snd (router_Subscribe dest h res n r))"
| "router_step (DoUnsubscribe dest tok) r =
     (case Unsubscribe_locked dest tok r of
        (sub, r1) \<Rightarrow> Some (r1\<lparr>pending := pending r1 @ (case sub of None \<Rightarrow> [] | Some s \<Rightarrow> [s])\<rparr>))"
| "router_step DoClose r =
     (case Close_locked r of
        (subs, r1) \<Rightarrow> Some (r1\<lparr>pending := pending r1 @ subs, closing := closing r1 @ subs\<rparr>))"
| "router_step (DoCallUnsubscribe s) r =
     (if s \<in> set (pending r) then Some (r\<lparr>pending := remove1 s (pending r), called := s # called r\<rparr>)
      else None)"
| "router_step DoCloseReturn r =
     (if wg r = 0 \<and> list_all (\<lambda>s. s \<in> set (called r)) (closing r) then Some r else None)"
| "router_step (DoReader hs a) r = readLoop_step hs a r"
| "router_step (DoDeliver s msg) r =
     (if s < length (chans r) then
        (case try_send msg (chans r ! s) of
           Sent c \<Rightarrow> Some (r\<lparr>chans := (chans r)[s := c]\<rparr>)
         | _ \<Rightarrow> None)
      else None)"
| "router_step (DoPeerClose s) r =
     (if s < length (chans r) \<and> \<not> ch_closed (chans r ! s)
      then Some (r\<lparr>chans := (chans r)[s := close_chan (chans r ! s)]\<rparr>) else None)"
| "router_step DoConsume r =
     (case try_recv (errs r) of
        Received _ c \<Rightarrow> Some (r\<lparr>errs := c\<rparr>)
      | _ \<Rightarrow> None)"

section \<open>The invariant\<close>

text \<open>Points of \<open>readLoop\<close>: inside the loop; before \<open>done\<close> is closed; before deregistration.\<close>

fun in_loop :: "'h rpc \<Rightarrow> bool" where
  "in_loop ReadRecv = True"
| "in_loop (ReadSnap m) = True"
| "in_loop (ReadCall hl m) = True"
| "in_loop _ = False"

definition before_done :: "'h rpc \<Rightarrow> bool" where
  "before_done pc \<longleftrightarrow> in_loop pc \<or> (\<exists>t. pc = ReadExit t)"

definition before_dereg :: "'h rpc \<Rightarrow> bool" where
  "before_dereg pc \<longleftrightarrow> before_done pc \<or> (\<exists>t. pc = ReadDereg t)"

lemma before_done_simps [simp]:
  "before_done ReadRecv" "before_done (ReadSnap m)" "before_done (ReadCall hl m)"
  "before_done (ReadExit t)" "\<not> before_done (ReadDereg t)" "\<not> before_done (ReadReport t u)"
  "\<not> before_done (PubSend e i)" "\<not> before_done (PubDrain e i)" "\<not> before_done ReadFin"
  "\<not> before_done ReadDone"
  by (simp_all add: before_done_def)

lemma before_dereg_simps [simp]:
  "before_done pc \<Longrightarrow> before_dereg pc" "before_dereg (ReadDereg t)"
  "\<not> before_dereg (ReadReport t u)" "\<not> before_dereg (PubSend e i)" "\<not> before_dereg (PubDrain e i)"
  "\<not> before_dereg ReadFin" "\<not> before_dereg ReadDone"
  by (simp_all add: before_dereg_def)

abbreviation pc_of :: "'h router \<Rightarrow> nat \<Rightarrow> 'h rpc" where
  "pc_of r a \<equiv> rd_pc (readers r ! a)"

abbreviation dest_of :: "'h router \<Rightarrow> nat \<Rightarrow> string" where
  "dest_of r a \<equiv> rd_dest (readers r ! a)"

text \<open>
  What holds of every destination state: it owns the subscription of its number, \<open>done\<close> is closed
  exactly when its reader is past that point, and a reader still in its loop is registered or has
  had its Unsubscribe decided, so that it will be told to stop. What holds of a registered one: its
  reader works for that destination, has not deregistered, and there is a handler to call.
\<close>

definition cell_ok :: "'h router \<Rightarrow> nat \<Rightarrow> bool" where
  "cell_ok r a \<longleftrightarrow>
     ds_sub (states r ! a) = a
     \<and> distinct (map fst (ds_handlers (states r ! a)))
     \<and> (ds_done (states r ! a) \<longleftrightarrow> \<not> before_done (pc_of r a))
     \<and> (in_loop (pc_of r a) \<longrightarrow> (dest_of r a, a) \<in> set (dests r) \<or> a \<in> set (pending r) \<union> set (called r))"

definition entry_ok :: "'h router \<Rightarrow> string \<times> nat \<Rightarrow> bool" where
  "entry_ok r p \<longleftrightarrow>
     snd p < length (states r) \<and> dest_of r (snd p) = fst p
     \<and> ds_handlers (states r ! snd p) \<noteq> [] \<and> before_dereg (pc_of r (snd p))"

definition live_readers :: "'h reader list \<Rightarrow> nat" where
  "live_readers rs = length (filter (\<lambda>rd. rd_pc rd \<noteq> ReadDone) rs)"

definition router_inv :: "'h router \<Rightarrow> bool" where
  "router_inv r \<longleftrightarrow>
     length (readers r) = length (states r) \<and> length (chans r) = length (states r)
     \<and> distinct (map fst (dests r))
     \<and> (\<forall>a < length (states r). cell_ok r a)
     \<and> (\<forall>p \<in> set (dests r). entry_ok r p)
     \<and> wg r = live_readers (readers r)
     \<and> chan_ok (errs r) \<and> \<not> ch_closed (errs r)"

lemma router_invI:
  assumes "length (readers r) = length (states r)" "length (chans r) = length (states r)"
    "distinct (map fst (dests r))" "\<And>a. a < length (states r) \<Longrightarrow> cell_ok r a"
    "\<And>d a. (d, a) \<in> set (dests r) \<Longrightarrow> entry_ok r (d, a)" "wg r = live_readers (readers r)"
    "chan_ok (errs r)" "\<not> ch_closed (errs r)"
  shows "router_inv r"
  using assms by (auto simp: router_inv_def)

lemma router_invD:
  assumes "router_inv r"
  shows "length (readers r) = length (states r)" "length (chans r) = length (states r)"
    "distinct (map fst (dests r))" "\<And>a. a < length (states r) \<Longrightarrow> cell_ok r a"
    "\<And>d a. (d, a) \<in> set (dests r) \<Longrightarrow> entry_ok r (d, a)" "wg r = live_readers (readers r)"
    "chan_ok (errs r)" "\<not> ch_closed (errs r)"
  using assms by (auto simp: router_inv_def)

lemma live_readers_update:
  "a < length rs \<Longrightarrow>
     live_readers (rs[a := rd]) + (if rd_pc (rs ! a) = ReadDone then 0 else 1) =
     live_readers rs + (if rd_pc rd = ReadDone then 0 else 1)"
proof -
  assume a: "a < length rs"
  have "live_readers (take a rs @ rs ! a # drop (Suc a) rs) = live_readers rs"
    using a by (simp add: id_take_nth_drop [symmetric])
  with a show ?thesis by (auto simp: upd_conv_take_nth_drop live_readers_def)
qed

lemma live_readers_same:
  "a < length rs \<Longrightarrow> rd_pc (rs ! a) \<noteq> ReadDone \<Longrightarrow> rd_pc rd \<noteq> ReadDone \<Longrightarrow>
     live_readers (rs[a := rd]) = live_readers rs"
  using live_readers_update [of a rs rd] by simp

lemma live_readers_append [simp]: "live_readers (rs @ qs) = live_readers rs + live_readers qs"
  by (simp add: live_readers_def)

lemma live_readers_zero: "live_readers rs = 0 \<longleftrightarrow> (\<forall>rd \<in> set rs. rd_pc rd = ReadDone)"
  by (auto simp: live_readers_def filter_empty_conv)

lemma live_state_Some:
  "live_state r d = Some a \<longleftrightarrow> map_of (dests r) d = Some a \<and> \<not> ds_done (states r ! a)"
  by (auto simp: live_state_def dead_def split: option.splits)

lemma live_state_token [simp]: "live_state (r\<lparr>nextToken := t\<rparr>) d = live_state r d"
  by (simp add: live_state_def split: option.splits)

lemma registered_iff:
  "distinct (map fst (dests r)) \<Longrightarrow> map_of (dests r) d = Some a \<longleftrightarrow> (d, a) \<in> set (dests r)"
  by (rule map_of_Some_set)

lemma in_loop_before_done [simp]: "in_loop pc \<Longrightarrow> before_done pc"
  by (simp add: before_done_def)

lemma not_live_stopped:
  assumes "router_inv r" "live_state r d = None" "(d, a) \<in> set (dests r)"
  shows "\<not> before_done (pc_of r a)"
proof -
  note I = router_invD [OF assms(1)]
  from assms(3) I(5) have "a < length (states r)" by (auto simp: entry_ok_def)
  with I(4) have "ds_done (states r ! a) \<longleftrightarrow> \<not> before_done (pc_of r a)" by (simp add: cell_ok_def)
  moreover from assms(3) I(3) have "map_of (dests r) d = Some a" by (simp add: registered_iff)
  ultimately show ?thesis
    using assms(2) by (simp add: live_state_def dead_def split: if_splits)
qed

section \<open>Every action keeps the invariant\<close>

lemma inv_Subscribe:
  assumes "router_inv r"
  shows "router_inv (snd (router_Subscribe d h res n r))"
proof (cases "live_state r d")
  case (Some a)
  note I = router_invD [OF assms]
  from Some I(3) have "(d, a) \<in> set (dests r)" by (simp add: live_state_Some registered_iff)
  with I(5) have a: "a < length (states r)" by (auto simp: entry_ok_def)
  show ?thesis
    by (rule router_invI)
      (use I a Some in \<open>auto simp: router_Subscribe_def Let_def cell_ok_def entry_ok_def
        nth_list_update distinct_update\<close>)
next
  case None
  note I = router_invD [OF assms]
  show ?thesis
  proof (cases res)
    case res: None
    have "\<not> in_loop (pc_of r a)" if "(d, a) \<in> set (dests r)" for a
      using not_live_stopped [OF assms None that] by auto
    then show ?thesis
      by (intro router_invI)
        (use I None res in \<open>auto simp: router_Subscribe_def Let_def cell_ok_def entry_ok_def
          nth_append distinct_update live_readers_def set_alist_update less_Suc_eq split: if_splits\<close>)
  next
    case (Some e)
    with None assms show ?thesis
      by (auto simp: router_Subscribe_def Let_def router_inv_def cell_ok_def entry_ok_def)
  qed
qed

lemma inv_Unsubscribe:
  assumes "router_inv r" "Unsubscribe_locked d tok r = (sub, r1)"
  shows "router_inv (r1\<lparr>pending := pending r1 @ (case sub of None \<Rightarrow> [] | Some s \<Rightarrow> [s])\<rparr>)"
proof (cases "map_of (dests r) d")
  case None
  with assms show ?thesis by (simp add: Unsubscribe_locked_def)
next
  case (Some a)
  note I = router_invD [OF assms(1)]
  from Some I(3) have da: "(d, a) \<in> set (dests r)" by (simp add: registered_iff)
  with I(5) have a: "a < length (states r)" "dest_of r a = d" by (auto simp: entry_ok_def)
  have sub: "ds_sub (states r ! a) = a" using I(4) a by (simp add: cell_ok_def)
  have uniq: "d' = d \<longrightarrow> b = a" if "(d', b) \<in> set (dests r)" for d' b
    using that da eq_key_imp_eq_value [OF I(3)] by blast
  let ?st = "(states r ! a)\<lparr>ds_handlers := AList.delete tok (ds_handlers (states r ! a))\<rparr>"
  have cell: "ds_done (states r ! a) \<longleftrightarrow> \<not> before_done (pc_of r a)" "distinct (map fst (ds_handlers ?st))"
    using I(4) a by (simp_all add: cell_ok_def distinct_delete)
  show ?thesis
  proof (cases "ds_handlers ?st = []")
    case False
    with assms(2) Some have "sub = None" "r1 = r\<lparr>states := (states r)[a := ?st]\<rparr>"
      by (simp_all add: Unsubscribe_locked_def Let_def)
    with False I a cell show ?thesis
      by (intro router_invI) (auto simp: cell_ok_def entry_ok_def nth_list_update)
  next
    case True
    with assms(2) Some sub have r1: "r1 = r\<lparr>states := (states r)[a := ?st], dests := AList.delete d (dests r)\<rparr>"
      and s: "sub = (if ds_done (states r ! a) then None else Some a)"
      by (auto simp: Unsubscribe_locked_def Let_def dead_def split: if_splits)
    show ?thesis
    proof (rule router_invI, goal_cases)
      case (4 b)
      show ?case
      proof (cases "b = a")
        case True
        with r1 s a sub cell show ?thesis by (auto simp: cell_ok_def)
      next
        case False
        with uniq have "(dest_of r b, b) \<in> set (dests r) \<Longrightarrow> dest_of r b \<noteq> d" by blast
        with False r1 I(4) [of b] 4 show ?thesis by (auto simp: cell_ok_def)
      qed
    next
      case (5 d' b)
      with r1 have "(d', b) \<in> set (dests r)" "d' \<noteq> d" by auto
      moreover from this I(5) a have "b \<noteq> a" by (auto simp: entry_ok_def)
      ultimately show ?case using r1 I(5) by (auto simp: entry_ok_def)
    qed (use r1 I in \<open>simp_all add: distinct_delete\<close>)
  qed
qed

lemma inv_Close:
  assumes "router_inv r" "Close_locked r = (subs, r1)"
  shows "router_inv (r1\<lparr>pending := pending r1 @ subs\<rparr>)"
proof -
  note I = router_invD [OF assms(1)]
  have "a \<in> set subs" if "(dest_of r a, a) \<in> set (dests r)" "a < length (states r)" "in_loop (pc_of r a)" for a
    using that I(4) [of a] assms(2)
    by (force simp: Close_locked_def cell_ok_def dead_def)
  moreover from assms(2) have "r1 = r\<lparr>dests := []\<rparr>" by (simp add: Close_locked_def)
  ultimately show ?thesis
    by (intro router_invI) (use I in \<open>auto simp: cell_ok_def\<close>)
qed

lemma inv_closing: "router_inv (r\<lparr>closing := cs\<rparr>) = router_inv r"
  by (simp add: router_inv_def cell_ok_def entry_ok_def)

text \<open>
  A reader's step: it moves its own program counter and, depending on where it is, its channel, the
  error channel, the wait group, \<open>done\<close> of its own state or its own registry entry.
\<close>

lemma inv_set_pc:
  assumes "router_inv r" "a < length (states r)"
    and "before_done pc = before_done (pc_of r a)" "before_dereg pc = before_dereg (pc_of r a)"
    and "in_loop pc \<longrightarrow> in_loop (pc_of r a)" "pc \<noteq> ReadDone" "pc_of r a \<noteq> ReadDone"
  shows "router_inv (set_pc a pc r)"
proof -
  note I = router_invD [OF assms(1)]
  have "live_readers ((readers r)[a := (readers r ! a)\<lparr>rd_pc := pc\<rparr>]) = live_readers (readers r)"
    using assms(2,6,7) I(1) by (intro live_readers_same) auto
  with assms(2-) I show ?thesis
    by (intro router_invI) (auto simp: set_pc_def cell_ok_def entry_ok_def nth_list_update)
qed

lemma inv_chans:
  assumes "router_inv r"
  shows "router_inv (r\<lparr>chans := (chans r)[s := c]\<rparr>)"
  using assms by (auto simp: router_inv_def cell_ok_def entry_ok_def)

lemma inv_errs:
  assumes "router_inv r" "chan_ok c" "\<not> ch_closed c"
  shows "router_inv (r\<lparr>errs := c\<rparr>)"
  using assms by (auto simp: router_inv_def cell_ok_def entry_ok_def)

lemma inv_calls: "router_inv r \<Longrightarrow> router_inv (r\<lparr>calls := cs\<rparr>)"
  by (auto simp: router_inv_def cell_ok_def entry_ok_def)

lemma inv_close_done:
  assumes "router_inv r" "a < length (states r)" "pc_of r a = ReadExit t"
  shows "router_inv (set_pc a (ReadDereg t) (r\<lparr>states := (states r)[a := (states r ! a)\<lparr>ds_done := True\<rparr>]\<rparr>))"
proof -
  note I = router_invD [OF assms(1)]
  have "live_readers ((readers r)[a := (readers r ! a)\<lparr>rd_pc := ReadDereg t\<rparr>]) = live_readers (readers r)"
    using assms(2,3) I(1) by (intro live_readers_same) auto
  with assms(2-) I show ?thesis
    by (intro router_invI) (auto simp: set_pc_def cell_ok_def entry_ok_def nth_list_update)
qed

lemma inv_dereg:
  assumes "router_inv r" "a < length (states r)" "pc_of r a = ReadDereg t"
    and "r1 = (if map_of (dests r) (dest_of r a) = Some a
               then r\<lparr>dests := AList.delete (dest_of r a) (dests r)\<rparr> else r)"
  shows "router_inv (set_pc a (ReadReport t u) r1)"
proof -
  note I = router_invD [OF assms(1)]
  let ?d = "dest_of r a"
  have live: "live_readers ((readers r)[a := (readers r ! a)\<lparr>rd_pc := ReadReport t u\<rparr>]) = live_readers (readers r)"
    using assms(2,3) I(1) by (intro live_readers_same) auto
  have gone: "(d, a) \<notin> set (dests r1)" for d
    using assms(4) I(3) I(5) [of d a] by (auto simp: registered_iff entry_ok_def split: if_splits)
  have keep: "(d, b) \<in> set (dests r1) \<longleftrightarrow> (d, b) \<in> set (dests r)" if "b \<noteq> a" for d b
  proof (cases "(?d, a) \<in> set (dests r)")
    case True
    with that I(3) have "(?d, b) \<notin> set (dests r)" by (meson eq_key_imp_eq_value)
    with True I(3) assms(4) show ?thesis by (auto simp: registered_iff)
  next
    case False
    with I(3) assms(4) show ?thesis by (simp add: registered_iff)
  qed
  have r1: "readers r1 = readers r" "states r1 = states r" "chans r1 = chans r" "wg r1 = wg r"
    "errs r1 = errs r" "pending r1 = pending r" "called r1 = called r" "distinct (map fst (dests r1))"
    using assms(4) I(3) by (simp_all add: distinct_delete)
  show ?thesis
  proof (rule router_invI, goal_cases)
    case (4 b)
    with I(4) [of b] assms(2,3) r1 keep show ?case
      by (cases "b = a") (auto simp: set_pc_def cell_ok_def I(1))
  next
    case (5 d b)
    then have "(d, b) \<in> set (dests r1)" by (simp add: set_pc_def)
    moreover from this gone have "b \<noteq> a" by blast
    ultimately show ?case
      using I(5) keep r1 by (auto simp: set_pc_def entry_ok_def)
  qed (use r1 I live in \<open>simp_all add: set_pc_def\<close>)
qed

lemma inv_fin:
  assumes "router_inv r" "a < length (states r)" "pc_of r a = ReadFin"
  shows "router_inv (set_pc a ReadDone (r\<lparr>wg := wg r - 1\<rparr>))"
proof -
  note I = router_invD [OF assms(1)]
  have "live_readers ((readers r)[a := (readers r ! a)\<lparr>rd_pc := ReadDone\<rparr>]) + 1 = live_readers (readers r)"
    using live_readers_update [of a "readers r" "(readers r ! a)\<lparr>rd_pc := ReadDone\<rparr>"] assms(2,3) I(1) by simp
  moreover have "(d, a) \<notin> set (dests r)" for d
    using I(5) [of d a] assms(3) by (auto simp: entry_ok_def)
  ultimately show ?thesis using assms(2-) I
    by (intro router_invI) (auto simp: set_pc_def cell_ok_def entry_ok_def nth_list_update)
qed

lemma inv_readLoop:
  assumes "router_inv r" "readLoop_step hs a r = Some r'"
  shows "router_inv r'"
proof -
  note I = router_invD [OF assms(1)]
  from assms(2) have a: "a < length (states r)"
    using I(1) by (auto simp: readLoop_step_def split: if_splits)
  note step = assms(2) [unfolded readLoop_step_def Let_def]
  show ?thesis
  proof (cases "pc_of r a")
    case ReadRecv
    with step a I(1) assms(1) show ?thesis
      by (auto split: recv_result.splits option.splits intro!: inv_set_pc inv_chans)
  next
    case (ReadSnap m)
    with step a I(1) assms(1) show ?thesis
      by (auto split: if_splits intro!: inv_set_pc)
  next
    case (ReadCall hl m)
    with step a I(1) assms(1) show ?thesis
      by (auto split: list.splits intro!: inv_set_pc inv_calls)
  next
    case (ReadExit t)
    with step a I(1) assms(1) show ?thesis by (auto intro!: inv_close_done)
  next
    case (ReadDereg t)
    with step a I(1) have "r' = set_pc a (ReadReport t (map_of (dests r) (dest_of r a) = Some a))
      (if map_of (dests r) (dest_of r a) = Some a
       then r\<lparr>dests := AList.delete (dest_of r a) (dests r)\<rparr> else r)" by simp
    with inv_dereg [OF assms(1) a ReadDereg refl] show ?thesis by simp
  next
    case (ReadReport t u)
    with step a I(1) assms(1) show ?thesis
      by (auto split: option.splits if_splits intro!: inv_set_pc)
  next
    case (PubSend e i)
    with step a I assms(1) show ?thesis
      by (auto split: if_splits send_result.splits simp: chan_simps chan_ok_def
        intro!: inv_set_pc inv_errs)
  next
    case (PubDrain e i)
    with step a I assms(1) show ?thesis
      by (auto split: recv_result.splits simp: chan_simps chan_ok_def intro!: inv_set_pc inv_errs)
  next
    case ReadFin
    with step a I(1) inv_fin [OF assms(1) a ReadFin] show ?thesis by simp
  next
    case ReadDone
    with step a I(1) show ?thesis by simp
  qed
qed

lemma inv_router_step:
  assumes "router_inv r" "router_step act r = Some r'"
  shows "router_inv r'"
proof (cases act)
  case (DoSubscribe d h res n)
  with assms inv_Subscribe show ?thesis by auto
next
  case (DoUnsubscribe d tok)
  with assms inv_Unsubscribe show ?thesis by (auto split: prod.splits)
next
  case DoClose
  with assms obtain subs r1 where c: "Close_locked r = (subs, r1)"
    "r' = r1\<lparr>pending := pending r1 @ subs, closing := closing r1 @ subs\<rparr>" by (auto split: prod.splits)
  from inv_Close [OF assms(1) c(1)] inv_closing [of "closing r1 @ subs" "r1\<lparr>pending := pending r1 @ subs\<rparr>"] c(2)
  show ?thesis by simp
next
  case (DoCallUnsubscribe s)
  with assms(2) have r': "r' = r\<lparr>pending := remove1 s (pending r), called := s # called r\<rparr>"
    by (simp split: if_splits)
  with router_invD [OF assms(1)] show ?thesis
    by (intro router_invI; auto simp: cell_ok_def entry_ok_def; blast)
next
  case (DoReader hs a)
  with assms inv_readLoop show ?thesis by auto
next
  case (DoDeliver s m)
  with assms inv_chans show ?thesis by (auto split: if_splits send_result.splits)
next
  case (DoPeerClose s)
  with assms inv_chans show ?thesis by (auto split: if_splits)
next
  case DoConsume
  with assms router_invD(7,8) [OF assms(1)] show ?thesis
    by (auto split: recv_result.splits simp: chan_simps chan_ok_def intro!: inv_errs)
qed (use assms in \<open>auto split: if_splits\<close>)

lemma inv_New: "chan_ok c \<Longrightarrow> \<not> ch_closed c \<Longrightarrow> router_inv (NewWithErrorChan (Some c))"
  by (simp add: router_inv_def NewWithErrorChan_def live_readers_def)

lemma New_router_eq: "New_router = NewWithErrorChan (Some (make_chan ErrorChanBuffer))"
  by (simp add: New_router_def NewWithErrorChan_def)

interpretation rt: machine router_step New_router router_inv
proof unfold_locales
  show "router_inv New_router" unfolding New_router_eq by (rule inv_New) auto
qed (rule inv_router_step)

end
