(* ===== verification/RouterProps.thy ===== *)
theory RouterProps
  imports Router
begin

text \<open>
  What the router promises: the health contract of its registry, the abstract registry its
  operations implement, exact dispatch, unique tokens, the end of every reader, and the delivery
  of terminal errors. Two runs show where the code departs from its own comments.
\<close>

section \<open>The abstract registry\<close>

text \<open>
  What a client sees of the router: for each destination the handlers its messages go to, by
  token. A destination is registered exactly when it has a handler.
\<close>

definition handlers_of :: "'h router \<Rightarrow> string \<Rightarrow> token \<rightharpoonup> 'h" where
  "handlers_of r d =
     (case map_of (dests r) d of
        None \<Rightarrow> Map.empty
      | Some a \<Rightarrow> map_of (ds_handlers (states r ! a)))"

text \<open>The abstract operations: what Subscribe and Unsubscribe do to that map.\<close>

definition spec_subscribe ::
  "bool \<Rightarrow> string \<Rightarrow> token \<Rightarrow> 'h \<Rightarrow> (string \<Rightarrow> token \<rightharpoonup> 'h) \<Rightarrow> (string \<Rightarrow> token \<rightharpoonup> 'h)" where
  "spec_subscribe live d t h H = H(d := (if live then H d else Map.empty)(t \<mapsto> h))"

definition spec_unsubscribe ::
  "string \<Rightarrow> token \<Rightarrow> (string \<Rightarrow> token \<rightharpoonup> 'h) \<Rightarrow> (string \<Rightarrow> token \<rightharpoonup> 'h)" where
  "spec_unsubscribe d t H = H(d := (H d)(t := None))"

lemma handlers_of_empty_iff:
  "router_inv r \<Longrightarrow> handlers_of r d = Map.empty \<longleftrightarrow> map_of (dests r) d = None"
  by (auto simp: handlers_of_def router_inv_def entry_ok_def split: option.splits dest!: map_of_SomeD)

lemma registered_entry:
  assumes "router_inv r" "map_of (dests r) d = Some a"
  shows "a < length (states r)" "dest_of r a = d" "ds_handlers (states r ! a) \<noteq> []"
    "before_dereg (pc_of r a)"
  using assms by (auto simp: router_inv_def entry_ok_def dest!: map_of_SomeD)

lemma registered_inj:
  assumes "router_inv r" "map_of (dests r) d = Some a" "map_of (dests r) d' = Some a"
  shows "d = d'"
  using registered_entry(2) [OF assms(1,2)] registered_entry(2) [OF assms(1,3)] by simp

lemma other_state:
  assumes "router_inv r" "map_of (dests r) d = Some a" "map_of (dests r) d' = Some b" "d' \<noteq> d"
  shows "(states r)[a := st] ! b = states r ! b"
  using registered_inj [OF assms(1,2)] assms(3,4) by (intro nth_list_update_neq) blast

lemma handlers_of_Unsubscribe:
  assumes "router_inv r"
  shows "handlers_of (snd (Unsubscribe_locked d tok r)) =
    (handlers_of r)(d := (handlers_of r d)(tok := None))"
proof (cases "map_of (dests r) d")
  case None
  then show ?thesis by (auto simp: Unsubscribe_locked_def handlers_of_def)
next
  case (Some a)
  note E = registered_entry [OF assms Some]
  note other = other_state [OF assms Some]
  let ?hs = "AList.delete tok (ds_handlers (states r ! a))"
  show ?thesis
  proof (rule ext)
    fix d'
    show "handlers_of (snd (Unsubscribe_locked d tok r)) d' =
      ((handlers_of r)(d := (handlers_of r d)(tok := None))) d'"
    proof (cases "d' = d")
      case True
      have "map_of ?hs = (map_of (ds_handlers (states r ! a)))(tok := None)"
        by (rule delete_conv')
      moreover from this have "?hs = [] \<Longrightarrow> (map_of (ds_handlers (states r ! a)))(tok := None) = Map.empty"
        by simp
      ultimately show ?thesis
        using True Some E(1)
        by (auto simp: Unsubscribe_locked_def Let_def handlers_of_def delete_conv' split: if_splits)
    next
      case False
      with Some other show ?thesis
        by (auto simp: Unsubscribe_locked_def Let_def handlers_of_def delete_conv' split: option.splits)
    qed
  qed
qed

lemma handlers_of_Subscribe:
  assumes "router_inv r" "router_Subscribe d h res n r = (Inr tok, r')"
  shows "handlers_of r' =
    (handlers_of r)(d := (if live_state r d = None then Map.empty else handlers_of r d)(tok \<mapsto> h))"
proof (cases "live_state r d")
  case (Some a)
  then have reg: "map_of (dests r) d = Some a" by (simp add: live_state_Some)
  note E = registered_entry [OF assms(1) reg]
  note other = other_state [OF assms(1) reg]
  show ?thesis
    using assms(2) Some reg E(1) other
    by (auto simp: router_Subscribe_def Let_def handlers_of_def update_conv' fun_eq_iff
      split: option.splits)
next
  case None
  have "\<And>d' b. map_of (dests r) d' = Some b \<Longrightarrow> b < length (states r)"
    using registered_entry(1) [OF assms(1)] .
  with assms(2) None show ?thesis
    by (auto simp: router_Subscribe_def Let_def handlers_of_def update_conv' fun_eq_iff nth_append
      split: option.splits)
qed

section \<open>Steps of a reader\<close>

lemma set_pc_sel [simp]:
  "dests (set_pc a pc r) = dests r" "states (set_pc a pc r) = states r"
  "chans (set_pc a pc r) = chans r" "nextToken (set_pc a pc r) = nextToken r"
  "errs (set_pc a pc r) = errs r" "wg (set_pc a pc r) = wg r" "pending (set_pc a pc r) = pending r"
  "called (set_pc a pc r) = called r" "closing (set_pc a pc r) = closing r" "calls (set_pc a pc r) = calls r"
  "length (readers (set_pc a pc r)) = length (readers r)"
  by (simp_all add: set_pc_def)

lemma set_pc_reader [simp]:
  "a < length (readers r) \<Longrightarrow> readers (set_pc a pc r) ! a = (readers r ! a)\<lparr>rd_pc := pc\<rparr>"
  "b \<noteq> a \<Longrightarrow> readers (set_pc a pc r) ! b = readers r ! b"
  by (simp_all add: set_pc_def)

text \<open>
  How far a reader is from its end, once its channel is closed: the messages left, the part of the
  loop it is in, and the calls or attempts left there.
\<close>

fun pc_stage :: "'h rpc \<Rightarrow> nat" where
  "pc_stage (ReadSnap m) = 3"
| "pc_stage (ReadCall hl m) = 2"
| "pc_stage ReadRecv = 1"
| "pc_stage _ = 0"

fun pc_left :: "'h rpc \<Rightarrow> nat" where
  "pc_left (ReadCall hl m) = length hl"
| "pc_left (ReadExit t) = 60"
| "pc_left (ReadDereg t) = 59"
| "pc_left (ReadReport t u) = 58"
| "pc_left (PubSend e i) = 2 + 2 * (18 - i)"
| "pc_left (PubDrain e i) = 1 + 2 * (18 - i)"
| "pc_left ReadFin = 1"
| "pc_left _ = 0"

definition reader_rel :: "nat \<Rightarrow> ('h router \<times> 'h router) set" where
  "reader_rel a =
     measures [\<lambda>r. length (ch_buf (chans r ! a)), \<lambda>r. pc_stage (pc_of r a), \<lambda>r. pc_left (pc_of r a)]"

text \<open>Bounds on the attempt counter of \<open>publishErr\<close>, which the measure needs.\<close>

fun pub_ok :: "'h rpc \<Rightarrow> bool" where
  "pub_ok (PubSend e i) = (i \<le> 17)"
| "pub_ok (PubDrain e i) = (i \<le> 16)"
| "pub_ok _ = True"

lemma reader_progress:
  assumes "router_inv r" "a < length (readers r)" "in_loop (pc_of r a) \<longrightarrow> ch_closed (chans r ! a)"
    "pc_of r a \<noteq> ReadDone" "pub_ok (pc_of r a)"
  shows "\<exists>hs r'. readLoop_step hs a r = Some r' \<and> (r', r) \<in> reader_rel a
    \<and> (in_loop (pc_of r' a) \<longrightarrow> ch_closed (chans r' ! a)) \<and> a < length (readers r') \<and> pub_ok (pc_of r' a)"
proof -
  note I = router_invD [OF assms(1)]
  from assms(2) I(1) I(4) [of a] have sub: "ds_sub (states r ! a) = a" "a < length (chans r)"
    by (auto simp: cell_ok_def I(2))
  have ec: "\<not> ch_closed (errs r)" by (rule I(8))
  have order: "\<exists>hs. mset hs = image_mset snd (mset (ds_handlers (states r ! a)))"
    by (rule exI [of _ "map snd (ds_handlers (states r ! a))"]) simp
  show ?thesis
    using assms(2-5) sub ec order
    by (cases "pc_of r a")
      (auto simp: readLoop_step_def Let_def reader_rel_def try_recv_def try_send_def ErrorChanBuffer_def
        split: list.splits option.splits)
qed

lemma pub_ok_step:
  assumes "\<forall>b < length (readers r). pub_ok (pc_of r b)" "router_step act r = Some r'"
  shows "\<forall>b < length (readers r'). pub_ok (pc_of r' b)"
proof (cases act)
  case (DoReader hs a)
  with assms(2) have a: "a < length (readers r)" by (auto simp: readLoop_step_def split: if_splits)
  with assms(1) have "pub_ok (pc_of r a)" by blast
  with a DoReader assms(2) have "pub_ok (pc_of r' a)"
    by (cases "pc_of r a")
      (auto simp: readLoop_step_def Let_def ErrorChanBuffer_def
        split: if_splits option.splits list.splits recv_result.splits send_result.splits)
  moreover have "length (readers r') = length (readers r) \<and> (\<forall>b. b \<noteq> a \<longrightarrow> pc_of r' b = pc_of r b)"
    using DoReader assms(2) a
    by (auto simp: readLoop_step_def Let_def
      split: if_splits rpc.splits option.splits list.splits recv_result.splits send_result.splits)
  ultimately show ?thesis using assms(1) by metis
qed (use assms in \<open>auto simp: router_Subscribe_def Unsubscribe_locked_def Close_locked_def Let_def
    nth_append less_Suc_eq
    split: option.splits if_splits send_result.splits recv_result.splits prod.splits\<close>)

definition router_inv2 :: "'h router \<Rightarrow> bool" where
  "router_inv2 r \<longleftrightarrow> router_inv r \<and> (\<forall>b < length (readers r). pub_ok (pc_of r b))"

interpretation rt2: machine router_step New_router router_inv2
proof unfold_locales
  show "router_inv2 New_router"
    using rt.inv_start by (simp add: router_inv2_def New_router_def NewWithErrorChan_def)
qed (auto simp: router_inv2_def intro: inv_router_step dest: pub_ok_step)

lemma reader_finishes:
  assumes "router_inv2 r" "a < length (readers r)" "in_loop (pc_of r a) \<longrightarrow> ch_closed (chans r ! a)"
  shows "\<exists>hss r'. run_actions router_step (map (\<lambda>hs. DoReader hs a) hss) r = Some r'
    \<and> pc_of r' a = ReadDone"
proof -
  have "wf (reader_rel a)" by (simp add: reader_rel_def)
  then show ?thesis
    using assms
  proof (induction r rule: wf_induct_rule)
    case (less r)
    show ?case
    proof (cases "pc_of r a = ReadDone")
      case True
      then show ?thesis by (intro exI [of _ "[]"]) simp
    next
      case False
      from less.prems False obtain hs r1 where step: "readLoop_step hs a r = Some r1"
        and rel: "(r1, r) \<in> reader_rel a" "in_loop (pc_of r1 a) \<longrightarrow> ch_closed (chans r1 ! a)" "a < length (readers r1)"
        using reader_progress [of r a] by (auto simp: router_inv2_def)
      from step less.prems(1) have "router_inv2 r1"
        using rt2.inv_step [of r "DoReader hs a" r1] by simp
      with less.IH [OF rel(1)] rel obtain hss r' where
        "run_actions router_step (map (\<lambda>hs. DoReader hs a) hss) r1 = Some r'" "pc_of r' a = ReadDone"
        by blast
      with step show ?thesis by (intro exI [of _ "hs # hss"] exI [of _ r']) simp
    qed
  qed
qed

section \<open>Tokens\<close>

text \<open>
  The counter is a 64-bit word. As long as it has not wrapped, it counts the calls of Subscribe, and
  every token in use is one of those counted.
\<close>

fun is_subscribe :: "'h action \<Rightarrow> bool" where
  "is_subscribe (DoSubscribe d h res n) = True"
| "is_subscribe _ = False"

definition tokens_upto :: "nat \<Rightarrow> 'h router \<Rightarrow> bool" where
  "tokens_upto k r \<longleftrightarrow>
     nextToken r = of_nat k \<and> (\<forall>st \<in> set (states r). \<forall>p \<in> set (ds_handlers st). unat (fst p) \<le> k)"

lemma set_alist_update_subset: "set (AList.update k v xs) \<subseteq> insert (k, v) (set xs)"
  by (induction xs) auto

lemma tokens_states:
  assumes "tokens_upto k r" "nextToken r' = nextToken r"
    and "\<And>st. st \<in> set (states r') \<Longrightarrow> \<exists>st' \<in> set (states r). set (ds_handlers st) \<subseteq> set (ds_handlers st')"
  shows "tokens_upto k r'"
  using assms by (fastforce simp: tokens_upto_def)

lemma tokens_Subscribe:
  assumes "router_inv r" "tokens_upto k r" "Suc k < 2 ^ 64"
  shows "tokens_upto (Suc k) (snd (router_Subscribe d h res n r))"
proof -
  have new: "unat (nextToken r + 1) = Suc k"
  proof -
    have "nextToken r + 1 = of_nat (Suc k)" using assms(2) by (simp add: tokens_upto_def)
    then have "unat (nextToken r + 1) = unat (of_nat (Suc k) :: token)" by (simp only:)
    also have "\<dots> = Suc k" using assms(3) by (simp add: unat_of_nat del: of_nat_Suc)
    finally show ?thesis .
  qed
  have T: "\<And>st p. st \<in> set (states r) \<Longrightarrow> p \<in> set (ds_handlers st) \<Longrightarrow> unat (fst p) \<le> Suc k"
    using assms(2) by (auto simp: tokens_upto_def intro: le_SucI)
  show ?thesis
  proof (cases "live_state r d")
    case (Some a)
    then have "a < length (states r)"
      using registered_entry(1) [OF assms(1)] by (auto simp: live_state_Some)
    then have "unat (fst p) \<le> Suc k"
      if "p \<in> set (AList.update (nextToken r + 1) h (ds_handlers (states r ! a)))" for p
    proof -
      from that have "p = (nextToken r + 1, h) \<or> p \<in> set (ds_handlers (states r ! a))"
        using set_alist_update_subset by fastforce
      then show ?thesis using T [of "states r ! a" p] new \<open>a < length (states r)\<close> by auto
    qed
    with Some T assms(2) show ?thesis
      by (auto simp: router_Subscribe_def Let_def tokens_upto_def dest!: set_update_subset_insert [THEN subsetD])
  next
    case None
    with T new assms(2) show ?thesis
      by (cases res) (auto simp: router_Subscribe_def Let_def tokens_upto_def)
  qed
qed

text \<open>No other step adds a handler.\<close>

lemma states_step:
  assumes "router_inv r" "router_step act r = Some r'" "\<not> is_subscribe act"
  shows "states r' = states r \<or> (\<exists>a < length (states r). \<exists>st. states r' = (states r)[a := st]
    \<and> set (ds_handlers st) \<subseteq> set (ds_handlers (states r ! a)))"
proof (cases act)
  case (DoUnsubscribe d tok)
  show ?thesis
  proof (cases "map_of (dests r) d")
    case None
    with DoUnsubscribe assms(2) show ?thesis by (auto simp: Unsubscribe_locked_def)
  next
    case (Some a)
    then have "a < length (states r)" by (rule registered_entry(1) [OF assms(1)])
    moreover from Some have "states r' = (states r)[a := (states r ! a)
      \<lparr>ds_handlers := AList.delete tok (ds_handlers (states r ! a))\<rparr>]"
      using DoUnsubscribe assms(2) by (auto simp: Unsubscribe_locked_def Let_def split: if_splits)
    ultimately show ?thesis by fastforce
  qed
next
  case (DoReader hs a)
  have "states r' = states r \<or> a < length (states r) \<and> states r' = (states r)[a := (states r ! a)\<lparr>ds_done := True\<rparr>]"
    using DoReader assms(2) router_invD(1) [OF assms(1)]
    by (auto simp: readLoop_step_def Let_def
      split: if_splits rpc.splits option.splits list.splits recv_result.splits send_result.splits)
  then show ?thesis by fastforce
qed (use assms in \<open>auto simp: Close_locked_def split: if_splits send_result.splits recv_result.splits\<close>)

lemma handlers_step:
  assumes "router_inv r" "router_step act r = Some r'" "\<not> is_subscribe act" "st \<in> set (states r')"
  shows "\<exists>st' \<in> set (states r). set (ds_handlers st) \<subseteq> set (ds_handlers st')"
  using states_step [OF assms(1-3)]
proof
  assume "states r' = states r"
  with assms(4) show ?thesis by auto
next
  assume "\<exists>a < length (states r). \<exists>st. states r' = (states r)[a := st] \<and> set (ds_handlers st) \<subseteq> set (ds_handlers (states r ! a))"
  then obtain a st1 where a: "a < length (states r)" "states r' = (states r)[a := st1]"
    "set (ds_handlers st1) \<subseteq> set (ds_handlers (states r ! a))" by blast
  with assms(4) set_update_subset_insert [of "states r" a st1] have "st = st1 \<or> st \<in> set (states r)" by auto
  with a show ?thesis by (metis nth_mem order_refl)
qed

lemma nextToken_step:
  "router_step act r = Some r' \<Longrightarrow> \<not> is_subscribe act \<Longrightarrow> nextToken r' = nextToken r"
  by (cases act) (auto simp: Unsubscribe_locked_def Close_locked_def readLoop_step_def Let_def
    split: if_splits rpc.splits option.splits list.splits recv_result.splits send_result.splits)

lemma tokens_step:
  assumes "router_inv r" "tokens_upto k r" "router_step act r = Some r'" "Suc k < 2 ^ 64"
  shows "tokens_upto (if is_subscribe act then Suc k else k) r'"
proof (cases "is_subscribe act")
  case True
  with assms tokens_Subscribe show ?thesis by (cases act) auto
next
  case False
  have "tokens_upto k r'"
    by (rule tokens_states [OF assms(2) nextToken_step [OF assms(3) False] handlers_step [OF assms(1,3) False]])
  with False show ?thesis by simp
qed

lemma tokens_run:
  assumes "run_actions router_step acts New_router = Some r"
    and "length (filter is_subscribe acts) < 2 ^ 64 - 1"
  shows "tokens_upto (length (filter is_subscribe acts)) r"
  using assms
proof (induction acts arbitrary: r rule: rev_induct)
  case Nil
  then show ?case by (auto simp: tokens_upto_def New_router_def NewWithErrorChan_def)
next
  case (snoc act acts)
  then obtain r1 where r1: "run_actions router_step acts New_router = Some r1" "router_step act r1 = Some r"
    by (auto simp: run_actions_append split: Option.bind_splits)
  from snoc.prems(2) have n: "length (filter is_subscribe acts) < 2 ^ 64 - 1"
    by (simp split: if_splits)
  from tokens_step [OF rt.inv_run_start [OF r1(1)] snoc.IH [OF r1(1) n] r1(2)] n show ?case
    by (simp split: if_splits)
qed

section \<open>Runs used as witnesses\<close>

lemmas router_eval =
  New_router_def NewWithErrorChan_def router_Subscribe_def live_state_def dead_def
  Unsubscribe_locked_def Close_locked_def readLoop_step_def set_pc_def try_recv_def try_send_def
  close_chan_def make_chan_def ErrorChanBuffer_def Let_def

text \<open>One subscription: its reader waits on an empty channel.\<close>

definition one_sub :: "nat router" where
  "one_sub = snd (router_Subscribe ''/queue/a'' 7 None 2 New_router)"

lemma one_sub_eq:
  "one_sub =
    \<lparr>dests = [(''/queue/a'', 0)],
     states = [\<lparr>ds_sub = 0, ds_handlers = [(1, 7)], ds_done = False\<rparr>],
     readers = [\<lparr>rd_dest = ''/queue/a'', rd_pc = ReadRecv\<rparr>],
     chans = [\<lparr>ch_buf = [], ch_cap = 2, ch_closed = False\<rparr>],
     nextToken = 1, errs = \<lparr>ch_buf = [], ch_cap = 16, ch_closed = False\<rparr>,
     wg = 1, pending = [], called = [], closing = [], calls = []\<rparr>"
  by (simp add: one_sub_def router_eval)

lemma one_sub_reach: "reach router_step New_router one_sub"
  using run_reach [of router_step "[DoSubscribe ''/queue/a'' 7 None 2]" New_router one_sub]
  by (simp add: one_sub_def)

section \<open>Properties of the registry\<close>

text \<open>
  The health contract of the registry: in every reachable state a registered destination has a
  reader goroutine that works for it and has not deregistered, and at least one handler.
\<close>

lemma registry_live:
  assumes "reach router_step New_router r" "map_of (dests r) d = Some a"
  shows "a < length (readers r) \<and> dest_of r a = d \<and> before_dereg (pc_of r a)
    \<and> handlers_of r d \<noteq> Map.empty"
proof -
  have I: "router_inv r" by (rule rt.inv_reach [OF assms(1)])
  with assms(2) show ?thesis
    using registered_entry [OF I assms(2)] router_invD(1) [OF I] handlers_of_empty_iff [OF I] by simp
qed

text \<open>
  C2: A successful Subscribe always attaches the handler to a destination state whose reader has not
  closed \<open>done\<close>: a dead destination is never reattached to, it gets a fresh state and a reader that
  starts at the top of its loop.
\<close>

theorem subscribe_never_dead:
  assumes "reach router_step New_router r" "router_Subscribe d h res n r = (Inr tok, r')"
  shows "\<exists>a. map_of (dests r') d = Some a \<and> \<not> dead (states r' ! a) \<and> before_done (pc_of r' a)
    \<and> handlers_of r' d tok = Some h
    \<and> (live_state r d = None \<longrightarrow> a = length (states r) \<and> pc_of r' a = ReadRecv)"
proof -
  have I: "router_inv r" by (rule rt.inv_reach [OF assms(1)])
  have h: "handlers_of r' d tok = Some h" using handlers_of_Subscribe [OF I assms(2)] by simp
  show ?thesis
  proof (cases "live_state r d")
    case (Some a)
    then have a: "map_of (dests r) d = Some a" "\<not> ds_done (states r ! a)" by (simp_all add: live_state_Some)
    with registered_entry(1) [OF I a(1)] router_invD(4) [OF I, of a] have "before_done (pc_of r a)"
      by (simp add: cell_ok_def)
    with a Some assms(2) registered_entry(1) [OF I a(1)] h show ?thesis
      by (intro exI [of _ a]) (auto simp: router_Subscribe_def Let_def dead_def)
  next
    case None
    with assms(2) h router_invD(1) [OF I] show ?thesis
      by (intro exI [of _ "length (states r)"])
        (auto simp: router_Subscribe_def Let_def dead_def update_conv' nth_append split: option.splits)
  qed
qed

theorem subscribe_never_dead_witness:
  "\<exists>tok r' a. router_Subscribe ''/queue/b'' 8 None 2 one_sub = (Inr tok, r')
     \<and> map_of (dests r') ''/queue/b'' = Some a \<and> \<not> dead (states r' ! a)"
proof -
  obtain tok r' where s: "router_Subscribe ''/queue/b'' 8 None 2 one_sub = (Inr tok, r')"
    by (simp add: one_sub_eq router_eval)
  from subscribe_never_dead [OF one_sub_reach s] s show ?thesis by blast
qed

text \<open>
  C1: The operations implement the abstract registry of handlers by destination and token: Subscribe
  adds exactly its handler (to a fresh, empty entry when the old reader is dead), a failed Subscribe
  changes nothing, Unsubscribe removes exactly the handler of its token and leaves every other one,
  and Close removes all.
\<close>

theorem registry_refinement:
  assumes "reach router_step New_router r"
  shows "handlers_of (snd (Unsubscribe_locked d tok r)) = spec_unsubscribe d tok (handlers_of r)
    \<and> fst (router_Subscribe d h None n r) = Inr (nextToken r + 1)
    \<and> handlers_of (snd (router_Subscribe d h None n r)) =
      spec_subscribe (live_state r d \<noteq> None) d (nextToken r + 1) h (handlers_of r)
    \<and> handlers_of (snd (router_Subscribe d h (Some e) n r)) =
      (if live_state r d = None then handlers_of r
       else spec_subscribe True d (nextToken r + 1) h (handlers_of r))
    \<and> handlers_of (snd (Close_locked r)) = (\<lambda>_. Map.empty)"
proof -
  have I: "router_inv r" by (rule rt.inv_reach [OF assms(1)])
  have ok: "fst (router_Subscribe d h None n r) = Inr (nextToken r + 1)"
    by (auto simp: router_Subscribe_def Let_def split: option.splits)
  have same: "router_Subscribe d h (Some e) n r = router_Subscribe d h None n r" if "live_state r d \<noteq> None"
    using that by (auto simp: router_Subscribe_def Let_def)
  have "handlers_of (snd (router_Subscribe d h None n r)) =
    spec_subscribe (live_state r d \<noteq> None) d (nextToken r + 1) h (handlers_of r)"
    using handlers_of_Subscribe [OF I, of d h None n "nextToken r + 1"] ok
    by (simp add: spec_subscribe_def prod_eq_iff)
  moreover have "handlers_of (snd (router_Subscribe d h (Some e) n r)) = handlers_of r"
    if "live_state r d = None"
    using that by (auto simp: router_Subscribe_def Let_def handlers_of_def fun_eq_iff split: option.splits)
  moreover have "handlers_of (snd (Close_locked r)) = (\<lambda>_. Map.empty)"
    by (simp add: Close_locked_def handlers_of_def fun_eq_iff)
  ultimately show ?thesis
    using handlers_of_Unsubscribe [OF I, of d tok] ok same by (simp add: spec_unsubscribe_def)
qed

theorem registry_refinement_witness:
  "handlers_of one_sub ''/queue/a'' 1 = Some 7
   \<and> handlers_of (snd (Unsubscribe_locked ''/queue/a'' 1 one_sub)) ''/queue/a'' 1 = None
   \<and> handlers_of (snd (Unsubscribe_locked ''/queue/a'' 2 one_sub)) ''/queue/a'' 1 = Some 7"
  using registry_refinement [OF one_sub_reach, of "''/queue/a''" 1 0 0 ErrSubscriptionClosed]
    registry_refinement [OF one_sub_reach, of "''/queue/a''" 2 0 0 ErrSubscriptionClosed]
  by (simp add: one_sub_eq handlers_of_def spec_unsubscribe_def)

text \<open>
  Unsubscribe cancels the transport subscription exactly when it removed the last handler of a
  destination whose reader is still running; an unknown destination or token, a destination with
  other handlers and one whose reader has already stopped cancel nothing.
\<close>

lemma unsubscribe_teardown:
  assumes "reach router_step New_router r"
  shows "fst (Unsubscribe_locked d tok r) =
    (if handlers_of r d \<noteq> Map.empty \<and> (handlers_of r d)(tok := None) = Map.empty then live_state r d else None)"
proof (cases "map_of (dests r) d")
  case None
  then show ?thesis by (simp add: Unsubscribe_locked_def handlers_of_def)
next
  case (Some a)
  have I: "router_inv r" by (rule rt.inv_reach [OF assms])
  note E = registered_entry [OF I Some]
  have sub: "ds_sub (states r ! a) = a" using router_invD(4) [OF I E(1)] by (simp add: cell_ok_def)
  let ?hs = "ds_handlers (states r ! a)"
  have gone: "(map_of ?hs)(tok := None) = Map.empty \<longleftrightarrow> AList.delete tok ?hs = []"
    by (metis delete_conv' map_of_eq_empty_iff)
  have H: "handlers_of r d = map_of ?hs" using Some by (simp add: handlers_of_def)
  have "fst (Unsubscribe_locked d tok r) =
    (if AList.delete tok ?hs = [] \<and> \<not> ds_done (states r ! a) then Some a else None)"
    using Some sub by (simp add: Unsubscribe_locked_def Let_def dead_def)
  moreover have "live_state r d = (if ds_done (states r ! a) then None else Some a)"
    using Some by (simp add: live_state_def dead_def)
  moreover have "map_of ?hs \<noteq> Map.empty" using E(3) by simp
  ultimately show ?thesis unfolding H gone by presburger
qed

section \<open>Properties of the readers\<close>

text \<open>
  No reader outlives Close: when the wait of Close returns, every reader goroutine that was ever
  started has exited; and Close leaves no reader in its loop without its subscription's Unsubscribe
  being decided.
\<close>

lemma close_waits_for_readers:
  assumes "reach router_step New_router r"
  shows "(router_step DoCloseReturn r = Some r' \<longrightarrow> (\<forall>a < length (readers r). pc_of r a = ReadDone))
    \<and> (router_step DoClose r = Some r' \<longrightarrow>
        (\<forall>a < length (readers r'). in_loop (pc_of r' a) \<longrightarrow> a \<in> set (pending r') \<union> set (called r')))"
proof (intro conjI impI)
  have I: "router_inv r" by (rule rt.inv_reach [OF assms])
  assume "router_step DoCloseReturn r = Some r'"
  then have "live_readers (readers r) = 0" using router_invD(6) [OF I] by (auto split: if_splits)
  then show "\<forall>a < length (readers r). pc_of r a = ReadDone" by (simp add: live_readers_zero)
next
  assume c: "router_step DoClose r = Some r'"
  from reach_step [OF assms c] have I: "router_inv r'" by (rule rt.inv_reach)
  have "dests r' = []" using c by (auto simp: Close_locked_def)
  with router_invD(1,4) [OF I] show
    "\<forall>a < length (readers r'). in_loop (pc_of r' a) \<longrightarrow> a \<in> set (pending r') \<union> set (called r')"
    by (auto simp: cell_ok_def)
qed

text \<open>
  A reader always comes to its end: once its channel is closed, by our Unsubscribe or by the
  peer, its own steps lead it through the messages left, deregistration and the bounded
  publication of its error to its exit, and nothing it waits for can block it.
\<close>

lemma reader_terminates:
  assumes "reach router_step New_router r" "a < length (readers r)" "ch_closed (chans r ! a)"
  shows "\<exists>hss r'. run_actions router_step (map (\<lambda>hs. DoReader hs a) hss) r = Some r'
    \<and> pc_of r' a = ReadDone"
  using reader_finishes [OF rt2.inv_reach [OF assms(1)] assms(2)] assms(3) by blast

text \<open>The calls a reader makes for one message.\<close>

lemma run_calls:
  assumes "a < length (readers r)" "pc_of r a = ReadCall hl m"
  shows "\<exists>r'. run_actions router_step (replicate (Suc (length hl)) (DoReader [] a)) r = Some r'
    \<and> pc_of r' a = ReadRecv \<and> errs r' = errs r \<and> dests r' = dests r \<and> states r' = states r
    \<and> calls r' = calls r @ map (\<lambda>h. (h, [HeaderDestination \<mapsto> dest_of r a], Body m)) hl"
  using assms
proof (induction hl arbitrary: r)
  case Nil
  then show ?case by (auto simp: readLoop_step_def)
next
  case (Cons h hl)
  let ?r = "set_pc a (ReadCall hl m) (r\<lparr>calls := calls r @ [(h, readLoop_headers (dest_of r a), Body m)]\<rparr>)"
  from Cons.prems have step: "readLoop_step [] a r = Some ?r"
    by (simp add: readLoop_step_def)
  have hd: "readLoop_headers (dest_of r a) = [HeaderDestination \<mapsto> dest_of r a]"
    by (simp add: readLoop_headers_def)
  from Cons.IH [of ?r] Cons.prems(1) obtain r' where
    "run_actions router_step (replicate (Suc (length hl)) (DoReader [] a)) ?r = Some r'"
    "pc_of r' a = ReadRecv" "errs r' = errs r" "dests r' = dests r" "states r' = states r"
    "calls r' = calls r @ map (\<lambda>h. (h, [HeaderDestination \<mapsto> dest_of r a], Body m)) (h # hl)"
    by (auto simp: hd simp del: replicate_Suc fun_upd_apply)
  with step show ?case by (intro exI [of _ r']) (simp del: fun_upd_apply)
qed

text \<open>
  C3: Dispatch is exact: for a message the reader has received, it calls every handler registered on
  its own state when it took the snapshot, each once and in some order, with the body of the
  message and the destination of the subscription as the only header, and goes back to receiving.
\<close>

theorem dispatch_exact:
  assumes "a < length (readers r)" "pc_of r a = ReadSnap m"
    and "mset hs = mset (map snd (ds_handlers (states r ! a)))"
  shows "\<exists>r'. run_actions router_step (DoReader hs a # replicate (Suc (length hs)) (DoReader [] a)) r = Some r'
    \<and> pc_of r' a = ReadRecv \<and> errs r' = errs r \<and> dests r' = dests r \<and> states r' = states r
    \<and> calls r' = calls r @ map (\<lambda>h. (h, [HeaderDestination \<mapsto> dest_of r a], Body m)) hs"
proof -
  have step: "readLoop_step hs a r = Some (set_pc a (ReadCall hs m) r)"
    using assms by (simp add: readLoop_step_def)
  from run_calls [of a "set_pc a (ReadCall hs m) r" hs m] assms(1) step show ?thesis
    by (auto simp del: replicate_Suc)
qed

definition snap_ready :: "nat router" where
  "snap_ready = set_pc 0 (ReadSnap \<lparr>Body = ''x'', Destination = ''/queue/a'', Err = None\<rparr>) one_sub"

theorem dispatch_exact_witness:
  "\<exists>r'. run_actions router_step (DoReader [7] 0 # replicate 2 (DoReader [] 0)) snap_ready = Some r'
    \<and> calls r' = [(7, [HeaderDestination \<mapsto> ''/queue/a''], ''x'')]"
  using dispatch_exact [of 0 snap_ready "\<lparr>Body = ''x'', Destination = ''/queue/a'', Err = None\<rparr>" "[7]"]
  by (auto simp: snap_ready_def one_sub_eq set_pc_def numeral_2_eq_2)

text \<open>
  Tokens are unique within a router's lifetime: the token the next Subscribe returns is held by
  no handler of any destination state, registered or retired, as long as fewer than \<open>2^64 - 1\<close>
  Subscribe calls have been made.
\<close>

lemma token_unique:
  assumes "run_actions router_step acts New_router = Some r"
    and "length (filter is_subscribe acts) < 2 ^ 64 - 1"
    and "router_Subscribe d h res n r = (Inr tok, r')"
  shows "\<forall>st \<in> set (states r). tok \<notin> fst ` set (ds_handlers st)"
proof -
  let ?k = "length (filter is_subscribe acts)"
  have T: "tokens_upto ?k r" by (rule tokens_run [OF assms(1,2)])
  have "tok = of_nat (Suc ?k)"
    using assms(3) T by (auto simp: router_Subscribe_def Let_def tokens_upto_def split: option.splits)
  then have "unat tok = Suc ?k" using assms(2) by (simp add: unat_of_nat del: of_nat_Suc)
  with T show ?thesis by (fastforce simp: tokens_upto_def)
qed

section \<open>Delivery of terminal errors\<close>

lemma publish_loop_room:
  "\<not> ch_closed c \<Longrightarrow> length (ch_buf c) < ch_cap c \<Longrightarrow>
     publish_loop (Suc k) e c = Some (c\<lparr>ch_buf := ch_buf c @ [e]\<rparr>)"
  by (simp add: try_send_def)

text \<open>The channel after an undisturbed publication: the newest error last, at most the oldest lost.\<close>

definition published :: "goerr \<Rightarrow> goerr chan \<Rightarrow> goerr chan" where
  "published e c = c\<lparr>ch_buf := (if length (ch_buf c) < ch_cap c then ch_buf c else tl (ch_buf c)) @ [e]\<rparr>"

lemma publishErr_published:
  assumes "chan_ok c" "\<not> ch_closed c" "0 < ch_cap c"
  shows "publishErr e c = Some (published e c)"
proof (cases "length (ch_buf c) < ch_cap c")
  case True
  with assms show ?thesis
    unfolding publishErr_def Suc_eq_plus1 [symmetric] published_def
    by (simp add: publish_loop_room del: publish_loop.simps)
next
  case False
  with assms obtain v vs where c: "ch_buf c = v # vs" "length vs < ch_cap c"
    by (cases "ch_buf c") (auto simp: chan_ok_def)
  with assms False have "publish_loop 17 e c = publish_loop 16 e (c\<lparr>ch_buf := vs\<rparr>)"
    by (simp add: numeral_eq_Suc try_send_def try_recv_def del: publish_loop.simps(1))
  also have "\<dots> = Some (c\<lparr>ch_buf := vs @ [e]\<rparr>)"
    using c assms publish_loop_room [of "c\<lparr>ch_buf := vs\<rparr>" 15 e] by (simp add: numeral_eq_Suc)
  finally show ?thesis using False c by (simp add: publishErr_def ErrorChanBuffer_def published_def)
qed

text \<open>The reader's own steps through \<open>publishErr\<close>, with nobody interfering, do the same.\<close>

lemma reader_publishes:
  assumes "a < length (readers r)" "pc_of r a = PubSend e 0"
    and "chan_ok (errs r)" "\<not> ch_closed (errs r)" "0 < ch_cap (errs r)"
  shows "\<exists>n r'. run_actions router_step (replicate n (DoReader [] a)) r = Some r'
    \<and> pc_of r' a = ReadFin \<and> errs r' = published e (errs r) \<and> dests r' = dests r
    \<and> states r' = states r \<and> calls r' = calls r"
proof (cases "length (ch_buf (errs r)) < ch_cap (errs r)")
  case True
  with assms show ?thesis
    by (intro exI [of _ 1]) (auto simp: readLoop_step_def Let_def try_send_def published_def)
next
  case False
  with assms obtain v vs where c: "ch_buf (errs r) = v # vs" "length vs < ch_cap (errs r)"
    by (cases "ch_buf (errs r)") (auto simp: chan_ok_def)
  with False assms show ?thesis
    by (intro exI [of _ 3])
      (auto simp: numeral_3_eq_3 readLoop_step_def Let_def try_send_def try_recv_def published_def
        ErrorChanBuffer_def)
qed

lemma errs_cap_step: "router_step act r = Some r' \<Longrightarrow> ch_cap (errs r') = ch_cap (errs r)"
  by (cases act) (auto simp: router_Subscribe_def Unsubscribe_locked_def Close_locked_def Let_def
      readLoop_step_def chan_simps
      split: option.splits if_splits list.splits rpc.splits send_result.splits recv_result.splits prod.splits)

definition errs_ready :: "'h router \<Rightarrow> bool" where
  "errs_ready r \<longleftrightarrow> ch_cap (errs r) = ErrorChanBuffer"

interpretation rc: machine router_step New_router errs_ready
  by unfold_locales
    (auto simp: errs_ready_def New_router_def NewWithErrorChan_def dest: errs_cap_step)

lemma reach_errs:
  assumes "reach router_step New_router r"
  shows "chan_ok (errs r)" "\<not> ch_closed (errs r)" "0 < ch_cap (errs r)"
  using rt.inv_reach [OF assms] rc.inv_reach [OF assms]
  by (simp_all add: router_inv_def errs_ready_def ErrorChanBuffer_def)

text \<open>
  Publishing an error never fails, blocks or panics on an open channel: \<open>publishErr\<close> appends it,
  and when the buffer is full it discards the oldest error and nothing else; the steps of the
  reader goroutine, run alone, have the same effect.
\<close>

lemma publishErr_drop_oldest:
  assumes "reach router_step New_router r"
  shows "publishErr e (errs r) = Some ((errs r)\<lparr>ch_buf :=
      (if length (ch_buf (errs r)) < ErrorChanBuffer then ch_buf (errs r) else tl (ch_buf (errs r))) @ [e]\<rparr>)
    \<and> (a < length (readers r) \<and> pc_of r a = PubSend e 0 \<longrightarrow>
        (\<exists>n r'. run_actions router_step (replicate n (DoReader [] a)) r = Some r'
          \<and> pc_of r' a = ReadFin \<and> Some (errs r') = publishErr e (errs r)))"
proof (intro conjI impI)
  note R = reach_errs [OF assms]
  have cap: "ch_cap (errs r) = ErrorChanBuffer" using rc.inv_reach [OF assms] by (simp add: errs_ready_def)
  show "publishErr e (errs r) = Some ((errs r)\<lparr>ch_buf :=
      (if length (ch_buf (errs r)) < ErrorChanBuffer then ch_buf (errs r) else tl (ch_buf (errs r))) @ [e]\<rparr>)"
    using publishErr_published [OF R] by (simp add: published_def cap)
  assume "a < length (readers r) \<and> pc_of r a = PubSend e 0"
  with reader_publishes [of a r e, OF _ _ R] publishErr_published [OF R]
  show "\<exists>n r'. run_actions router_step (replicate n (DoReader [] a)) r = Some r'
          \<and> pc_of r' a = ReadFin \<and> Some (errs r') = publishErr e (errs r)"
    by fastforce
qed

text \<open>A destination state that has left the registry never comes back.\<close>

lemma unregistered_step:
  assumes "router_inv r" "a < length (states r)" "map_of (dests r) d \<noteq> Some a" "router_step act r = Some r'"
  shows "map_of (dests r') d \<noteq> Some a"
proof (cases act)
  case (DoReader hs b)
  with assms show ?thesis
    by (auto simp: readLoop_step_def Let_def delete_conv'
      split: option.splits if_splits list.splits rpc.splits send_result.splits recv_result.splits)
qed (use assms in \<open>auto simp: router_Subscribe_def Unsubscribe_locked_def Close_locked_def Let_def
      delete_conv' update_conv'
      split: option.splits if_splits send_result.splits recv_result.splits\<close>)

lemma reader_names_step:
  assumes "router_step act r = Some r'" "a < length (readers r)"
  shows "a < length (readers r') \<and> dest_of r' a = dest_of r a"
proof (cases act)
  case (DoReader hs b)
  with assms show ?thesis
    by (cases "b = a") (auto simp: readLoop_step_def Let_def
      split: option.splits if_splits list.splits rpc.splits send_result.splits recv_result.splits)
qed (use assms in \<open>auto simp: router_Subscribe_def Unsubscribe_locked_def Close_locked_def Let_def nth_append
      split: option.splits if_splits send_result.splits recv_result.splits\<close>)

text \<open>The error of a broker's error frame, as the reader of \<open>dest\<close> wraps it.\<close>

definition frame_err :: "string \<Rightarrow> goerr \<Rightarrow> bool" where
  "frame_err dest e \<longleftrightarrow> (\<exists>e0. e = Errorf ''router: subscription error on %q: %w'' [StrArg dest] [e0])"

fun quiet_pc :: "string \<Rightarrow> 'h rpc \<Rightarrow> bool" where
  "quiet_pc d (ReadExit t) = (case t of None \<Rightarrow> True | Some e \<Rightarrow> frame_err d e)"
| "quiet_pc d (ReadDereg t) = (case t of None \<Rightarrow> True | Some e \<Rightarrow> frame_err d e)"
| "quiet_pc d (ReadReport t u) = (case t of None \<Rightarrow> \<not> u | Some e \<Rightarrow> frame_err d e)"
| "quiet_pc d (PubSend e i) = frame_err d e"
| "quiet_pc d (PubDrain e i) = frame_err d e"
| "quiet_pc d _ = True"

definition quiet :: "string \<Rightarrow> nat \<Rightarrow> 'h router \<Rightarrow> bool" where
  "quiet d a r \<longleftrightarrow>
     a < length (readers r) \<and> dest_of r a = d \<and> map_of (dests r) d \<noteq> Some a \<and> quiet_pc d (pc_of r a)"

lemma quiet_step:
  assumes I: "router_inv r" and q: "quiet d a r" and s: "router_step act r = Some r'"
  shows "quiet d a r'"
proof -
  from q have a: "a < length (readers r)" "dest_of r a = d" "map_of (dests r) d \<noteq> Some a" "quiet_pc d (pc_of r a)"
    by (simp_all add: quiet_def)
  have "quiet_pc d (pc_of r' a)"
  proof (cases act)
    case (DoReader hs b)
    show ?thesis
    proof (cases "b = a")
      case True
      with DoReader s a show ?thesis
        by (cases "pc_of r a") (auto simp: readLoop_step_def Let_def frame_err_def
          split: option.splits if_splits list.splits send_result.splits recv_result.splits)
    next
      case False
      with DoReader s a show ?thesis
        by (auto simp: readLoop_step_def Let_def
          split: option.splits if_splits list.splits rpc.splits send_result.splits recv_result.splits)
    qed
  qed (use s a in \<open>auto simp: router_Subscribe_def Unsubscribe_locked_def Close_locked_def Let_def nth_append
      split: option.splits if_splits send_result.splits recv_result.splits\<close>)
  with reader_names_step [OF s a(1)] unregistered_step [OF I _ a(3) s] a(1,2) router_invD(1) [OF I]
  show ?thesis by (simp add: quiet_def)
qed

text \<open>
  C28: A teardown the router performed itself is not reported as a failure: once a destination state
  has left the registry while its reader was still in its loop, by Unsubscribe or Close, whatever
  its reader publishes from then on is a broker error frame it read, never a closed subscription.
\<close>

theorem own_teardown_quiet:
  assumes "reach router_step New_router r" "a < length (readers r)"
    and "in_loop (pc_of r a)" "map_of (dests r) (dest_of r a) \<noteq> Some a"
    and "run_actions router_step acts r = Some r'" "pc_of r' a = PubSend e i"
  shows "\<exists>e0. e = Errorf ''router: subscription error on %q: %w'' [StrArg (dest_of r a)] [e0]"
proof -
  from assms(2-4) have "quiet (dest_of r a) a r" by (cases "pc_of r a") (auto simp: quiet_def)
  then have "quiet (dest_of r a) a r'"
    using rt.stable_reach [where P = "quiet (dest_of r a) a", OF _ rt.inv_reach [OF assms(1)] _ assms(5)]
      quiet_step by blast
  with assms(6) show ?thesis by (simp add: quiet_def frame_err_def)
qed

text \<open>A message that carries the error of a broker's error frame.\<close>

definition err_msg :: Msg where
  "err_msg = \<lparr>Body = [], Destination = ''/queue/a'', Err = Some (Foreign ''broker'')\<rparr>"

text \<open>The reader of \<^term>\<open>one_sub\<close> reads the error frame after Unsubscribe has torn it down.\<close>

lemma late_error_run:
  "run_actions router_step [DoDeliver 0 err_msg, DoUnsubscribe ''/queue/a'' 1] one_sub = Some s \<Longrightarrow>
     in_loop (pc_of s 0) \<and> 0 < length (readers s) \<and> dest_of s 0 = ''/queue/a''
     \<and> map_of (dests s) ''/queue/a'' = None \<and> ch_buf (errs s) = []
     \<and> (\<exists>t. run_actions router_step (replicate 4 (DoReader [] 0)) s = Some t
         \<and> pc_of t 0 = PubSend (Errorf ''router: subscription error on %q: %w'' [StrArg (''/queue/a'')] [Foreign ''broker'']) 0)"
  by (auto simp: one_sub_eq err_msg_def router_eval numeral_eq_Suc)

lemma late_error_start:
  "\<exists>s. run_actions router_step [DoDeliver 0 err_msg, DoUnsubscribe ''/queue/a'' 1] one_sub = Some s"
  by (simp add: one_sub_eq err_msg_def router_eval)

theorem own_teardown_quiet_witness:
  "\<exists>s t e. run_actions router_step [DoDeliver 0 err_msg, DoUnsubscribe ''/queue/a'' 1] one_sub = Some s
     \<and> run_actions router_step (replicate 4 (DoReader [] 0)) s = Some t \<and> pc_of t 0 = PubSend e 0
     \<and> (\<exists>e0. e = Errorf ''router: subscription error on %q: %w'' [StrArg (''/queue/a'')] [e0])"
proof -
  from late_error_start obtain s where
    s: "run_actions router_step [DoDeliver 0 err_msg, DoUnsubscribe ''/queue/a'' 1] one_sub = Some s" ..
  from late_error_run [OF s] obtain t e where L: "in_loop (pc_of s 0)" "0 < length (readers s)"
    "dest_of s 0 = ''/queue/a''" "map_of (dests s) ''/queue/a'' = None"
    "run_actions router_step (replicate 4 (DoReader [] 0)) s = Some t" "pc_of t 0 = PubSend e 0"
    by blast
  from own_teardown_quiet [OF reach_run [OF one_sub_reach s] L(2,1) _ L(5,6)] L(3,4) s L(5,6)
  show ?thesis by auto
qed




text \<open>
  A teardown the router performed itself can still put an error on Errors(): an error frame
  that waited in the channel when Unsubscribe removed the last handler is published afterwards.
\<close>

lemma late_error_published:
  "\<exists>acts r e. acts = [DoSubscribe ''/queue/a'' (7::nat) None 2, DoDeliver 0 err_msg, DoUnsubscribe ''/queue/a'' 1,
        DoReader [] 0, DoReader [] 0, DoReader [] 0, DoReader [] 0, DoReader [] 0]
     \<and> run_actions router_step acts New_router = Some r
     \<and> ch_buf (errs r) = [e] \<and> errors_Is e (Foreign ''broker'')"
  by (simp add: router_eval err_msg_def)

end
