(* ===== verification/RouterClose.thy ===== *)
theory RouterClose
  imports RouterProps
begin

text \<open>
  The package internal/router, third part: Close can always return. From every state of the invariant
  there is a continuation made only of Unsubscribe calls, steps of the readers and closes by the transport
  of channels whose Unsubscribe was called, after which nothing is left to wait for.
\<close>

section \<open>What Close waits for\<close>

text \<open>
  While Close waits, these are the steps it needs: Unsubscribe calls, the transport closing the
  channel of a subscription whose Unsubscribe has been called before, the readers. \<open>C\<close> are the
  subscriptions whose Unsubscribe has been called already.
\<close>

fun told_close :: "nat set \<Rightarrow> 'h action list \<Rightarrow> bool" where
  "told_close C [] = True"
| "told_close C (DoCallUnsubscribe s # acts) = told_close (insert s C) acts"
| "told_close C (DoPeerClose s # acts) = (s \<in> C \<and> told_close C acts)"
| "told_close C (DoReader hs a # acts) = told_close C acts"
| "told_close C (act # acts) = False"

lemma told_close_mono: "told_close C acts \<Longrightarrow> C \<subseteq> D \<Longrightarrow> told_close D acts"
  by (induction C acts arbitrary: D rule: told_close.induct) (auto dest: insert_mono)

lemma told_close_append:
  "told_close C acts \<Longrightarrow> told_close (C \<union> {s. DoCallUnsubscribe s \<in> set acts}) acts' \<Longrightarrow> told_close C (acts @ acts')"
  by (induction C acts rule: told_close.induct) (auto simp: insert_commute Un_insert_left Collect_disj_eq)

lemma told_close_append_same: "told_close C acts \<Longrightarrow> told_close C acts' \<Longrightarrow> told_close C (acts @ acts')"
  by (rule told_close_append) (auto elim: told_close_mono)

lemma told_close_readers [simp]: "told_close C (map (\<lambda>hs. DoReader hs a) hss)"
  by (induction hss) simp_all

lemma told_close_calls [simp]: "told_close C (map DoCallUnsubscribe ss)"
  by (induction ss arbitrary: C) simp_all

lemma reader_run_frame:
  assumes "run_actions router_step (map (\<lambda>hs. DoReader hs a) hss) r = Some r'"
  shows "length (readers r') = length (readers r) \<and> (\<forall>b. b \<noteq> a \<longrightarrow> readers r' ! b = readers r ! b)
    \<and> called r' = called r \<and> closing r' = closing r \<and> pending r' = pending r
    \<and> (dests r = [] \<longrightarrow> dests r' = [])"
  using assms
proof (induction hss arbitrary: r)
  case (Cons hs hss)
  then obtain r1 where r1: "readLoop_step hs a r = Some r1"
    "run_actions router_step (map (\<lambda>hs. DoReader hs a) hss) r1 = Some r'"
    by (auto split: Option.bind_splits)
  have "length (readers r1) = length (readers r) \<and> (\<forall>b. b \<noteq> a \<longrightarrow> readers r1 ! b = readers r ! b)
    \<and> called r1 = called r \<and> closing r1 = closing r \<and> pending r1 = pending r \<and> (dests r = [] \<longrightarrow> dests r1 = [])"
    using r1(1) by (auto simp: readLoop_step_def Let_def
      split: if_splits rpc.splits option.splits list.splits recv_result.splits send_result.splits)
  with Cons.IH [OF r1(2)] show ?case by simp
qed simp

text \<open>After Close cleared the registry and every pending Unsubscribe was called.\<close>

definition drained :: "'h router \<Rightarrow> bool" where
  "drained r \<longleftrightarrow> router_inv2 r \<and> dests r = [] \<and> pending r = []"

lemma drained_in_loop: "drained r \<Longrightarrow> a < length (readers r) \<Longrightarrow> in_loop (pc_of r a) \<Longrightarrow> a \<in> set (called r)"
  by (auto simp: drained_def router_inv2_def router_inv_def cell_ok_def)

lemma one_reader_less:
  assumes "drained r" "a < length (readers r)" "pc_of r a \<noteq> ReadDone"
  shows "\<exists>acts r'. run_actions router_step acts r = Some r' \<and> wg r' < wg r \<and> drained r'
    \<and> told_close (set (called r)) acts \<and> called r' = called r \<and> closing r' = closing r"
proof -
  have I2: "router_inv2 r" and I: "router_inv r" using assms(1) by (simp_all add: drained_def router_inv2_def)
  have a: "a < length (chans r)" using router_invD(1,2) [OF I] assms(2) by simp
  define pre :: "'a action list" where
    "pre = (if in_loop (pc_of r a) \<and> \<not> ch_closed (chans r ! a) then [DoPeerClose a] else [])"
  define r1 where
    "r1 = (if in_loop (pc_of r a) \<and> \<not> ch_closed (chans r ! a) then r\<lparr>chans := (chans r)[a := close_chan (chans r ! a)]\<rparr> else r)"
  have pre: "run_actions router_step pre r = Some r1" "readers r1 = readers r" "called r1 = called r"
    "closing r1 = closing r" "pending r1 = pending r" "dests r1 = dests r"
    "in_loop (pc_of r1 a) \<longrightarrow> ch_closed (chans r1 ! a)" "told_close (set (called r)) pre"
    using a drained_in_loop [OF assms(1,2)] by (simp_all add: pre_def r1_def)
  have a1: "a < length (readers r1)" using pre(2) assms(2) by simp
  from reader_finishes [OF rt2.inv_run [OF I2 pre(1)] a1 pre(7)] obtain hss r' where
    r': "run_actions router_step (map (\<lambda>hs. DoReader hs a) hss) r1 = Some r'" "pc_of r' a = ReadDone" by blast
  note fr = reader_run_frame [OF r'(1), unfolded pre(2-6)]
  have "readers r' = (readers r)[a := readers r' ! a]"
  proof (rule nth_equalityI)
    fix i
    assume "i < length (readers r')"
    with fr assms(2) show "readers r' ! i = (readers r)[a := readers r' ! a] ! i" by (cases "i = a") simp_all
  qed (simp add: fr)
  then have less: "live_readers (readers r') < live_readers (readers r)"
    using live_readers_update [OF assms(2), of "readers r' ! a"] assms(3) r'(2) by simp
  let ?acts = "pre @ map (\<lambda>hs. DoReader hs a) hss"
  have run: "run_actions router_step ?acts r = Some r'" using pre(1) r'(1) by (simp add: run_actions_append)
  have I': "router_inv2 r'" by (rule rt2.inv_run [OF I2 run])
  then have "wg r' < wg r" using less router_invD(6) [OF I] router_invD(6) [of r'] by (simp add: router_inv2_def)
  moreover have "drained r'" using I' fr assms(1) by (simp add: drained_def)
  moreover have "told_close (set (called r)) ?acts" using pre(8) by (simp add: told_close_append_same)
  ultimately show ?thesis using run fr by blast
qed

lemma all_readers_finish:
  "drained r \<Longrightarrow> \<exists>acts r'. run_actions router_step acts r = Some r' \<and> wg r' = 0
     \<and> told_close (set (called r)) acts \<and> called r' = called r \<and> closing r' = closing r"
proof (induction "wg r" arbitrary: r rule: less_induct)
  case less
  show ?case
  proof (cases "wg r = 0")
    case True
    then show ?thesis by (intro exI [of _ "[]"]) simp
  next
    case False
    have I: "router_inv r" using less.prems by (simp add: drained_def router_inv2_def)
    with False have "live_readers (readers r) \<noteq> 0" using router_invD(6) [OF I] by simp
    then obtain a where a: "a < length (readers r)" "pc_of r a \<noteq> ReadDone"
      by (auto simp: live_readers_zero in_set_conv_nth)
    from one_reader_less [OF less.prems a] obtain acts r1 where
      r1: "run_actions router_step acts r = Some r1" "wg r1 < wg r" "drained r1"
      "told_close (set (called r)) acts" "called r1 = called r" "closing r1 = closing r" by blast
    from less.hyps [OF r1(2,3)] obtain acts' r' where
      r': "run_actions router_step acts' r1 = Some r'" "wg r' = 0" "told_close (set (called r)) acts'"
      "called r' = called r" "closing r' = closing r" unfolding r1(5,6) by blast
    have "told_close (set (called r)) (acts @ acts')"
      using r1(4) r'(3) by (rule told_close_append_same)
    with r1(1) r' show ?thesis by (intro exI [of _ "acts @ acts'"] exI [of _ r']) (simp add: run_actions_append)
  qed
qed

lemma pending_called:
  "\<exists>r'. run_actions router_step (map DoCallUnsubscribe (pending r)) r = Some r' \<and> pending r' = []
     \<and> set (called r') = set (called r) \<union> set (pending r) \<and> dests r' = dests r \<and> closing r' = closing r"
proof (induction "pending r" arbitrary: r)
  case Nil
  then show ?case by (metis run_actions.simps(1) list.simps(8) set_empty sup_bot_right)
next
  case (Cons s ss)
  let ?r = "r\<lparr>pending := ss, called := s # called r\<rparr>"
  have "router_step (DoCallUnsubscribe s) r = Some ?r" using Cons.hyps(2) [symmetric] by simp
  with Cons.hyps(1) [of ?r] Cons.hyps(2) [symmetric] show ?case by auto
qed

text \<open>Close returns: its Unsubscribe calls, then the readers, then nothing is left to wait for.\<close>

lemma close_returns:
  assumes "router_inv2 r" "closing r = []"
  shows "\<exists>sched r'. run_actions router_step (DoClose # sched @ [DoCloseReturn]) r = Some r'
    \<and> told_close (set (called r)) sched"
proof -
  obtain r1 where r1: "router_step DoClose r = Some r1" "dests r1 = []" "called r1 = called r"
    and c1: "set (closing r1) \<subseteq> set (pending r1)"
    using assms(2) by (cases "Close_locked r") (auto simp: Close_locked_def)
  note I1 = rt2.inv_step [OF assms(1) r1(1)]
  from pending_called [of r1] obtain r2 where r2: "run_actions router_step (map DoCallUnsubscribe (pending r1)) r1 = Some r2"
    "pending r2 = []" "set (called r2) = set (called r1) \<union> set (pending r1)" "dests r2 = dests r1" "closing r2 = closing r1"
    by blast
  have "drained r2" using rt2.inv_run [OF I1 r2(1)] r2(2,4) r1(2) by (simp add: drained_def)
  from all_readers_finish [OF this] obtain acts r3 where r3: "run_actions router_step acts r2 = Some r3" "wg r3 = 0"
    "told_close (set (called r2)) acts" "called r3 = called r2" "closing r3 = closing r2" by blast
  let ?sched = "map DoCallUnsubscribe (pending r1) @ acts"
  have "router_step DoCloseReturn r3 = Some r3"
    using r3(2,4,5) r2(3,5) c1 by (auto simp: list_all_iff)
  with r1(1) r2(1) r3(1) have "run_actions router_step (DoClose # ?sched @ [DoCloseReturn]) r = Some r3"
    by (simp add: run_actions_append)
  moreover have "told_close (set (called r)) ?sched"
  proof (rule told_close_append)
    show "told_close (set (called r)) (map DoCallUnsubscribe (pending r1))" by simp
    have "{s. DoCallUnsubscribe s \<in> set (map DoCallUnsubscribe (pending r1) :: 'a action list)} = set (pending r1)"
      by auto
    with r3(3) r2(3) r1(3) show "told_close (set (called r) \<union>
      {s. DoCallUnsubscribe s \<in> set (map DoCallUnsubscribe (pending r1) :: 'a action list)}) acts" by simp
  qed
  ultimately show ?thesis by blast
qed

end
