(* ===== verification/StompBridge.thy ===== *)
theory StompBridge
  imports Transport "HOL-Library.Sublist"
begin

text \<open>
  The subscription of the package internal/stomp: the goroutine \<open>bridge\<close> that forwards what go-stomp
  delivers to the channel the client reads, and keeps draining go-stomp's channel after that. Every
  choice of a \<open>select\<close> is an event of its own, and so is what others do meanwhile: go-stomp pushes
  a message or closes its channel, the context ends, Unsubscribe closes \<open>stop\<close>, the client takes a
  message. \<open>ss_recvd\<close> and \<open>ss_taken\<close> only record what the bridge has received and the client has
  taken.
\<close>

section \<open>State\<close>

definition subChanBuf :: nat where
  "subChanBuf = 16"

text \<open>A \<open>gostomp.Message\<close>, as far as the bridge reads it.\<close>

record gmsg =
  gm_Body :: bytes
  gm_Destination :: string
  gm_Err :: "goerr option"

datatype bridge_pc = BrLoop | BrSend gmsg | BrExit

record ssub =
  ss_dest :: string
  ss_ctx :: gocontext
  ss_src :: "gmsg chan"
  ss_ch :: "Msg chan"
  ss_stop :: bool
  ss_ctxdone :: bool
  ss_out :: bool
  ss_pc :: bridge_pc
  ss_spawned :: nat
  ss_once :: bool
  ss_err :: "goerr option"
  ss_recvd :: "gmsg list"
  ss_taken :: "Msg list"

text \<open>\<open>newSub\<close>: \<open>n\<close> is the depth of the channel of the go-stomp subscription.\<close>

definition newSub :: "gocontext \<Rightarrow> nat \<Rightarrow> string \<Rightarrow> ssub" where
  "newSub ctx n dest =
     \<lparr>ss_dest = dest, ss_ctx = ctx, ss_src = make_chan n, ss_ch = make_chan subChanBuf, ss_stop = False,
      ss_ctxdone = False, ss_out = True, ss_pc = BrLoop, ss_spawned = 0, ss_once = False, ss_err = None,
      ss_recvd = [], ss_taken = []\<rparr>"

definition endsConn :: "goerr option \<Rightarrow> bool" where
  "endsConn err = (case err of None \<Rightarrow> False | Some e \<Rightarrow> errors_As_gostomp e = Some True)"

section \<open>The bridge\<close>

definition endOut :: "ssub \<Rightarrow> ssub" where
  "endOut s = (if ss_out s then s\<lparr>ss_ch := close_chan (ss_ch s), ss_out := False\<rparr> else s)"

definition unsubscribeOnCtx :: "ssub \<Rightarrow> ssub" where
  "unsubscribeOnCtx s = endOut (s\<lparr>ss_spawned := ss_spawned s + 1\<rparr>)"

definition bridge_msg :: "gmsg \<Rightarrow> Msg" where
  "bridge_msg msg =
     (case gm_Err msg of
        Some e \<Rightarrow> \<lparr>Body = [], Destination = [], Err = Some e\<rparr>
      | None \<Rightarrow> \<lparr>Body = gm_Body msg, Destination = gm_Destination msg, Err = None\<rparr>)"

text \<open>
  The case a \<open>select\<close> takes. The channels \<open>done\<close> and \<open>stop\<close> are nil, never ready, once \<open>out\<close> is. The
  step also tells whether it reported the end of the connection to the gate.
\<close>

datatype bchoice = OnSrc | OnDone | OnStop | OnOut

fun bridge_step :: "bchoice \<Rightarrow> ssub \<Rightarrow> (ssub \<times> bool) option" where
  "bridge_step ch s =
     (case (ss_pc s, ch) of
        (BrLoop, OnSrc) \<Rightarrow>
          (case try_recv (ss_src s) of
             RecvBlock \<Rightarrow> None
           | RecvClosed \<Rightarrow> Some ((endOut s)\<lparr>ss_pc := BrExit\<rparr>, False)
           | Received msg c \<Rightarrow>
               (let s1 = s\<lparr>ss_src := c, ss_recvd := ss_recvd s @ [msg]\<rparr>;
                    mark = endsConn (gm_Err msg) in
                if \<not> ss_out s1 then Some (s1, mark) else Some (s1\<lparr>ss_pc := BrSend msg\<rparr>, mark)))
      | (BrLoop, OnDone) \<Rightarrow> if ss_ctxdone s \<and> ss_out s then Some (unsubscribeOnCtx s, False) else None
      | (BrLoop, OnStop) \<Rightarrow> if ss_stop s \<and> ss_out s then Some (endOut s, False) else None
      | (BrSend msg, OnOut) \<Rightarrow>
          (case try_send (bridge_msg msg) (ss_ch s) of
             Sent c \<Rightarrow>
               (let s1 = s\<lparr>ss_ch := c, ss_pc := BrLoop\<rparr> in
                Some (if gm_Err msg \<noteq> None then endOut s1 else s1, False))
           | _ \<Rightarrow> None)
      | (BrSend msg, OnDone) \<Rightarrow> if ss_ctxdone s then Some ((unsubscribeOnCtx s)\<lparr>ss_pc := BrLoop\<rparr>, False) else None
      | (BrSend msg, OnStop) \<Rightarrow> if ss_stop s then Some ((endOut s)\<lparr>ss_pc := BrLoop\<rparr>, False) else None
      | _ \<Rightarrow> None)"

declare bridge_step.simps [simp del]

section \<open>The subscription and what happens around it\<close>

datatype sub_event =
    SrcPush gmsg
  | SrcClose
  | CtxEnd
  | StopClose
  | Take
  | Bridge bchoice

fun sub_step :: "sub_event \<Rightarrow> ssub \<Rightarrow> (ssub \<times> bool) option" where
  "sub_step (SrcPush m) s =
     (case try_send m (ss_src s) of Sent c \<Rightarrow> Some (s\<lparr>ss_src := c\<rparr>, False) | _ \<Rightarrow> None)"
| "sub_step SrcClose s =
     (if ch_closed (ss_src s) then None else Some (s\<lparr>ss_src := close_chan (ss_src s)\<rparr>, False))"
| "sub_step CtxEnd s = (if ctx_cancellable (ss_ctx s) then Some (s\<lparr>ss_ctxdone := True\<rparr>, False) else None)"
| "sub_step StopClose s = (if ss_stop s then None else Some (s\<lparr>ss_stop := True\<rparr>, False))"
| "sub_step Take s =
     (case try_recv (ss_ch s) of
        Received m c \<Rightarrow> Some (s\<lparr>ss_ch := c, ss_taken := ss_taken s @ [m]\<rparr>, False)
      | _ \<Rightarrow> None)"
| "sub_step (Bridge ch) s = bridge_step ch s"

text \<open>The machine of one subscription, with the connection's flag \<open>ended\<close>.\<close>

definition bridge_machine :: "sub_event \<Rightarrow> ssub \<times> bool \<Rightarrow> (ssub \<times> bool) option" where
  "bridge_machine ev p =
     (case sub_step ev (fst p) of None \<Rightarrow> None | Some (s, mark) \<Rightarrow> Some (s, snd p \<or> mark))"

section \<open>The invariant\<close>

abbreviation delivered :: "ssub \<Rightarrow> Msg list" where
  "delivered s \<equiv> ss_taken s @ ch_buf (ss_ch s)"

definition bridge_inv :: "ssub \<Rightarrow> bool" where
  "bridge_inv s \<longleftrightarrow>
     ss_out s = (\<not> ch_closed (ss_ch s)) \<and> chan_ok (ss_ch s) \<and> chan_ok (ss_src s)
     \<and> (case ss_pc s of
          BrLoop \<Rightarrow> ss_out s \<longrightarrow> delivered s = map bridge_msg (ss_recvd s) \<and> (\<forall>m \<in> set (ss_recvd s). gm_Err m = None)
        | BrSend g \<Rightarrow> ss_out s \<and> (\<exists>rs. ss_recvd s = rs @ [g] \<and> delivered s = map bridge_msg rs
            \<and> (\<forall>m \<in> set rs. gm_Err m = None))
        | BrExit \<Rightarrow> \<not> ss_out s)
     \<and> prefix (delivered s) (map bridge_msg (ss_recvd s))
     \<and> (\<forall>m \<in> set (butlast (delivered s)). Err m = None)"

definition conn_inv :: "ssub \<times> bool \<Rightarrow> bool" where
  "conn_inv p \<longleftrightarrow> bridge_inv (fst p) \<and> snd p = (\<exists>m \<in> set (ss_recvd (fst p)). endsConn (gm_Err m))"

lemma Err_bridge_msg [simp]: "Err (bridge_msg m) = gm_Err m"
  by (simp add: bridge_msg_def split: option.splits)

lemma endOut_sel [simp]:
  "ss_recvd (endOut s) = ss_recvd s" "ss_taken (endOut s) = ss_taken s" "ss_src (endOut s) = ss_src s"
  "ch_buf (ss_ch (endOut s)) = ch_buf (ss_ch s)" "ch_cap (ss_ch (endOut s)) = ch_cap (ss_ch s)"
  "\<not> ss_out (endOut s)" "ss_pc (endOut s) = ss_pc s" "ss_stop (endOut s) = ss_stop s"
  "ss_ctxdone (endOut s) = ss_ctxdone s" "ss_dest (endOut s) = ss_dest s" "ss_once (endOut s) = ss_once s"
  "ss_err (endOut s) = ss_err s" "ss_ctx (endOut s) = ss_ctx s"
  by (simp_all add: endOut_def)

lemma endOut_closed [simp]: "ss_out s = (\<not> ch_closed (ss_ch s)) \<Longrightarrow> ch_closed (ss_ch (endOut s))"
  by (simp add: endOut_def)

lemma chan_ok_endOut [simp]: "chan_ok (ss_ch (endOut s)) = chan_ok (ss_ch s)"
  by (simp add: chan_ok_def)

lemmas bridge_steps = bridge_step.simps Let_def unsubscribeOnCtx_def

lemma bridge_inv_endOut:
  assumes "bridge_inv s" "pc = BrLoop \<or> pc = BrExit"
  shows "bridge_inv ((endOut s)\<lparr>ss_pc := pc\<rparr>)"
  using assms by (auto simp: bridge_inv_def)

lemma bridge_inv_spawned [simp]:
  "bridge_inv (s\<lparr>ss_spawned := n\<rparr>) = bridge_inv s" "bridge_inv (s\<lparr>ss_once := b\<rparr>) = bridge_inv s"
  "bridge_inv (s\<lparr>ss_stop := b\<rparr>) = bridge_inv s" "bridge_inv (s\<lparr>ss_err := e\<rparr>) = bridge_inv s"
  by (simp_all add: bridge_inv_def split: bridge_pc.split)

lemma ss_pc_endOut_loop: "ss_pc s = BrLoop \<Longrightarrow> (endOut s)\<lparr>ss_pc := BrLoop\<rparr> = endOut s"
  by (simp add: endOut_def)

lemma bridge_inv_recv:
  assumes "bridge_inv s" "ss_pc s = BrLoop" "try_recv (ss_src s) = Received msg c"
  shows "bridge_inv (if ss_out s then s\<lparr>ss_src := c, ss_recvd := ss_recvd s @ [msg], ss_pc := BrSend msg\<rparr>
    else s\<lparr>ss_src := c, ss_recvd := ss_recvd s @ [msg]\<rparr>)"
  using assms try_recv_ok [of "ss_src s" msg c]
  by (auto simp: bridge_inv_def prefix_append)

lemma bridge_inv_send:
  assumes "bridge_inv s" "ss_pc s = BrSend msg" "try_send (bridge_msg msg) (ss_ch s) = Sent c"
  shows "bridge_inv (if gm_Err msg \<noteq> None then endOut (s\<lparr>ss_ch := c, ss_pc := BrLoop\<rparr>)
    else s\<lparr>ss_ch := c, ss_pc := BrLoop\<rparr>)"
proof -
  obtain rs where rs: "ss_recvd s = rs @ [msg]" "delivered s = map bridge_msg rs" "\<forall>m \<in> set rs. gm_Err m = None"
    using assms(1,2) by (auto simp: bridge_inv_def)
  then have all: "ss_taken s @ ch_buf (ss_ch s) @ [bridge_msg msg] = map bridge_msg rs @ [bridge_msg msg]" by simp
  have "butlast (ss_taken s @ ch_buf (ss_ch s) @ [bridge_msg msg]) = map bridge_msg rs" unfolding all by simp
  with assms rs all show ?thesis
    by (auto simp: bridge_inv_def chan_simps chan_ok_def)
qed

lemma bridge_inv_bridge:
  assumes "bridge_inv s" "bridge_step ch s = Some (s', mark)"
  shows "bridge_inv s'"
proof (cases "ss_pc s")
  case BrLoop
  then show ?thesis
    using assms bridge_inv_endOut [OF assms(1), of BrLoop] bridge_inv_endOut [OF assms(1), of BrExit]
      bridge_inv_endOut [of "s\<lparr>ss_spawned := ss_spawned s + 1\<rparr>" BrLoop] bridge_inv_recv [OF assms(1)]
    by (cases ch) (auto simp: bridge_steps ss_pc_endOut_loop split: recv_result.splits if_splits)
next
  case (BrSend msg)
  show ?thesis
  proof (cases ch)
    case OnOut
    with BrSend assms(2) obtain c where c: "try_send (bridge_msg msg) (ss_ch s) = Sent c"
      "s' = (if gm_Err msg \<noteq> None then endOut (s\<lparr>ss_ch := c, ss_pc := BrLoop\<rparr>) else s\<lparr>ss_ch := c, ss_pc := BrLoop\<rparr>)"
      by (auto simp: bridge_steps split: send_result.splits)
    show ?thesis unfolding c(2) by (rule bridge_inv_send [OF assms(1) BrSend c(1)])
  qed (use BrSend assms bridge_inv_endOut [OF assms(1), of BrLoop]
      bridge_inv_endOut [of "s\<lparr>ss_spawned := ss_spawned s + 1\<rparr>" BrLoop] in
      \<open>auto simp: bridge_steps split: if_splits\<close>)
next
  case BrExit
  with assms show ?thesis by (simp add: bridge_steps)
qed

lemma bridge_inv_take:
  assumes "bridge_inv s" "try_recv (ss_ch s) = Received m c"
  shows "bridge_inv (s\<lparr>ss_ch := c, ss_taken := ss_taken s @ [m]\<rparr>)"
  using assms by (auto simp: bridge_inv_def chan_simps chan_ok_def split: bridge_pc.splits)

lemma bridge_inv_frame:
  assumes "bridge_inv s" "chan_ok (ss_src s')"
    and "ss_ch s' = ss_ch s" "ss_out s' = ss_out s" "ss_pc s' = ss_pc s" "ss_recvd s' = ss_recvd s" "ss_taken s' = ss_taken s"
  shows "bridge_inv s'"
  using assms(1,2) unfolding bridge_inv_def assms(3-) by blast

lemma bridge_inv_step:
  assumes "bridge_inv s" "sub_step ev s = Some (s', mark)"
  shows "bridge_inv s'"
proof (cases ev)
  case (Bridge ch)
  with assms bridge_inv_bridge show ?thesis by simp
next
  case Take
  with assms bridge_inv_take show ?thesis by (auto split: recv_result.splits)
next
  case (SrcPush m)
  with assms(2) show ?thesis
    by (intro bridge_inv_frame [OF assms(1)]) (auto simp: try_send_ok split: send_result.splits)
next
  case SrcClose
  moreover have "chan_ok (ss_src s)" using assms(1) by (simp add: bridge_inv_def)
  ultimately show ?thesis using assms(2)
    by (intro bridge_inv_frame [OF assms(1)]) (auto simp: chan_ok_def split: if_splits)
next
  case CtxEnd
  moreover have "chan_ok (ss_src s)" using assms(1) by (simp add: bridge_inv_def)
  ultimately show ?thesis using assms(2)
    by (intro bridge_inv_frame [OF assms(1)]) (auto split: if_splits)
next
  case StopClose
  moreover have "chan_ok (ss_src s)" using assms(1) by (simp add: bridge_inv_def)
  ultimately show ?thesis using assms(2)
    by (intro bridge_inv_frame [OF assms(1)]) (auto split: if_splits)
qed

lemma recvd_step:
  assumes "sub_step ev s = Some (s', mark)"
  shows "mark = (\<exists>m \<in> set (drop (length (ss_recvd s)) (ss_recvd s')). endsConn (gm_Err m))
    \<and> prefix (ss_recvd s) (ss_recvd s')"
proof (cases ev)
  case (Bridge ch)
  with assms show ?thesis
    by (cases "ss_pc s"; cases ch)
      (auto simp: bridge_steps split: recv_result.splits send_result.splits if_splits)
qed (use assms in \<open>auto split: send_result.splits recv_result.splits if_splits\<close>)

interpretation br: machine bridge_machine "(newSub ctx n dest, False)" conn_inv for ctx n dest
proof (unfold_locales, goal_cases)
  case 1
  then show ?case by (simp add: conn_inv_def bridge_inv_def newSub_def)
next
  case (2 p ev q)
  then obtain s' mark where st: "sub_step ev (fst p) = Some (s', mark)" "q = (s', snd p \<or> mark)"
    by (auto simp: bridge_machine_def split: option.splits)
  from recvd_step [OF st(1)] obtain l where "ss_recvd s' = ss_recvd (fst p) @ l"
    "mark = (\<exists>m \<in> set l. endsConn (gm_Err m))" by (auto elim!: prefixE)
  with 2(1) st bridge_inv_step [OF _ st(1)] show ?case by (auto simp: conn_inv_def)
qed

section \<open>Draining\<close>

text \<open>
  When the client no longer reads, only three things can still move the bridge: \<open>stop\<close>, the context
  and go-stomp. \<open>can_drain\<close> is the situation in which the bridge must not block go-stomp: the output
  has ended, or Unsubscribe has begun, or the context is done.
\<close>

definition can_drain :: "ssub \<Rightarrow> bool" where
  "can_drain s \<longleftrightarrow> \<not> ss_out s \<or> ss_stop s \<or> ss_ctxdone s"

fun bridge_stage :: "bridge_pc \<Rightarrow> nat" where
  "bridge_stage (BrSend m) = 1"
| "bridge_stage _ = 0"

definition drain_rel :: "(ssub \<times> ssub) set" where
  "drain_rel = measures [\<lambda>s. length (ch_buf (ss_src s)), \<lambda>s. bridge_stage (ss_pc s)]"

lemma drain_progress:
  assumes "can_drain s" "ss_pc s \<noteq> BrExit" "ch_buf (ss_src s) \<noteq> [] \<or> ss_pc s \<noteq> BrLoop"
    "ss_out s \<or> ss_pc s = BrLoop"
  shows "\<exists>ch s' mark. bridge_step ch s = Some (s', mark) \<and> (s', s) \<in> drain_rel \<and> can_drain s'
    \<and> ss_pc s' \<noteq> BrExit \<and> (ss_out s' \<or> ss_pc s' = BrLoop) \<and> ch_closed (ss_src s') = ch_closed (ss_src s)"
proof (cases "ss_pc s")
  case BrLoop
  with assms(3) obtain m ms where buf: "ch_buf (ss_src s) = m # ms" by (cases "ch_buf (ss_src s)") auto
  with BrLoop assms(1) show ?thesis
    by (intro exI [of _ OnSrc]) (auto simp: bridge_steps try_recv_def drain_rel_def can_drain_def)
next
  case (BrSend msg)
  show ?thesis
  proof (cases "ss_stop s")
    case True
    with BrSend show ?thesis
      by (intro exI [of _ OnStop]) (auto simp: bridge_steps drain_rel_def can_drain_def)
  next
    case False
    with BrSend assms(1,4) show ?thesis
      by (intro exI [of _ OnDone]) (auto simp: bridge_steps drain_rel_def can_drain_def)
  qed
qed (use assms(2) in simp)

lemma bridge_drains:
  assumes "can_drain s" "ss_pc s \<noteq> BrExit" "ss_out s \<or> ss_pc s = BrLoop"
  shows "\<exists>chs t. run_actions bridge_machine (map Bridge chs) (s, e) = Some t
    \<and> ch_buf (ss_src (fst t)) = [] \<and> ss_pc (fst t) = BrLoop \<and> ch_closed (ss_src (fst t)) = ch_closed (ss_src s)"
proof -
  have "wf drain_rel" by (simp add: drain_rel_def)
  then show ?thesis
    using assms
  proof (induction s arbitrary: e rule: wf_induct_rule)
    case (less s)
    show ?case
    proof (cases "ch_buf (ss_src s) = [] \<and> ss_pc s = BrLoop")
      case True
      then show ?thesis by (intro exI [of _ "[]"] exI [of _ "(s, e)"]) simp
    next
      case False
      then have "ch_buf (ss_src s) \<noteq> [] \<or> ss_pc s \<noteq> BrLoop" by simp
      from drain_progress [OF less.prems(1,2) this less.prems(3)] obtain ch s' mark where
        st: "bridge_step ch s = Some (s', mark)" and rel: "(s', s) \<in> drain_rel"
        and s': "can_drain s'" "ss_pc s' \<noteq> BrExit" "ss_out s' \<or> ss_pc s' = BrLoop"
        and cl: "ch_closed (ss_src s') = ch_closed (ss_src s)" by blast
      from less.IH [OF rel s', of "e \<or> mark"] obtain chs t where
        "run_actions bridge_machine (map Bridge chs) (s', e \<or> mark) = Some t"
        "ch_buf (ss_src (fst t)) = []" "ss_pc (fst t) = BrLoop" "ch_closed (ss_src (fst t)) = ch_closed (ss_src s')"
        by blast
      moreover have "bridge_machine (Bridge ch) (s, e) = Some (s', e \<or> mark)"
        using st by (simp add: bridge_machine_def)
      ultimately show ?thesis
        using cl by (intro exI [of _ "ch # chs"] exI [of _ t]) simp
    qed
  qed
qed

section \<open>Properties\<close>

text \<open>
  C6: What a client reads from a subscription is what go-stomp delivered, in order and without gaps:
  at every moment the messages taken and buffered are a prefix of those the bridge received, and all
  of them while the output is open and no message is in hand; only the last can carry an error.
\<close>

theorem bridge_fifo:
  assumes "reach bridge_machine (newSub ctx n dest, False) (s, ended)"
  shows "prefix (ss_taken s @ ch_buf (ss_ch s)) (map bridge_msg (ss_recvd s))
    \<and> (\<forall>m \<in> set (butlast (ss_taken s @ ch_buf (ss_ch s))). Err m = None)
    \<and> (ss_out s \<and> ss_pc s = BrLoop \<longrightarrow> ss_taken s @ ch_buf (ss_ch s) = map bridge_msg (ss_recvd s))"
  using br.inv_reach [OF assms] by (auto simp: conn_inv_def bridge_inv_def)

text \<open>One message through the bridge, then the end of the context.\<close>

definition gmsg1 :: gmsg where
  "gmsg1 = \<lparr>gm_Body = ''x'', gm_Destination = ''/queue/a'', gm_Err = None\<rparr>"

definition bridge_example :: "ssub \<times> bool" where
  "bridge_example = the (run_actions bridge_machine
     [SrcPush gmsg1, Bridge OnSrc, Bridge OnOut, CtxEnd] (newSub (CallerCtx None) 4 ''/queue/a'', False))"

lemmas bridge_eval =
  bridge_machine_def newSub_def make_chan_def try_send_def try_recv_def bridge_steps bridge_msg_def
  gmsg1_def subChanBuf_def endsConn_def endOut_def close_chan_def

lemma bridge_example_run:
  "run_actions bridge_machine [SrcPush gmsg1, Bridge OnSrc, Bridge OnOut, CtxEnd]
     (newSub (CallerCtx None) 4 ''/queue/a'', False) = Some bridge_example"
  by (simp add: bridge_example_def bridge_eval)

lemma bridge_example_state:
  "ss_taken (fst bridge_example) = [] \<and> ss_recvd (fst bridge_example) = [gmsg1] \<and> ss_out (fst bridge_example)
   \<and> ss_pc (fst bridge_example) = BrLoop \<and> ss_ctxdone (fst bridge_example) \<and> \<not> snd bridge_example
   \<and> ch_closed (ss_src (fst bridge_example)) = False"
  by (simp add: bridge_example_def bridge_eval)

lemma bridge_example_reach:
  "reach bridge_machine (newSub (CallerCtx None) 4 ''/queue/a'', False) (fst bridge_example, snd bridge_example)"
  using run_reach [OF bridge_example_run] by simp

theorem bridge_fifo_witness:
  "reach bridge_machine (newSub (CallerCtx None) 4 ''/queue/a'', False) (fst bridge_example, snd bridge_example)
   \<and> ch_buf (ss_ch (fst bridge_example)) = [\<lparr>Body = ''x'', Destination = ''/queue/a'', Err = None\<rparr>]"
  using bridge_fifo [of "CallerCtx None" 4 "''/queue/a''" "fst bridge_example" "snd bridge_example"]
    bridge_example_reach bridge_example_state
  by (simp add: bridge_msg_def gmsg1_def)

text \<open>
  The channel of a subscription is closed once and never written after: it is closed exactly when
  the bridge has given it up, so the bridge holding a message to send finds an open channel, and no
  step of the bridge closes a closed channel.
\<close>

lemma bridge_close_once:
  assumes "reach bridge_machine (newSub ctx n dest, False) (s, ended)"
  shows "(ch_closed (ss_ch s) \<longleftrightarrow> \<not> ss_out s) \<and> (ss_pc s = BrExit \<longrightarrow> ch_closed (ss_ch s))
    \<and> (\<forall>g. ss_pc s = BrSend g \<longrightarrow> try_send (bridge_msg g) (ss_ch s) \<noteq> SendOnClosed)"
  using br.inv_reach [OF assms] by (auto simp: conn_inv_def bridge_inv_def try_send_def)



text \<open>
  The connection is marked as ended exactly when some message received on the subscription was
  a go-stomp ERROR frame, forwarded or discarded; errors without a frame do not mark it.
\<close>

lemma ended_iff_error_frame:
  assumes "reach bridge_machine (newSub ctx n dest, False) (s, ended)"
  shows "ended \<longleftrightarrow> (\<exists>m \<in> set (ss_recvd s). \<exists>e. gm_Err m = Some e \<and> errors_As_gostomp e = Some True)"
  using br.inv_reach [OF assms] by (simp add: conn_inv_def endsConn_def split: option.splits) (metis option.distinct(1) option.inject)

end
