(* ===== verification/GoLib.thy ===== *)
theory GoLib
  imports Prelude
begin

text \<open>
  What the program uses of the Go standard library on byte strings: UTF-8 decoding
  (\<open>unicode/utf8\<close>), lower-case hexadecimal (\<open>encoding/hex\<close> and the \<open>%0wx\<close> verbs of \<open>fmt\<close>) and
  standard base64 (\<open>encoding/base64\<close>), each with the lemma that its output can be read back.
\<close>

section \<open>Bytes\<close>

abbreviation byte :: "char \<Rightarrow> nat" where
  "byte c \<equiv> of_char c"

abbreviation chr :: "nat \<Rightarrow> char" where
  "chr n \<equiv> char_of n"

lemma byte_le [simp]: "byte c \<le> 255"
  using nat_of_char_less_256 [of c] by linarith

lemma byte_chr: "n < 256 \<Longrightarrow> byte (chr n) = n"
  by simp

lemma chr_eqI: "byte c = n \<Longrightarrow> chr n = c"
  by auto

section \<open>Hexadecimal\<close>

definition hex_char :: "nat \<Rightarrow> char" where
  "hex_char n = (if n < 10 then chr (48 + n) else chr (87 + n))"

definition hex_val :: "char \<Rightarrow> nat option" where
  "hex_val c =
     (let b = byte c in
      if 48 \<le> b \<and> b \<le> 57 then Some (b - 48)
      else if 97 \<le> b \<and> b \<le> 102 then Some (b - 87)
      else None)"

lemma byte_hex_char: "n < 16 \<Longrightarrow> byte (hex_char n) = (if n < 10 then 48 + n else 87 + n)"
  by (simp add: hex_char_def)

lemma hex_val_hex_char [simp]: "n < 16 \<Longrightarrow> hex_val (hex_char n) = Some n"
  by (auto simp: hex_val_def byte_hex_char Let_def)

lemma hex_char_ascii: "n < 16 \<Longrightarrow> 48 \<le> byte (hex_char n) \<and> byte (hex_char n) \<le> 102"
  by (auto simp: byte_hex_char)

text \<open>The digits of a number, most significant first, and the verb \<open>%0wx\<close>.\<close>

fun hex_digits :: "nat \<Rightarrow> string" where
  "hex_digits n =
     (if n < 16 then [hex_char n] else hex_digits (n div 16) @ [hex_char (n mod 16)])"

declare hex_digits.simps [simp del]

definition Sprintf_x :: "nat \<Rightarrow> nat \<Rightarrow> string" where
  "Sprintf_x w n = replicate (w - length (hex_digits n)) (CHR ''0'') @ hex_digits n"

fun hex_read :: "nat \<Rightarrow> string \<Rightarrow> nat option" where
  "hex_read acc [] = Some acc"
| "hex_read acc (c # cs) =
     (case hex_val c of None \<Rightarrow> None | Some v \<Rightarrow> hex_read (16 * acc + v) cs)"

lemma hex_read_append:
  "hex_read acc (xs @ ys) = (case hex_read acc xs of None \<Rightarrow> None | Some v \<Rightarrow> hex_read v ys)"
  by (induction xs arbitrary: acc) (auto split: option.splits)

lemma hex_read_digits: "hex_read 0 (hex_digits n) = Some n"
proof (induction n rule: hex_digits.induct)
  case (1 n)
  then show ?case
    by (subst hex_digits.simps) (auto simp: hex_read_append)
qed

lemma hex_read_zeros: "hex_read 0 (replicate k (CHR ''0'') @ xs) = hex_read 0 xs"
  by (induction k) (auto simp: hex_val_def)

lemma hex_read_Sprintf_x: "hex_read 0 (Sprintf_x w n) = Some n"
  by (simp add: Sprintf_x_def hex_read_zeros hex_read_digits)

lemma length_hex_digits: "0 < w \<Longrightarrow> n < 16 ^ w \<Longrightarrow> length (hex_digits n) \<le> w"
proof (induction n arbitrary: w rule: hex_digits.induct)
  case (1 n)
  show ?case
  proof (cases "n < 16")
    case True
    with "1.prems" show ?thesis by (subst hex_digits.simps) auto
  next
    case False
    with "1.prems" have "1 < w"
      by (cases "w = 1") auto
    then obtain v where w: "w = Suc v" "0 < v" by (cases w) auto
    with "1.prems" have "n div 16 < 16 ^ v" by (simp add: less_mult_imp_div_less)
    with "1.IH" [OF False \<open>0 < v\<close>] have "length (hex_digits (n div 16)) \<le> v" .
    with False w show ?thesis by (subst hex_digits.simps) auto
  qed
qed

lemma length_Sprintf_x: "0 < w \<Longrightarrow> n < 16 ^ w \<Longrightarrow> length (Sprintf_x w n) = w"
  using length_hex_digits [of w n] by (simp add: Sprintf_x_def)

lemma hex_digits_ascii: "c \<in> set (hex_digits n) \<Longrightarrow> 48 \<le> byte c \<and> byte c \<le> 102"
proof (induction n rule: hex_digits.induct)
  case (1 n)
  then show ?case
    using hex_char_ascii [of "n mod 16"]
    by (subst (asm) hex_digits.simps) (auto split: if_splits dest: hex_char_ascii)
qed

lemma Sprintf_x_ascii: "c \<in> set (Sprintf_x w n) \<Longrightarrow> 48 \<le> byte c \<and> byte c \<le> 102"
  by (auto simp: Sprintf_x_def dest: hex_digits_ascii)

text \<open>\<open>hex.EncodeToString\<close>: two digits for each byte.\<close>

definition hex_EncodeToString :: "bytes \<Rightarrow> string" where
  "hex_EncodeToString bs = concat (map (\<lambda>c. [hex_char (byte c div 16), hex_char (byte c mod 16)]) bs)"

fun hex_DecodeString :: "string \<Rightarrow> bytes option" where
  "hex_DecodeString [] = Some []"
| "hex_DecodeString [c] = None"
| "hex_DecodeString (c # d # cs) =
     (case (hex_val c, hex_val d, hex_DecodeString cs) of
        (Some h, Some l, Some bs) \<Rightarrow> Some (chr (16 * h + l) # bs)
      | _ \<Rightarrow> None)"

lemma hex_Decode_Encode: "hex_DecodeString (hex_EncodeToString bs) = Some bs"
proof (induction bs)
  case Nil
  then show ?case by (simp add: hex_EncodeToString_def)
next
  case (Cons c bs)
  have "byte c div 16 < 16"
    by (rule less_mult_imp_div_less) simp
  with Cons show ?case by (simp add: hex_EncodeToString_def)
qed

interpretation hex: codec hex_EncodeToString hex_DecodeString "\<lambda>_. True"
  by unfold_locales (rule hex_Decode_Encode)

lemma length_hex_EncodeToString [simp]: "length (hex_EncodeToString bs) = 2 * length bs"
  by (induction bs) (simp_all add: hex_EncodeToString_def)

section \<open>Standard base64\<close>

text \<open>The alphabet is \<open>A-Z\<close>, \<open>a-z\<close>, \<open>0-9\<close>, \<open>+\<close> and \<open>/\<close>, in this order.\<close>

definition b64_char :: "nat \<Rightarrow> char" where
  "b64_char n =
     (if n < 26 then chr (65 + n)
      else if n < 52 then chr (71 + n)
      else if n < 62 then chr (n - 4)
      else if n = 62 then CHR ''+''
      else CHR ''/'')"

definition b64_val :: "char \<Rightarrow> nat option" where
  "b64_val c =
     (let b = byte c in
      if 65 \<le> b \<and> b \<le> 90 then Some (b - 65)
      else if 97 \<le> b \<and> b \<le> 122 then Some (b - 71)
      else if 48 \<le> b \<and> b \<le> 57 then Some (b + 4)
      else if b = 43 then Some 62
      else if b = 47 then Some 63
      else None)"

fun b64_EncodeToString :: "bytes \<Rightarrow> string" where
  "b64_EncodeToString [] = []"
| "b64_EncodeToString [a] =
     [b64_char (byte a div 4), b64_char (byte a mod 4 * 16), CHR ''='', CHR ''='']"
| "b64_EncodeToString [a, b] =
     [b64_char (byte a div 4), b64_char (byte a mod 4 * 16 + byte b div 16),
      b64_char (byte b mod 16 * 4), CHR ''='']"
| "b64_EncodeToString (a # b # c # cs) =
     [b64_char (byte a div 4), b64_char (byte a mod 4 * 16 + byte b div 16),
      b64_char (byte b mod 16 * 4 + byte c div 64), b64_char (byte c mod 64)]
     @ b64_EncodeToString cs"

fun b64_DecodeString :: "string \<Rightarrow> bytes option" where
  "b64_DecodeString [] = Some []"
| "b64_DecodeString (p # q # r # s # rest) =
     (case (b64_val p, b64_val q, b64_val r, b64_val s) of
        (Some w, Some x, Some y, Some z) \<Rightarrow>
          (case b64_DecodeString rest of
             None \<Rightarrow> None
           | Some bs \<Rightarrow>
               Some (chr (w * 4 + x div 16) # chr (x mod 16 * 16 + y div 4) # chr (y mod 4 * 64 + z) # bs))
      | (Some w, Some x, Some y, None) \<Rightarrow>
          if s = CHR ''='' \<and> rest = [] \<and> y mod 4 = 0
          then Some [chr (w * 4 + x div 16), chr (x mod 16 * 16 + y div 4)] else None
      | (Some w, Some x, None, None) \<Rightarrow>
          if r = CHR ''='' \<and> s = CHR ''='' \<and> rest = [] \<and> x mod 16 = 0
          then Some [chr (w * 4 + x div 16)] else None
      | _ \<Rightarrow> None)"
| "b64_DecodeString _ = None"

lemma b64_val_char [simp]: "n < 64 \<Longrightarrow> b64_val (b64_char n) = Some n"
  by (auto simp: b64_val_def b64_char_def Let_def)

lemma b64_val_pad [simp]: "b64_val (CHR ''='') = None"
  by (simp add: b64_val_def)

lemma b64_bits:
  assumes "(a::nat) < 256" "b < 256" "c < 256"
  shows "a div 4 < 64" "a mod 4 * 16 + b div 16 < 64" "b mod 16 * 4 + c div 64 < 64"
    and "a div 4 * 4 + (a mod 4 * 16 + b div 16) div 16 = a"
    and "(a mod 4 * 16 + b div 16) mod 16 * 16 + (b mod 16 * 4 + c div 64) div 4 = b"
    and "(b mod 16 * 4 + c div 64) mod 4 * 64 + c mod 64 = c"
proof -
  have d: "b div 16 < 16" "c div 64 < 4"
    using assms by (simp_all add: less_mult_imp_div_less)
  have m: "a mod 4 < 4" "b mod 16 < 16" by simp_all
  show "a div 4 < 64" using assms(1) by (simp add: less_mult_imp_div_less)
  show "a mod 4 * 16 + b div 16 < 64" "b mod 16 * 4 + c div 64 < 64"
    using d m by linarith+
  show "a div 4 * 4 + (a mod 4 * 16 + b div 16) div 16 = a" using d by simp
  show "(a mod 4 * 16 + b div 16) mod 16 * 16 + (b mod 16 * 4 + c div 64) div 4 = b"
    using d by simp
  show "(b mod 16 * 4 + c div 64) mod 4 * 64 + c mod 64 = c" using d by simp
qed

lemma b64_Decode_Encode: "b64_DecodeString (b64_EncodeToString bs) = Some bs"
proof (induction bs rule: b64_EncodeToString.induct)
  case (2 a)
  from b64_bits(1,2,4) [of "byte a" 0 0] show ?case by simp
next
  case (3 a b)
  from b64_bits [of "byte a" "byte b" 0] show ?case by simp
next
  case (4 a b c cs)
  note bits = b64_bits [of "byte a" "byte b" "byte c"]
  from bits(1-3) have "b64_DecodeString (b64_EncodeToString (a # b # c # cs)) =
    Some (chr (byte a div 4 * 4 + (byte a mod 4 * 16 + byte b div 16) div 16)
      # chr ((byte a mod 4 * 16 + byte b div 16) mod 16 * 16 + (byte b mod 16 * 4 + byte c div 64) div 4)
      # chr ((byte b mod 16 * 4 + byte c div 64) mod 4 * 64 + byte c mod 64) # cs)"
    using "4.IH" by (simp del: mod_mult_self3 div_mult_self3)
  then show ?case by (simp only: bits(4-6) nat_of_char_less_256) simp
qed simp

interpretation b64: codec b64_EncodeToString b64_DecodeString "\<lambda>_. True"
  by unfold_locales (rule b64_Decode_Encode)

section \<open>UTF-8\<close>

definition RuneError :: nat where
  "RuneError = 0xFFFD"

text \<open>The size of the encoding a first byte starts, and the range of its second byte.\<close>

definition utf8_first :: "nat \<Rightarrow> (nat \<times> nat \<times> nat) option" where
  "utf8_first b =
     (if b < 0xC2 then None
      else if b < 0xE0 then Some (2, 0x80, 0xBF)
      else if b = 0xE0 then Some (3, 0xA0, 0xBF)
      else if b = 0xED then Some (3, 0x80, 0x9F)
      else if b < 0xF0 then Some (3, 0x80, 0xBF)
      else if b = 0xF0 then Some (4, 0x90, 0xBF)
      else if b < 0xF4 then Some (4, 0x80, 0xBF)
      else if b = 0xF4 then Some (4, 0x80, 0x8F)
      else None)"

definition cont_byte :: "nat \<Rightarrow> bool" where
  "cont_byte b \<longleftrightarrow> 0x80 \<le> b \<and> b \<le> 0xBF"

text \<open>\<open>utf8.DecodeRuneInString\<close>: the rune and its width; \<open>(RuneError, 1)\<close> for an invalid encoding.\<close>

definition DecodeRune :: "bytes \<Rightarrow> nat \<times> nat" where
  "DecodeRune s =
     (case s of
        [] \<Rightarrow> (RuneError, 0)
      | c0 # s1 \<Rightarrow>
          let p0 = byte c0 in
          if p0 < 0x80 then (p0, 1)
          else
            (case utf8_first p0 of
               None \<Rightarrow> (RuneError, 1)
             | Some (sz, lo, hi) \<Rightarrow>
                 if length s < sz then (RuneError, 1)
                 else
                   let b1 = byte (s ! 1) in
                   if b1 < lo \<or> hi < b1 then (RuneError, 1)
                   else if sz \<le> 2 then (p0 mod 32 * 64 + b1 mod 64, 2)
                   else
                     let b2 = byte (s ! 2) in
                     if \<not> cont_byte b2 then (RuneError, 1)
                     else if sz \<le> 3 then (p0 mod 16 * 4096 + b1 mod 64 * 64 + b2 mod 64, 3)
                     else
                       let b3 = byte (s ! 3) in
                       if \<not> cont_byte b3 then (RuneError, 1)
                       else (p0 mod 8 * 262144 + b1 mod 64 * 4096 + b2 mod 64 * 64 + b3 mod 64, 4)))"

text \<open>The encoding of a rune, to state what decoding means.\<close>

definition utf8_encode :: "nat \<Rightarrow> bytes" where
  "utf8_encode r =
     (if r < 0x80 then [chr r]
      else if r < 0x800 then [chr (0xC0 + r div 64), chr (0x80 + r mod 64)]
      else if r < 0x10000 then
        [chr (0xE0 + r div 4096), chr (0x80 + r div 64 mod 64), chr (0x80 + r mod 64)]
      else
        [chr (0xF0 + r div 262144), chr (0x80 + r div 4096 mod 64),
         chr (0x80 + r div 64 mod 64), chr (0x80 + r mod 64)])"

text \<open>
  Decoding stays inside the string, makes progress, and a rune that is not reported as an error is
  spelled by exactly the bytes it was read from.
\<close>

lemma DecodeRune_width:
  assumes "s \<noteq> []"
  shows "0 < snd (DecodeRune s)" and "snd (DecodeRune s) \<le> length s"
  using assms
  by (auto simp: DecodeRune_def utf8_first_def Let_def Suc_le_eq split: list.splits if_splits)

lemma DecodeRune_ascii: "byte c < 0x80 \<Longrightarrow> DecodeRune (c # s) = (byte c, 1)"
  by (simp add: DecodeRune_def Let_def)

lemma utf8_split:
  fixes a b c :: nat
  assumes "b < 64"
  shows "(a * 64 + b) div 64 = a" "(a * 64 + b) mod 64 = b"
  using assms by simp_all

lemma base_plus_mod:
  fixes n m base :: nat
  assumes "base \<le> n" "n < base + m" "m dvd base"
  shows "n = base + n mod m"
proof -
  from assms(1) obtain k where k: "n = base + k" by (auto simp: le_iff_add)
  with assms(2) have "k < m" by simp
  moreover from assms(3) have "(base + k) mod m = k mod m" by (metis mod_add_left_eq add_0 dvd_eq_mod_eq_0)
  ultimately show ?thesis using k by simp
qed

lemma cont_byte_mod: "cont_byte b \<Longrightarrow> b = 0x80 + b mod 64"
  by (rule base_plus_mod) (auto simp: cont_byte_def)

lemma utf8_encode2:
  assumes "0xC2 \<le> p0" "p0 < 0xE0" "cont_byte b1"
  shows "utf8_encode (p0 mod 32 * 64 + b1 mod 64) = [chr p0, chr b1]"
proof -
  have p: "p0 = 0xC0 + p0 mod 32" using assms(1,2) by (intro base_plus_mod) auto
  note b = cont_byte_mod [OF assms(3)]
  have "2 \<le> p0 mod 32" using assms p by linarith
  moreover have "p0 mod 32 < 32" "b1 mod 64 < 64" by simp_all
  ultimately have "128 \<le> p0 mod 32 * 64 + b1 mod 64" "p0 mod 32 * 64 + b1 mod 64 < 2048"
    by linarith+
  then show ?thesis
    using p b utf8_split [of "b1 mod 64" "p0 mod 32"] by (simp add: utf8_encode_def)
qed

lemma utf8_encode3:
  assumes "0xE0 \<le> p0" "p0 < 0xF0" "cont_byte b1" "cont_byte b2" "p0 = 0xE0 \<longrightarrow> 0xA0 \<le> b1"
  shows "utf8_encode (p0 mod 16 * 4096 + b1 mod 64 * 64 + b2 mod 64) = [chr p0, chr b1, chr b2]"
proof -
  let ?r = "p0 mod 16 * 4096 + b1 mod 64 * 64 + b2 mod 64"
  have p: "p0 = 0xE0 + p0 mod 16" using assms(1,2) by (intro base_plus_mod) auto
  note b = cont_byte_mod [OF assms(3)] cont_byte_mod [OF assms(4)]
  have m: "p0 mod 16 < 16" "b1 mod 64 < 64" "b2 mod 64 < 64" by simp_all
  have "p0 mod 16 = 0 \<longrightarrow> 32 \<le> b1 mod 64" using assms(5) p b by auto
  then have r: "2048 \<le> ?r" "?r < 65536" using m by (cases "p0 mod 16 = 0"; simp)+
  have r1: "?r div 64 = p0 mod 16 * 64 + b1 mod 64" "?r mod 64 = b2 mod 64"
    using utf8_split [OF m(3), of "p0 mod 16 * 64 + b1 mod 64"] by (simp_all add: algebra_simps)
  have "?r div 4096 = ?r div 64 div 64" by (simp add: div_mult2_eq [symmetric])
  then have r2: "?r div 4096 = p0 mod 16" "?r div 64 mod 64 = b1 mod 64"
    unfolding r1 using utf8_split [OF m(2), of "p0 mod 16"] by simp_all
  show ?thesis
    using r p b unfolding utf8_encode_def r1 r2 by simp
qed

lemma utf8_encode4:
  assumes "0xF0 \<le> p0" "p0 < 0xF5" "cont_byte b1" "cont_byte b2" "cont_byte b3"
    and "p0 = 0xF0 \<longrightarrow> 0x90 \<le> b1"
  shows "utf8_encode (p0 mod 8 * 262144 + b1 mod 64 * 4096 + b2 mod 64 * 64 + b3 mod 64) =
    [chr p0, chr b1, chr b2, chr b3]"
proof -
  let ?r = "p0 mod 8 * 262144 + b1 mod 64 * 4096 + b2 mod 64 * 64 + b3 mod 64"
  have p: "p0 = 0xF0 + p0 mod 8" using assms(1,2) by (intro base_plus_mod) auto
  note b = cont_byte_mod [OF assms(3)] cont_byte_mod [OF assms(4)] cont_byte_mod [OF assms(5)]
  have m: "b1 mod 64 < 64" "b2 mod 64 < 64" "b3 mod 64 < 64" by simp_all
  have "p0 mod 8 = 0 \<longrightarrow> 16 \<le> b1 mod 64" using assms(6) p b by auto
  then have r: "65536 \<le> ?r" using m by (cases "p0 mod 8 = 0"; simp)
  have r1: "?r div 64 = (p0 mod 8 * 64 + b1 mod 64) * 64 + b2 mod 64" "?r mod 64 = b3 mod 64"
    using utf8_split [OF m(3), of "(p0 mod 8 * 64 + b1 mod 64) * 64 + b2 mod 64"]
    by (simp_all add: algebra_simps)
  have "?r div 4096 = ?r div 64 div 64" by (simp add: div_mult2_eq [symmetric])
  then have r2: "?r div 4096 = p0 mod 8 * 64 + b1 mod 64" "?r div 64 mod 64 = b2 mod 64"
    unfolding r1 using utf8_split [OF m(2), of "p0 mod 8 * 64 + b1 mod 64"] by simp_all
  have "?r div 262144 = ?r div 4096 div 64" by (simp add: div_mult2_eq [symmetric])
  then have r3: "?r div 262144 = p0 mod 8" "?r div 4096 mod 64 = b1 mod 64"
    unfolding r2 using utf8_split [OF m(1), of "p0 mod 8"] by simp_all
  show ?thesis
    using r p b unfolding utf8_encode_def r2 r3 r1(2) by simp
qed

lemma utf8_encode_ascii: "r < 0x80 \<Longrightarrow> utf8_encode r = [chr r]"
  by (simp add: utf8_encode_def)

text \<open>The ways a decoding can end, one per length, with the conditions on the bytes read.\<close>

lemma DecodeRune_cases:
  assumes "DecodeRune s = (r, k)" "s \<noteq> []"
  obtains
    (bad) "r = RuneError" "k = 1" "0x80 \<le> byte (hd s)"
  | (one) c s' where "s = c # s'" "byte c < 0x80" "r = byte c" "k = 1"
  | (two) c d s' where "s = c # d # s'" "0xC2 \<le> byte c" "byte c < 0xE0" "cont_byte (byte d)"
      "r = byte c mod 32 * 64 + byte d mod 64" "k = 2"
  | (three) c d e s' where "s = c # d # e # s'" "0xE0 \<le> byte c" "byte c < 0xF0"
      "cont_byte (byte d)" "cont_byte (byte e)" "byte c = 0xE0 \<longrightarrow> 0xA0 \<le> byte d"
      "byte c = 0xED \<longrightarrow> byte d \<le> 0x9F"
      "r = byte c mod 16 * 4096 + byte d mod 64 * 64 + byte e mod 64" "k = 3"
  | (four) c d e f s' where "s = c # d # e # f # s'" "0xF0 \<le> byte c" "byte c < 0xF5"
      "cont_byte (byte d)" "cont_byte (byte e)" "cont_byte (byte f)"
      "byte c = 0xF0 \<longrightarrow> 0x90 \<le> byte d" "byte c = 0xF4 \<longrightarrow> byte d \<le> 0x8F"
      "r = byte c mod 8 * 262144 + byte d mod 64 * 4096 + byte e mod 64 * 64 + byte f mod 64" "k = 4"
proof -
  obtain c s1 where s: "s = c # s1" using assms(2) by (cases s) auto
  show ?thesis
  proof (cases "r = RuneError \<and> k = 1 \<and> 0x80 \<le> byte c")
    case True
    with s show ?thesis by (intro bad) auto
  next
    case bad': False
    show ?thesis
    proof (cases "byte c < 0x80")
      case True
      with assms s show ?thesis by (intro one [of c s1]) (auto simp: DecodeRune_def Let_def)
    next
      case False
      with bad' have nb: "\<not> (r = RuneError \<and> k = 1)" by simp
      from False nb assms s have "utf8_first (byte c) \<noteq> None"
        by (intro notI) (simp add: DecodeRune_def)
      then consider (2) "0xC2 \<le> byte c" "byte c < 0xE0" "utf8_first (byte c) = Some (2, 0x80, 0xBF)"
        | (3) lo hi where "0xE0 \<le> byte c" "byte c < 0xF0" "utf8_first (byte c) = Some (3, lo, hi)"
            "0x80 \<le> lo" "hi \<le> 0xBF" "byte c = 0xE0 \<longrightarrow> lo = 0xA0" "byte c = 0xED \<longrightarrow> hi = 0x9F"
        | (4) lo hi where "0xF0 \<le> byte c" "byte c < 0xF5" "utf8_first (byte c) = Some (4, lo, hi)"
            "0x80 \<le> lo" "hi \<le> 0xBF" "byte c = 0xF0 \<longrightarrow> lo = 0x90" "byte c = 0xF4 \<longrightarrow> hi = 0x8F"
        by (auto simp: utf8_first_def split: if_splits)
      then show ?thesis
      proof cases
        case 2
        from 2(3) assms s nb False obtain d s2 where "s1 = d # s2"
          by (cases s1) (auto simp: DecodeRune_def Let_def)
        with 2 assms s nb False show ?thesis
          by (intro two [of c d s2]) (auto simp: DecodeRune_def Let_def cont_byte_def split: if_splits)
      next
        case 3
        from 3(3) assms s nb False have "3 \<le> length s"
          by (auto simp: DecodeRune_def Let_def split: if_splits)
        then obtain d e s2 where "s1 = d # e # s2"
          using s by (auto simp: Suc_le_length_iff numeral_eq_Suc)
        with 3 assms s nb False show ?thesis
          by (intro three [of c d e s2]) (auto simp: DecodeRune_def Let_def cont_byte_def split: if_splits)
      next
        case 4
        from 4(3) assms s nb False have "4 \<le> length s"
          by (auto simp: DecodeRune_def Let_def split: if_splits)
        then obtain d e f s2 where "s1 = d # e # f # s2"
          using s by (auto simp: Suc_le_length_iff numeral_eq_Suc)
        with 4 assms s nb False show ?thesis
          by (intro four [of c d e f s2]) (auto simp: DecodeRune_def Let_def cont_byte_def split: if_splits)
      qed
    qed
  qed
qed

lemma DecodeRune_encode:
  assumes "DecodeRune s = (r, k)" "s \<noteq> []" "\<not> (r = RuneError \<and> k = 1)"
  shows "take k s = utf8_encode r"
  using assms(1,2)
proof (cases rule: DecodeRune_cases)
  case bad
  with assms(3) show ?thesis by simp
next
  case (one c s')
  then show ?thesis using utf8_encode_ascii [of "byte c"] by simp
next
  case (two c d s')
  then show ?thesis using utf8_encode2 [of "byte c" "byte d"] by simp
next
  case (three c d e s')
  then show ?thesis using utf8_encode3 [of "byte c" "byte d" "byte e"] by simp
next
  case (four c d e f s')
  then show ?thesis using utf8_encode4 [of "byte c" "byte d" "byte e" "byte f"] by simp
qed

lemma DecodeRune_range:
  assumes "DecodeRune s = (r, k)" "s \<noteq> []"
  shows "r \<le> 0x10FFFF" and "k = 1 \<Longrightarrow> r = RuneError \<or> r < 0x80"
    and "1 < k \<Longrightarrow> \<forall>c \<in> set (take k s). 0x80 \<le> byte c"
proof -
  show "r \<le> 0x10FFFF"
    using assms
  proof (cases rule: DecodeRune_cases)
    case (four c d e f s')
    have m: "byte d mod 64 < 64" "byte e mod 64 < 64" "byte f mod 64 < 64" "byte c mod 8 < 8"
      by simp_all
    have p: "byte c = 0xF0 + byte c mod 8" using four(2,3) by (intro base_plus_mod) auto
    have "byte c mod 8 = 4 \<longrightarrow> byte d mod 64 \<le> 15"
      using four(8) p cont_byte_mod [OF four(4)] by linarith
    with m p four(3,9) show ?thesis by linarith
  next
    case (three c d e s')
    have m: "byte d mod 64 < 64" "byte e mod 64 < 64" "byte c mod 16 < 16"
      by simp_all
    with three(8) show ?thesis by linarith
  next
    case (two c d s')
    have m: "byte d mod 64 < 64" "byte c mod 32 < 32"
      by simp_all
    with two(5) show ?thesis by linarith
  qed (simp_all add: RuneError_def)
  show "k = 1 \<Longrightarrow> r = RuneError \<or> r < 0x80"
    using assms by (cases rule: DecodeRune_cases) auto
  show "1 < k \<Longrightarrow> \<forall>c \<in> set (take k s). 0x80 \<le> byte c"
    using assms by (cases rule: DecodeRune_cases) (simp_all add: cont_byte_def)
qed

end
