(* ===== verification/FakeTransport.thy ===== *)
theory FakeTransport
  imports Transport
begin

text \<open>
  The package internal/transporttest: the in-process connection and subscription the other
  packages are tested with. The subscriptions live in a list, addressed by position, since the code
  keeps pointers to them. \<open>fake_ops\<close> is its table of methods; what the test does while a client
  waits (pushing messages, closing a subscription) is a list of events. It is the first provider of
  the interface \<open>transport_conn\<close>.
\<close>

section \<open>State\<close>

record SendRecord =
  sr_Destination :: string
  sr_ContentType :: string
  sr_Body :: bytes
  sr_Headers :: headers

record FakeSub =
  fs_dest :: string
  fs_ch :: "Msg chan"
  fs_closeOnce :: bool
  fs_unsubCalled :: bool

record FakeConn =
  fc_Sends :: "SendRecord list"
  fc_Subs :: "FakeSub list"
  fc_subsByDest :: "string \<rightharpoonup> nat"
  fc_disconnected :: bool
  fc_DisconnectErr :: "goerr option"
  fc_SubscribeErr :: "goerr option"
  fc_SendNotify :: "unit chan option"
  fc_sendOnce :: bool

definition NewFakeConn :: FakeConn where
  "NewFakeConn =
     \<lparr>fc_Sends = [], fc_Subs = [], fc_subsByDest = Map.empty, fc_disconnected = False,
      fc_DisconnectErr = None, fc_SubscribeErr = None, fc_SendNotify = None, fc_sendOnce = False\<rparr>"

definition newFakeSub :: "string \<Rightarrow> FakeSub" where
  "newFakeSub dest = \<lparr>fs_dest = dest, fs_ch = make_chan 64, fs_closeOnce = False, fs_unsubCalled = False\<rparr>"

section \<open>The connection\<close>

definition FakeConn_Send ::
  "string \<Rightarrow> string \<Rightarrow> bytes \<Rightarrow> headers \<Rightarrow> FakeConn \<Rightarrow> goerr option \<times> FakeConn" where
  "FakeConn_Send destination contentType body headers c =
     (let c1 = c\<lparr>fc_Sends := fc_Sends c @
            [\<lparr>sr_Destination = destination, sr_ContentType = contentType, sr_Body = body, sr_Headers = headers\<rparr>]\<rparr>;
          c2 = (case fc_SendNotify c1 of
                  None \<Rightarrow> c1
                | Some notify \<Rightarrow>
                    if fc_sendOnce c1 then c1
                    else c1\<lparr>fc_sendOnce := True, fc_SendNotify := Some (close_chan notify)\<rparr>) in
      (None, c2))"

definition FakeConn_Subscribe :: "string \<Rightarrow> FakeConn \<Rightarrow> (goerr + nat) \<times> FakeConn" where
  "FakeConn_Subscribe destination c =
     (case fc_SubscribeErr c of
        Some e \<Rightarrow> (Inl e, c)
      | None \<Rightarrow>
          (let sub = length (fc_Subs c) in
           (Inr sub,
            c\<lparr>fc_Subs := fc_Subs c @ [newFakeSub destination],
              fc_subsByDest := (fc_subsByDest c)(destination \<mapsto> sub)\<rparr>)))"

definition FakeConn_Disconnect :: "FakeConn \<Rightarrow> goerr option \<times> FakeConn" where
  "FakeConn_Disconnect c = (fc_DisconnectErr c, c\<lparr>fc_disconnected := True\<rparr>)"

definition WasDisconnected :: "FakeConn \<Rightarrow> bool" where
  "WasDisconnected c = fc_disconnected c"

definition SubForDest :: "string \<Rightarrow> FakeConn \<Rightarrow> nat option" where
  "SubForDest dest c = fc_subsByDest c dest"

definition LastSend :: "FakeConn \<Rightarrow> goerr + SendRecord" where
  "LastSend c =
     (if fc_Sends c = [] then Inl (Errorf ''no sends recorded'' [] [])
      else Inr (fc_Sends c ! (length (fc_Sends c) - 1)))"

definition AllSends :: "FakeConn \<Rightarrow> SendRecord list" where
  "AllSends c = fc_Sends c"

section \<open>The subscription\<close>

text \<open>\<open>closeOnce.Do(close(ch))\<close>: only the first of Unsubscribe and Close closes the channel.\<close>

definition close_once :: "FakeSub \<Rightarrow> FakeSub" where
  "close_once s = (if fs_closeOnce s then s else s\<lparr>fs_closeOnce := True, fs_ch := close_chan (fs_ch s)\<rparr>)"

definition FakeSub_Unsubscribe :: "FakeSub \<Rightarrow> goerr option \<times> FakeSub" where
  "FakeSub_Unsubscribe s = (None, close_once (s\<lparr>fs_unsubCalled := True\<rparr>))"

definition WasUnsubscribed :: "FakeSub \<Rightarrow> bool" where
  "WasUnsubscribed s = fs_unsubCalled s"

text \<open>\<open>Push\<close> blocks, here \<open>None\<close>, on a full buffer, and panics on a closed channel.\<close>

definition FakeSub_Push :: "Msg \<Rightarrow> FakeSub \<Rightarrow> FakeSub outcome option" where
  "FakeSub_Push msg s =
     (case try_send msg (fs_ch s) of
        Sent c \<Rightarrow> Some (Ret (s\<lparr>fs_ch := c\<rparr>))
      | WouldBlock \<Rightarrow> None
      | SendOnClosed \<Rightarrow> Some (PanicRuntime ''send on closed channel''))"

definition FakeSub_Close :: "FakeSub \<Rightarrow> FakeSub" where
  "FakeSub_Close s = close_once s"

section \<open>The table of methods\<close>

text \<open>What a test does to the subscription a client waits on. A Push that would panic is no event.\<close>

datatype fake_event = EvPush Msg | EvClose

fun fake_event_step :: "fake_event \<Rightarrow> FakeSub \<Rightarrow> FakeSub" where
  "fake_event_step (EvPush m) s = (case FakeSub_Push m s of Some (Ret s') \<Rightarrow> s' | _ \<Rightarrow> s)"
| "fake_event_step EvClose s = FakeSub_Close s"

definition fake_wait ::
  "fake_event list \<Rightarrow> goerr option \<Rightarrow> bool \<Rightarrow> nat \<Rightarrow> FakeConn \<Rightarrow> (select_result \<times> FakeConn) option" where
  "fake_wait evs cdone pick i c =
     (let s = fold fake_event_step evs (fc_Subs c ! i) in
      case select_reply pick cdone (fs_ch s) of
        None \<Rightarrow> None
      | Some (res, ch) \<Rightarrow> Some (res, c\<lparr>fc_Subs := (fc_Subs c)[i := s\<lparr>fs_ch := ch\<rparr>]\<rparr>))"

definition fake_ops :: "fake_event list \<Rightarrow> goerr option \<Rightarrow> bool \<Rightarrow> (FakeConn, nat) Conn" where
  "fake_ops evs cdone pick =
     \<lparr>conn_Send = (\<lambda>ctx. FakeConn_Send),
      conn_Subscribe = (\<lambda>ctx. FakeConn_Subscribe),
      conn_Disconnect = (\<lambda>c. Some (FakeConn_Disconnect c)),
      sub_Unsubscribe = (\<lambda>i c.
        case FakeSub_Unsubscribe (fc_Subs c ! i) of
          (err, s) \<Rightarrow> (Ret err, c\<lparr>fc_Subs := (fc_Subs c)[i := s]\<rparr>)),
      wait_reply = (\<lambda>ctx. fake_wait evs cdone pick)\<rparr>"

section \<open>It keeps the promises of a connection\<close>

definition record_frame :: "SendRecord \<Rightarrow> send_frame" where
  "record_frame x = \<lparr>sf_dest = sr_Destination x, sf_ctype = sr_ContentType x,
     sf_body = sr_Body x, sf_headers = sr_Headers x\<rparr>"

definition fake_sent :: "FakeConn \<Rightarrow> send_frame list" where
  "fake_sent c = map record_frame (fc_Sends c)"

definition fake_subscribed :: "FakeConn \<Rightarrow> (nat \<times> string) list" where
  "fake_subscribed c = enumerate 0 (map fs_dest (fc_Subs c))"

definition fake_cancelled :: "FakeConn \<Rightarrow> nat set" where
  "fake_cancelled c = {i. i < length (fc_Subs c) \<and> fs_unsubCalled (fc_Subs c ! i)}"

text \<open>The channel of a subscription is closed exactly when its \<open>closeOnce\<close> has run, so never twice.\<close>

definition fake_inv :: "FakeConn \<Rightarrow> bool" where
  "fake_inv c \<longleftrightarrow> (\<forall>s \<in> set (fc_Subs c). (fs_closeOnce s \<longleftrightarrow> ch_closed (fs_ch s))
     \<and> chan_ok (fs_ch s) \<and> (fs_unsubCalled s \<longrightarrow> fs_closeOnce s))"

lemma fake_subscribed_fst [simp]: "i \<in> fst ` set (fake_subscribed c) \<longleftrightarrow> i < length (fc_Subs c)"
  by (simp add: fake_subscribed_def flip: list.set_map)

lemma fake_event_keeps:
  "fs_dest (fake_event_step ev s) = fs_dest s \<and> fs_unsubCalled (fake_event_step ev s) = fs_unsubCalled s"
  by (cases ev) (auto simp: FakeSub_Push_def FakeSub_Close_def close_once_def
      split: option.splits outcome.splits send_result.splits)

lemma fake_events_keep:
  "fs_dest (fold fake_event_step evs s) = fs_dest s
   \<and> fs_unsubCalled (fold fake_event_step evs s) = fs_unsubCalled s"
  by (induction evs arbitrary: s) (simp_all add: fake_event_keeps)

definition fake_sub_ok :: "FakeSub \<Rightarrow> bool" where
  "fake_sub_ok s \<longleftrightarrow> (fs_closeOnce s \<longleftrightarrow> ch_closed (fs_ch s)) \<and> chan_ok (fs_ch s)
     \<and> (fs_unsubCalled s \<longrightarrow> fs_closeOnce s)"

lemma fake_inv_alt: "fake_inv c \<longleftrightarrow> (\<forall>s \<in> set (fc_Subs c). fake_sub_ok s)"
  by (auto simp: fake_inv_def fake_sub_ok_def)

lemma fake_sub_ok_event: "fake_sub_ok s \<Longrightarrow> fake_sub_ok (fake_event_step ev s)"
  by (cases ev) (auto simp: fake_sub_ok_def FakeSub_Push_def FakeSub_Close_def close_once_def chan_simps chan_ok_def
      split: option.splits outcome.splits send_result.splits)

lemma fake_sub_ok_events: "fake_sub_ok s \<Longrightarrow> fake_sub_ok (fold fake_event_step evs s)"
  by (induction evs arbitrary: s) (simp_all add: fake_sub_ok_event)

lemma select_reply_ok: "chan_ok c \<Longrightarrow> select_reply pick cdone c = Some (res, c') \<Longrightarrow> chan_ok c'"
  by (auto simp: select_reply_def Let_def chan_simps chan_ok_def split: recv_result.splits option.splits if_splits)

lemma map_update_same: "i < length xs \<Longrightarrow> f y = f (xs ! i) \<Longrightarrow> map f (xs[i := y]) = map f xs"
  by (simp add: map_update list_update_same_conv)

lemma fake_inv_update: "fake_inv c \<Longrightarrow> fake_sub_ok s \<Longrightarrow> fake_inv (c\<lparr>fc_Subs := (fc_Subs c)[i := s]\<rparr>)"
  by (auto simp: fake_inv_alt dest!: set_update_subset_insert [THEN subsetD])

interpretation fake: transport_conn "fake_ops evs cdone pick" fake_sent fake_subscribed fake_cancelled fake_inv
  for evs cdone pick
proof (unfold_locales, goal_cases)
  case (1 w ctx d ct b hs w')
  then show ?case
    by (auto simp: fake_ops_def FakeConn_Send_def Let_def fake_sent_def fake_subscribed_def fake_cancelled_def
      fake_inv_def record_frame_def split: option.splits if_splits)
next
  case (2 w ctx d ct b hs e w')
  then show ?case by (simp add: fake_ops_def FakeConn_Send_def Let_def)
next
  case (3 w ctx d s w')
  then have "s = length (fc_Subs w)" "w' = w\<lparr>fc_Subs := fc_Subs w @ [newFakeSub d],
      fc_subsByDest := (fc_subsByDest w)(d \<mapsto> s)\<rparr>"
    by (auto simp: fake_ops_def FakeConn_Subscribe_def Let_def split: option.splits)
  with 3(1) show ?case
    by (auto simp: fake_sent_def fake_subscribed_def fake_cancelled_def fake_inv_def newFakeSub_def
      enumerate_append_eq nth_append simp flip: list.set_map)
next
  case (4 w ctx d e w')
  then show ?case by (auto simp: fake_ops_def FakeConn_Subscribe_def Let_def split: option.splits)
next
  case (5 w s r w')
  then have s: "s < length (fc_Subs w)" by simp
  let ?u = "close_once ((fc_Subs w ! s)\<lparr>fs_unsubCalled := True\<rparr>)"
  from 5 have w': "w' = w\<lparr>fc_Subs := (fc_Subs w)[s := ?u]\<rparr>"
    by (simp add: fake_ops_def FakeSub_Unsubscribe_def)
  have u: "fs_dest ?u = fs_dest (fc_Subs w ! s)" "fs_unsubCalled ?u" by (simp_all add: close_once_def)
  from 5(1) s have "fake_sub_ok (fc_Subs w ! s)" by (simp add: fake_inv_alt)
  then have "fake_sub_ok ?u" by (auto simp: fake_sub_ok_def close_once_def chan_ok_def)
  with 5(1) s u show ?case
    by (auto simp: w' fake_inv_update fake_sent_def fake_subscribed_def map_update_same fake_cancelled_def
      nth_list_update)
next
  case (6 w s ctx res w')
  then have s: "s < length (fc_Subs w)" by simp
  let ?e = "fold fake_event_step evs (fc_Subs w ! s)"
  from 6 obtain ch where sel: "select_reply pick cdone (fs_ch ?e) = Some (res, ch)"
    and w': "w' = w\<lparr>fc_Subs := (fc_Subs w)[s := ?e\<lparr>fs_ch := ch\<rparr>]\<rparr>"
    by (auto simp: fake_ops_def fake_wait_def Let_def split: option.splits)
  from 6(1) s have "fake_sub_ok ?e" by (simp add: fake_inv_alt fake_sub_ok_events)
  with select_reply_closed [OF sel] select_reply_ok [OF _ sel] have "fake_sub_ok (?e\<lparr>fs_ch := ch\<rparr>)"
    by (auto simp: fake_sub_ok_def)
  with 6(1) s show ?case
    by (auto simp: w' fake_inv_update fake_sent_def fake_subscribed_def map_update_same fake_events_keep
      fake_cancelled_def nth_list_update)
next
  case (7 w err w')
  then show ?case
    by (auto simp: fake_ops_def FakeConn_Disconnect_def fake_sent_def fake_subscribed_def fake_cancelled_def fake_inv_def)
qed

end
