(* ===== verification/Reqresp.thy ===== *)
theory Reqresp
  imports Topics GoLib FakeTransport
begin

text \<open>
  The package internal/reqresp: one request and its correlated reply over a connection. The routine
  is written over the table of methods of \<open>Conn\<close>; its lemmas are proved once from the promises of
  the interface \<open>transport_conn\<close> and reach every transport through its interpretation.
\<close>

section \<open>GetResponse\<close>

text \<open>The deferred Unsubscribe: its error is dropped, its panic replaces the result.\<close>

definition deferred_unsubscribe ::
  "('w, 's) Conn \<Rightarrow> 's \<Rightarrow> (goerr + bytes) \<Rightarrow> 'w \<Rightarrow> (goerr + bytes) outcome \<times> 'w" where
  "deferred_unsubscribe ops s res w =
     (case sub_Unsubscribe ops s w of
        (Ret _, w') \<Rightarrow> (Ret res, w')
      | (PanicRuntime m, w') \<Rightarrow> (PanicRuntime m, w')
      | (PanicOther m, w') \<Rightarrow> (PanicOther m, w'))"

definition bareReply :: "bytes \<Rightarrow> string" where
  "bareReply nonce = ''reply.'' @ hex_EncodeToString nonce"

definition queueReply :: "bytes \<Rightarrow> string" where
  "queueReply nonce = ''/queue/'' @ bareReply nonce"

definition reply_result :: "select_result \<Rightarrow> goerr + bytes" where
  "reply_result res =
     (case res of
        GotClosed \<Rightarrow> Inl (Errorf ''reqresp: reply subscription closed before response arrived'' [] [])
      | GotMsg msg \<Rightarrow>
          (case Err msg of
             Some e \<Rightarrow> Inl (Errorf ''reqresp: reply subscription error: %w'' [] [e])
           | None \<Rightarrow> Inr (Body msg))
      | GotCtxDone e \<Rightarrow> Inl (Errorf ''reqresp: context cancelled waiting for reply: %w'' [] [e]))"

text \<open>
  \<open>rnd\<close> is the result of \<open>rand.Read\<close> of eight bytes. \<open>None\<close> is a call that never returns: neither a
  reply, nor the close of the subscription, nor the end of the context.
\<close>

definition GetResponse ::
  "('w, 's) Conn \<Rightarrow> (goerr + bytes) \<Rightarrow> gocontext \<Rightarrow> string \<Rightarrow> string \<Rightarrow> bytes \<Rightarrow> headers \<Rightarrow> 'w \<Rightarrow>
     ((goerr + bytes) outcome \<times> 'w) option" where
  "GetResponse ops rnd ctx dest contentType body baseHeaders w =
     (case rnd of
        Inl err \<Rightarrow> Some (Ret (Inl (Errorf ''reqresp: generating reply nonce: %w'' [] [err])), w)
      | Inr nonce \<Rightarrow>
          (case conn_Subscribe ops ctx (queueReply nonce) w of
             (Inl err, w1) \<Rightarrow>
               Some (Ret (Inl (Errorf ''reqresp: subscribe reply destination %q: %w'' [StrArg (queueReply nonce)] [err])), w1)
           | (Inr sub, w1) \<Rightarrow>
               (let headers = baseHeaders(HeaderReplyTo \<mapsto> bareReply nonce);
                    normDest = NormalizeDestination dest in
                case conn_Send ops ctx normDest contentType body headers w1 of
                  (Some err, w2) \<Rightarrow>
                    Some (deferred_unsubscribe ops sub (Inl (Errorf ''reqresp: send to %q: %w'' [StrArg normDest] [err])) w2)
                | (None, w2) \<Rightarrow>
                    (case wait_reply ops ctx sub w2 of
                       None \<Rightarrow> None
                     | Some (res, w3) \<Rightarrow> Some (deferred_unsubscribe ops sub (reply_result res) w3)))))"

section \<open>Calls as a log\<close>

text \<open>
  A connection that writes down every call made through its table, whatever the connection behind it
  does: the order of the calls a routine makes is read off the log.
\<close>

datatype 's conn_call =
    CallSubscribe gocontext string
  | CallSend gocontext string string bytes headers
  | CallWait gocontext 's
  | CallUnsubscribe 's
  | CallDisconnect

definition log_ops :: "('w, 's) Conn \<Rightarrow> ('w \<times> 's conn_call list, 's) Conn" where
  "log_ops ops =
     \<lparr>conn_Send = (\<lambda>ctx d ct b hs (w, l).
        case conn_Send ops ctx d ct b hs w of (r, w') \<Rightarrow> (r, w', l @ [CallSend ctx d ct b hs])),
      conn_Subscribe = (\<lambda>ctx d (w, l).
        case conn_Subscribe ops ctx d w of (r, w') \<Rightarrow> (r, w', l @ [CallSubscribe ctx d])),
      conn_Disconnect = (\<lambda>(w, l).
        case conn_Disconnect ops w of None \<Rightarrow> None | Some (r, w') \<Rightarrow> Some (r, w', l @ [CallDisconnect])),
      sub_Unsubscribe = (\<lambda>s (w, l).
        case sub_Unsubscribe ops s w of (r, w') \<Rightarrow> (r, w', l @ [CallUnsubscribe s])),
      wait_reply = (\<lambda>ctx s (w, l).
        case wait_reply ops ctx s w of None \<Rightarrow> None | Some (r, w') \<Rightarrow> Some (r, w', l @ [CallWait ctx s]))\<rparr>"

section \<open>What follows from the promises of a connection\<close>

context transport_conn
begin

lemma deferred_unsubscribe_cancels:
  assumes "invar w" "s \<in> fst ` set (subscribed w)" "deferred_unsubscribe ops s res w = (out, w')"
  shows "invar w' \<and> sent w' = sent w \<and> subscribed w' = subscribed w \<and> cancelled w' = insert s (cancelled w)"
proof -
  obtain r w1 where u: "sub_Unsubscribe ops s w = (r, w1)" by fastforce
  with assms(3) have "w' = w1" by (auto simp: deferred_unsubscribe_def split: outcome.splits)
  with unsubscribe_any [OF assms(1,2) u] show ?thesis by simp
qed

text \<open>
  A call that returns has made no subscription, or one, new, on its reply queue, which it has
  cancelled again; it has handed over at most its one request.
\<close>

lemma GetResponse_effect:
  assumes "invar w" "GetResponse ops rnd ctx dest ct body hs w = Some (out, w')"
  shows "invar w' \<and>
    (sent w' = sent w \<and> subscribed w' = subscribed w \<and> cancelled w' = cancelled w
     \<or> (\<exists>nonce s. rnd = Inr nonce \<and> s \<notin> fst ` set (subscribed w)
         \<and> subscribed w' = subscribed w @ [(s, queueReply nonce)] \<and> cancelled w' = insert s (cancelled w)
         \<and> (sent w' = sent w \<or>
            sent w' = sent w @ [\<lparr>sf_dest = NormalizeDestination dest, sf_ctype = ct, sf_body = body,
              sf_headers = hs(HeaderReplyTo \<mapsto> bareReply nonce)\<rparr>])))"
proof (cases rnd)
  case (Inl err)
  with assms show ?thesis by (simp add: GetResponse_def)
next
  case rnd: (Inr nonce)
  obtain r w1 where sub: "conn_Subscribe ops ctx (queueReply nonce) w = (r, w1)" by fastforce
  show ?thesis
  proof (cases r)
    case (Inl err)
    with subscribe_err [OF assms(1)] sub rnd assms(2) show ?thesis by (auto simp: GetResponse_def)
  next
    case (Inr s)
    note S = subscribe_ok [OF assms(1) sub [unfolded Inr]]
    let ?hs = "hs(HeaderReplyTo \<mapsto> bareReply nonce)"
    obtain e w2 where snd: "conn_Send ops ctx (NormalizeDestination dest) ct body ?hs w1 = (e, w2)" by fastforce
    show ?thesis
    proof (cases e)
      case (Some err)
      note E = send_err [OF _ snd [unfolded Some]]
      from rnd sub Inr snd Some assms(2) have
        "deferred_unsubscribe ops s (Inl (Errorf ''reqresp: send to %q: %w'' [StrArg (NormalizeDestination dest)] [err])) w2
          = (out, w')" by (simp add: GetResponse_def)
      with deferred_unsubscribe_cancels [of w2 s _ out w'] S E rnd show ?thesis by auto
    next
      case None
      note E = send_ok [OF _ snd [unfolded None]]
      from rnd sub Inr snd None assms(2) obtain res w3 where
        wt: "wait_reply ops ctx s w2 = Some (res, w3)"
        and fin: "deferred_unsubscribe ops s (reply_result res) w3 = (out, w')"
        by (auto simp: GetResponse_def split: option.splits)
      have "s \<in> fst ` set (subscribed w2)" using S E by (auto simp: image_iff)
      from wait_frame [OF _ this wt] deferred_unsubscribe_cancels [OF _ _ fin] S E rnd this
      show ?thesis by auto
    qed
  qed
qed

end

section \<open>Properties\<close>

text \<open>
  C10: GetResponse makes its calls in one order, over any connection: it subscribes to its reply queue
  before it sends, sends the one request to the normalised destination with the bare reply name,
  waits, and unsubscribes last on every path on which it subscribed; a failed Subscribe is followed by
  no other call, and a failed nonce by none at all.
\<close>

theorem GetResponse_call_order:
  assumes "GetResponse (log_ops ops) rnd ctx dest ct body hs (w, []) = Some (out, w', l)"
  shows "(case rnd of
      Inl e \<Rightarrow> l = []
    | Inr nonce \<Rightarrow>
       (let sub = CallSubscribe ctx (queueReply nonce);
            req = CallSend ctx (NormalizeDestination dest) ct body (hs(HeaderReplyTo \<mapsto> bareReply nonce)) in
        case fst (conn_Subscribe ops ctx (queueReply nonce) w) of
          Inl e \<Rightarrow> l = [sub]
        | Inr s \<Rightarrow> l = [sub, req, CallUnsubscribe s] \<or> l = [sub, req, CallWait ctx s, CallUnsubscribe s]))"
  using assms
  by (auto simp: GetResponse_def deferred_unsubscribe_def log_ops_def Let_def
    split: sum.splits prod.splits option.splits outcome.splits)

text \<open>The fake connection of a fresh test, and a nonce.\<close>

definition nonce1 :: bytes where
  "nonce1 = [CHR ''a'', CHR ''b'', CHR ''c'', CHR ''d'', CHR ''e'', CHR ''f'', CHR ''g'', CHR ''h'']"

definition reply1 :: Msg where
  "reply1 = \<lparr>Body = ''ok'', Destination = ''/queue/reply.6162636465666768'', Err = None\<rparr>"

lemmas reqresp_eval =
  GetResponse_def deferred_unsubscribe_def reply_result_def fake_ops_def log_ops_def FakeConn_Send_def
  FakeConn_Subscribe_def fake_wait_def FakeSub_Unsubscribe_def close_once_def newFakeSub_def NewFakeConn_def
  FakeSub_Push_def FakeSub_Close_def select_reply_def try_recv_def try_send_def make_chan_def close_chan_def
  Let_def

theorem GetResponse_call_order_witness:
  "\<exists>out w' l. GetResponse (log_ops (fake_ops [EvPush reply1] None True)) (Inr nonce1) (CallerCtx None)
       ''goss.q'' ''text/plain'' ''hi'' Map.empty (NewFakeConn, []) = Some (out, w', l)
     \<and> l ! 0 = CallSubscribe (CallerCtx None) (queueReply nonce1) \<and> last l = CallUnsubscribe 0"
proof -
  let ?ops = "fake_ops [EvPush reply1] None True"
  obtain out w' l where run: "GetResponse (log_ops ?ops) (Inr nonce1) (CallerCtx None)
       ''goss.q'' ''text/plain'' ''hi'' Map.empty (NewFakeConn, []) = Some (out, w', l)"
    by (simp add: reqresp_eval reply1_def)
  have "fst (conn_Subscribe ?ops (CallerCtx None) (queueReply nonce1) NewFakeConn) = Inr 0"
    by (simp add: reqresp_eval)
  with GetResponse_call_order [OF run] run show ?thesis by (auto simp: Let_def)
qed

lemma fake_subscribed_snoc:
  assumes "fake_subscribed w' = fake_subscribed w @ [(s, q)]"
  shows "s = length (fc_Subs w)" "length (fc_Subs w') = Suc (length (fc_Subs w))"
proof -
  have len: "length (fake_subscribed c) = length (fc_Subs c)" for c by (simp add: fake_subscribed_def)
  show l: "length (fc_Subs w') = Suc (length (fc_Subs w))"
    using arg_cong [OF assms, of length] by (simp add: len)
  have "fake_subscribed w' ! length (fc_Subs w) = (s, q)" using assms by (simp add: nth_append len)
  with l show "s = length (fc_Subs w)" by (simp add: fake_subscribed_def nth_enumerate_eq)
qed

text \<open>
  GetResponse leaks no subscription: over the transport of the tests, whatever arrives while it
  waits and whichever way the call ends, every subscription that was not there before is on the
  reply queue of its own nonce and has been unsubscribed, and at most the one request was sent.
\<close>

lemma GetResponse_no_leak:
  assumes "fake_inv w" "GetResponse (fake_ops evs cdone pick) rnd ctx dest ct body hs w = Some (out, w')"
  shows "fake_inv w' \<and> (\<forall>i < length (fc_Subs w'). i < length (fc_Subs w) \<or> fs_unsubCalled (fc_Subs w' ! i))
    \<and> length (fc_Sends w') \<le> length (fc_Sends w) + 1
    \<and> (\<forall>i < length (fc_Subs w). fs_unsubCalled (fc_Subs w' ! i) = fs_unsubCalled (fc_Subs w ! i))"
proof -
  note eff = fake.GetResponse_effect [OF assms]
  have len: "length (fake_subscribed c) = length (fc_Subs c)" "length (fake_sent c) = length (fc_Sends c)" for c
    by (simp_all add: fake_subscribed_def fake_sent_def)
  have memb: "i \<in> fake_cancelled c \<longleftrightarrow> i < length (fc_Subs c) \<and> fs_unsubCalled (fc_Subs c ! i)" for i c
    by (simp add: fake_cancelled_def)
  from eff consider
      (none) "fake_sent w' = fake_sent w" "fake_subscribed w' = fake_subscribed w" "fake_cancelled w' = fake_cancelled w"
    | (one) q where "fake_subscribed w' = fake_subscribed w @ [(length (fc_Subs w), q)]"
        "fake_cancelled w' = insert (length (fc_Subs w)) (fake_cancelled w)"
        "length (fake_sent w') \<le> length (fake_sent w) + 1"
    using fake_subscribed_snoc [of w' w] eff by fastforce
  then show ?thesis
  proof cases
    case none
    then have "length (fc_Subs w') = length (fc_Subs w)" "length (fc_Sends w') = length (fc_Sends w)"
      using len by metis+
    with none(3) eff memb show ?thesis by (metis le_add1)
  next
    case one
    note fake_subscribed_snoc(2) [OF one(1)]
    with one(2,3) eff len memb show ?thesis by (metis insert_iff less_antisym less_irrefl less_SucI)
  qed
qed

lemma fake_GetResponse:
  assumes "fc_SubscribeErr w = None"
    and sel: "select_reply pick cdone (fs_ch (fold fake_event_step evs (newFakeSub (queueReply nonce)))) = Some (res, ch)"
  shows "\<exists>w'. GetResponse (fake_ops evs cdone pick) (Inr nonce) ctx dest ct body hs w = Some (Ret (reply_result res), w')"
proof -
  let ?q = "queueReply nonce"
  obtain c1 where c1: "FakeConn_Subscribe ?q w = (Inr (length (fc_Subs w)), c1)" "fc_Subs c1 = fc_Subs w @ [newFakeSub ?q]"
    using assms(1) by (simp add: FakeConn_Subscribe_def Let_def)
  obtain c2 where c2: "FakeConn_Send (NormalizeDestination dest) ct body (hs(HeaderReplyTo \<mapsto> bareReply nonce)) c1 = (None, c2)"
    "fc_Subs c2 = fc_Subs c1"
    by (simp add: FakeConn_Send_def Let_def split: option.splits)
  obtain c3 where "fake_wait evs cdone pick (length (fc_Subs w)) c2 = Some (res, c3)"
    using sel c1(2) c2(2) by (simp add: fake_wait_def)
  with c1(1) c2(1) show ?thesis
    by (simp add: GetResponse_def deferred_unsubscribe_def fake_ops_def Let_def split: prod.splits)
qed

lemma first_message_stays:
  assumes "\<exists>vs. ch_buf (fs_ch s) = m # vs"
  shows "\<exists>vs. ch_buf (fs_ch (fold fake_event_step evs s)) = m # vs"
  using assms
proof (induction evs arbitrary: s)
  case (Cons ev evs)
  have "\<exists>vs. ch_buf (fs_ch (fake_event_step ev s)) = m # vs"
    using Cons.prems by (cases ev) (auto simp: FakeSub_Push_def FakeSub_Close_def close_once_def chan_simps
        split: option.splits outcome.splits send_result.splits)
  with Cons.IH show ?case by simp
qed simp

text \<open>
  Correlation: the first message on its own reply subscription is the answer. Whatever else
  arrives after it on that subscription and even if it is closed then, GetResponse returns, with the
  body of the first message when it carries no error, and with its error, wrapped, when it does.
\<close>

lemma GetResponse_first_reply:
  assumes "fc_SubscribeErr w = None"
  shows "\<exists>w'. GetResponse (fake_ops (EvPush m # evs) None pick) (Inr nonce) ctx dest ct body hs w =
    Some (Ret (case Err m of None \<Rightarrow> Inr (Body m)
      | Some e \<Rightarrow> Inl (Errorf ''reqresp: reply subscription error: %w'' [] [e])), w')"
proof -
  let ?s = "fold fake_event_step (EvPush m # evs) (newFakeSub (queueReply nonce))"
  have "\<exists>vs. ch_buf (fs_ch ?s) = m # vs"
    using first_message_stays [of "fake_event_step (EvPush m) (newFakeSub (queueReply nonce))" m evs]
    by (simp add: FakeSub_Push_def newFakeSub_def try_send_def make_chan_def)
  then obtain ch where "select_reply pick None (fs_ch ?s) = Some (GotMsg m, ch)"
    by (auto simp: select_reply_def try_recv_def simp del: fold.simps)
  from fake_GetResponse [OF assms this] show ?thesis by (simp add: reply_result_def del: fold.simps)
qed

text \<open>
  A call whose context ends before any reply returns an error that matches the context's, over
  the transport of the tests, where the end of the context leaves the reply channel open.
\<close>

lemma GetResponse_ctx_error:
  assumes "fc_SubscribeErr w = None" "leaf_err cause"
  shows "\<exists>w' e. GetResponse (fake_ops [] (Some cause) pick) (Inr nonce) ctx dest ct body hs w = Some (Ret (Inl e), w')
    \<and> errors_Is e cause"
proof -
  have "\<exists>ch. select_reply pick (Some cause) (fs_ch (fold fake_event_step [] (newFakeSub (queueReply nonce)))) =
    Some (GotCtxDone cause, ch)"
    by (simp add: select_reply_def newFakeSub_def try_recv_def make_chan_def)
  then obtain ch where
    "select_reply pick (Some cause) (fs_ch (fold fake_event_step [] (newFakeSub (queueReply nonce)))) =
      Some (GotCtxDone cause, ch)" ..
  from fake_GetResponse [OF assms(1) this, of ctx dest ct body hs] obtain w' where
    "GetResponse (fake_ops [] (Some cause) pick) (Inr nonce) ctx dest ct body hs w =
      Some (Ret (Inl (Errorf ''reqresp: context cancelled waiting for reply: %w'' [] [cause])), w')"
    by (auto simp: reply_result_def)
  moreover have "errors_Is (Errorf ''reqresp: context cancelled waiting for reply: %w'' [] [cause]) cause"
    using assms(2) by simp
  ultimately show ?thesis by blast
qed

text \<open>
  Two calls with different nonces use different reply queues and different reply names, and the
  reply queue is the name the reply-to header carries, queue-normalised: a responder that answers to
  the normalised reply-to answers to the subscription, and to no other call's.
\<close>

lemma reply_queue_correlates:
  "(queueReply n1 = queueReply n2 \<longleftrightarrow> n1 = n2) \<and> (bareReply n1 = bareReply n2 \<longleftrightarrow> n1 = n2)
   \<and> NormalizeDestination (bareReply n1) = queueReply n1 \<and> NormalizeDestination (queueReply n1) = queueReply n1
   \<and> length (bareReply n1) = 6 + 2 * length n1"
  by (simp add: queueReply_def bareReply_def hex.encode_inj NormalizeDestination_def HasPrefix_def)

end
