(* ===== verification/Stomp.thy ===== *)
theory Stomp
  imports StompBridge Reqresp
begin

text \<open>
  The package internal/stomp: the dialer, the connection over go-stomp with the gate that orders
  Unsubscribe against Disconnect, and the connection as a provider of \<open>transport_conn\<close>. go-stomp
  itself is a table of its calls over a state \<open>'g\<close> of its own; nothing is assumed of it beyond the
  types of those calls.
\<close>

section \<open>go-stomp and the transport under it\<close>

datatype conn_opt =
    OptLogin string string
  | OptHeartBeat duration duration
  | OptDisconnectReceiptTimeout duration

text \<open>
  \<open>gs_Connect\<close> sees the deadline in force on the transport. \<open>gs_Disconnect\<close> also tells whether the
  timer of the caller fired before it returned, which depends on how long it took.
\<close>

record 'g gostomp =
  gs_Connect :: "int option \<Rightarrow> conn_opt list \<Rightarrow> 'g \<Rightarrow> goerr option \<times> 'g"
  gs_Send :: "string \<Rightarrow> string \<Rightarrow> bytes \<Rightarrow> headers \<Rightarrow> 'g \<Rightarrow> goerr option \<times> 'g"
  gs_Subscribe :: "string \<Rightarrow> 'g \<Rightarrow> (goerr + nat) \<times> 'g"
  gs_Unsubscribe :: "nat \<Rightarrow> 'g \<Rightarrow> goerr option outcome \<times> 'g"
  gs_Disconnect :: "'g \<Rightarrow> (goerr option \<times> bool) \<times> 'g"
  gs_MustDisconnect :: "'g \<Rightarrow> goerr option \<times> 'g"

text \<open>The \<open>io.ReadWriteCloser\<close>: whether it takes deadlines, and those it was given.\<close>

record rwc =
  rw_deadliner :: bool
  rw_deadline :: "int option"
  rw_closed :: bool

section \<open>The dialer\<close>

definition DefaultHeartBeat :: duration where
  "DefaultHeartBeat = 10 * second"

record Dialer =
  disconnectBound :: duration

definition WithDisconnectBound :: "duration \<Rightarrow> Dialer \<Rightarrow> Dialer" where
  "WithDisconnectBound bnd d = d\<lparr>disconnectBound := bnd\<rparr>"

definition resolveHeartBeat :: "ConnConfig \<Rightarrow> duration \<times> duration" where
  "resolveHeartBeat cfg =
     (case HeartBeats cfg of
        Some hbs \<Rightarrow> (hb_Send hbs, hb_Recv hbs)
      | None \<Rightarrow>
          (let hb = HeartBeat cfg;
               hb' = (if hb = 0 then DefaultHeartBeat else hb) in
           (hb', hb')))"

text \<open>Go's integer division by two rounds towards zero.\<close>

definition half :: "duration \<Rightarrow> duration" where
  "half d = (if 0 \<le> d then d div 2 else - ((- d) div 2))"

text \<open>The connection; its subscriptions are addressed by position.\<close>

record 'g sconn =
  sc_c :: 'g
  sc_rwc :: rwc
  sc_bound :: duration
  sc_closeAfter :: duration
  sc_closing :: bool
  sc_unsubs :: nat
  sc_ended :: bool
  sc_subs :: "ssub list"
  sc_sent :: "send_frame list"

definition dial_opts :: "Dialer \<Rightarrow> ConnConfig \<Rightarrow> conn_opt list" where
  "dial_opts d cfg =
     (let (sendHB, recvHB) = resolveHeartBeat cfg in
      [OptLogin (Login cfg) (Passcode cfg), OptHeartBeat sendHB recvHB]
      @ (if 0 < disconnectBound d then [OptDisconnectReceiptTimeout (disconnectBound d)] else []))"

definition Dial ::
  "'g gostomp \<Rightarrow> Dialer \<Rightarrow> int \<Rightarrow> gocontext \<Rightarrow> ConnConfig \<Rightarrow> 'g \<Rightarrow> rwc \<Rightarrow> (goerr + 'g sconn) \<times> rwc" where
  "Dial gs d now ctx cfg g rw =
     (let dl = (if rw_deadliner rw then ctx_Deadline now ctx else None);
          rw1 = (case dl of None \<Rightarrow> rw | Some t \<Rightarrow> rw\<lparr>rw_deadline := Some t\<rparr>);
          (err, g1) = gs_Connect gs (rw_deadline rw1) (dial_opts d cfg) g;
          rw2 = (case dl of None \<Rightarrow> rw1 | Some _ \<Rightarrow> rw1\<lparr>rw_deadline := None\<rparr>) in
      case err of
        Some e \<Rightarrow> (Inl (Errorf ''stomp connect: %w'' [] [e]), rw2)
      | None \<Rightarrow>
          (Inr \<lparr>sc_c = g1, sc_rwc = rw2, sc_bound = disconnectBound d, sc_closeAfter = half (disconnectBound d),
             sc_closing = False, sc_unsubs = 0, sc_ended = False, sc_subs = [], sc_sent = []\<rparr>, rw2))"

section \<open>The gate\<close>

text \<open>
  \<open>unsubGate\<close>: an Unsubscribe registers before it calls go-stomp and is refused once Disconnect has
  begun. The laws say what a gate does to the number of registered calls; the client's lemma is that
  a call leaves the gate as it found it, also when go-stomp panics.
\<close>

locale unsub_gate =
  fixes enter :: "'c \<Rightarrow> bool \<times> 'c"
    and leave :: "'c \<Rightarrow> 'c"
    and mark :: "'c \<Rightarrow> 'c"
    and pend :: "'c \<Rightarrow> nat"
    and shut :: "'c \<Rightarrow> bool"
  assumes enter_shut: "shut c \<Longrightarrow> enter c = (False, c)"
    and enter_open: "\<not> shut c \<Longrightarrow> enter c = (ok, c') \<Longrightarrow> ok \<and> pend c' = pend c + 1 \<and> \<not> shut c'"
    and leave_pend: "pend (leave c) = pend c - 1 \<and> shut (leave c) = shut c"
    and mark_keeps: "pend (mark c) = pend c \<and> shut (mark c) = shut c"
begin

lemma gate_balanced:
  assumes "enter c = (True, c1)" "pend c2 = pend c1" "shut c2 = shut c1"
  shows "pend (leave c2) = pend c \<and> shut (leave c2) = shut c"
  using assms enter_shut [of c] enter_open [of c True c1] leave_pend [of c2] by (cases "shut c") auto

lemma gate_refuses: "enter c = (False, c1) \<longleftrightarrow> shut c \<and> c1 = c"
  using enter_shut [of c] enter_open [of c False c1] by (cases "shut c") auto

end

definition beginUnsubscribe :: "'g sconn \<Rightarrow> bool \<times> 'g sconn" where
  "beginUnsubscribe c = (if sc_closing c then (False, c) else (True, c\<lparr>sc_unsubs := sc_unsubs c + 1\<rparr>))"

definition endUnsubscribe :: "'g sconn \<Rightarrow> 'g sconn" where
  "endUnsubscribe c = c\<lparr>sc_unsubs := sc_unsubs c - 1\<rparr>"

definition markEnded :: "'g sconn \<Rightarrow> 'g sconn" where
  "markEnded c = c\<lparr>sc_ended := True\<rparr>"

interpretation gate: unsub_gate beginUnsubscribe endUnsubscribe markEnded sc_unsubs sc_closing
  by unfold_locales (auto simp: beginUnsubscribe_def endUnsubscribe_def markEnded_def)

section \<open>The operations of the connection\<close>

definition stomp_Send ::
  "'g gostomp \<Rightarrow> string \<Rightarrow> string \<Rightarrow> bytes \<Rightarrow> headers \<Rightarrow> 'g sconn \<Rightarrow> goerr option \<times> 'g sconn" where
  "stomp_Send gs destination contentType body headers c =
     (case gs_Send gs destination contentType body headers (sc_c c) of
        (Some e, g) \<Rightarrow> (Some (Errorf ''stomp send %q: %w'' [StrArg destination] [e]), c\<lparr>sc_c := g\<rparr>)
      | (None, g) \<Rightarrow>
          (None, c\<lparr>sc_c := g, sc_sent := sc_sent c @
             [\<lparr>sf_dest = destination, sf_ctype = contentType, sf_body = body, sf_headers = headers\<rparr>]\<rparr>))"

definition stomp_Subscribe ::
  "'g gostomp \<Rightarrow> gocontext \<Rightarrow> string \<Rightarrow> 'g sconn \<Rightarrow> (goerr + nat) \<times> 'g sconn" where
  "stomp_Subscribe gs ctx destination c =
     (case gs_Subscribe gs destination (sc_c c) of
        (Inl e, g) \<Rightarrow> (Inl (Errorf ''stomp subscribe %q: %w'' [StrArg destination] [e]), c\<lparr>sc_c := g\<rparr>)
      | (Inr depth, g) \<Rightarrow>
          (Inr (length (sc_subs c)),
           c\<lparr>sc_c := g, sc_subs := sc_subs c @ [newSub ctx depth destination]\<rparr>))"

text \<open>\<open>sub.unsubscribe\<close>, the call under \<open>once\<close>: the result of go-stomp's Unsubscribe, panics included.\<close>

definition unsubscribe_error :: "goerr option outcome \<Rightarrow> goerr option outcome" where
  "unsubscribe_error r =
     (case r of
        Ret None \<Rightarrow> Ret None
      | Ret (Some e) \<Rightarrow> Ret (Some (Errorf ''stomp unsubscribe: %w'' [] [e]))
      | PanicRuntime m \<Rightarrow> Ret (Some (Errorf ''stomp unsubscribe: %w'' [] [RuntimeError m]))
      | PanicOther m \<Rightarrow> PanicOther m)"

definition sub_unsubscribe :: "'g gostomp \<Rightarrow> nat \<Rightarrow> 'g sconn \<Rightarrow> goerr option outcome \<times> 'g sconn" where
  "sub_unsubscribe gs i c =
     (case beginUnsubscribe c of
        (False, c1) \<Rightarrow> (Ret (Some ErrDisconnected), c1)
      | (True, c1) \<Rightarrow>
          (case gs_Unsubscribe gs i (sc_c c1) of
             (r, g) \<Rightarrow> (unsubscribe_error r, endUnsubscribe (c1\<lparr>sc_c := g\<rparr>))))"

definition update_sub :: "nat \<Rightarrow> (ssub \<Rightarrow> ssub) \<Rightarrow> 'g sconn \<Rightarrow> 'g sconn" where
  "update_sub i f c = c\<lparr>sc_subs := (sc_subs c)[i := f (sc_subs c ! i)]\<rparr>"

definition sub_Unsubscribe_stomp :: "'g gostomp \<Rightarrow> nat \<Rightarrow> 'g sconn \<Rightarrow> goerr option outcome \<times> 'g sconn" where
  "sub_Unsubscribe_stomp gs i c =
     (if ss_once (sc_subs c ! i) then (Ret (ss_err (sc_subs c ! i)), c)
      else
        (let c1 = update_sub i (\<lambda>s. s\<lparr>ss_once := True, ss_stop := True\<rparr>) c in
         case sub_unsubscribe gs i c1 of
           (Ret err, c2) \<Rightarrow> (Ret err, update_sub i (\<lambda>s. s\<lparr>ss_err := err\<rparr>) c2)
         | (r, c2) \<Rightarrow> (r, c2)))"

text \<open>
  \<open>Disconnect\<close> after its wait for pending unsubscribes. \<open>ended\<close> decides between go-stomp's two ways;
  the timer closes the transport, and the switch words the error.
\<close>

definition disconnect_error :: "duration \<Rightarrow> duration \<Rightarrow> bool \<Rightarrow> goerr option \<Rightarrow> goerr option" where
  "disconnect_error bnd closeAfter closed err =
     (case err of
        None \<Rightarrow> None
      | Some e \<Rightarrow>
          if 0 < bnd \<and> errors_Is e ErrDisconnectReceiptTimeout
          then Some (Errorf ''stomp disconnect: no receipt within the %v bound: %w'' [DurArg bnd] [e])
          else if closed
          then Some (Errorf ''stomp disconnect: no receipt within %v, half the %v bound, so the transport was closed: %w''
                 [DurArg closeAfter, DurArg bnd] [e])
          else Some (Errorf ''stomp disconnect: %w'' [] [e]))"

definition disconnect_go :: "'g gostomp \<Rightarrow> 'g sconn \<Rightarrow> goerr option \<times> 'g sconn" where
  "disconnect_go gs c =
     (if sc_ended c then
        (case gs_MustDisconnect gs (sc_c c) of
           (Some e, g) \<Rightarrow> (Some (Errorf ''stomp disconnect: %w'' [] [e]), c\<lparr>sc_c := g\<rparr>)
         | (None, g) \<Rightarrow> (None, c\<lparr>sc_c := g\<rparr>))
      else
        (case gs_Disconnect gs (sc_c c) of
           ((err, fired), g) \<Rightarrow>
             (let closed = (0 < sc_closeAfter c \<and> fired);
                  c1 = c\<lparr>sc_c := g, sc_rwc := (sc_rwc c)\<lparr>rw_closed := rw_closed (sc_rwc c) \<or> closed\<rparr>\<rparr> in
              (disconnect_error (sc_bound c) (sc_closeAfter c) closed err, c1))))"

definition stomp_Disconnect :: "'g gostomp \<Rightarrow> 'g sconn \<Rightarrow> (goerr option \<times> 'g sconn) option" where
  "stomp_Disconnect gs c =
     (let c1 = c\<lparr>sc_closing := True\<rparr> in
      if sc_unsubs c1 = 0 then Some (disconnect_go gs c1) else None)"

section \<open>The table of methods\<close>

text \<open>
  What happens to a subscription while its client waits: go-stomp delivers or closes, the caller's
  context ends with its error, the bridge takes a case of its \<open>select\<close>, a goroutine the bridge
  started for the ended context unsubscribes. An event that is not possible changes nothing.
\<close>

datatype stomp_event =
    EvSrcPush gmsg
  | EvSrcClose
  | EvCallerDone goerr
  | EvBridge bchoice
  | EvSpawned

definition sub_event_step :: "nat \<Rightarrow> sub_event \<Rightarrow> 'g sconn \<Rightarrow> 'g sconn" where
  "sub_event_step i ev c =
     (case sub_step ev (sc_subs c ! i) of
        None \<Rightarrow> c
      | Some (s, mark) \<Rightarrow>
          (let c1 = update_sub i (\<lambda>_. s) c in if mark then markEnded c1 else c1))"

fun stomp_event_step ::
  "'g gostomp \<Rightarrow> nat \<Rightarrow> stomp_event \<Rightarrow> 'g sconn \<times> goerr option \<Rightarrow> 'g sconn \<times> goerr option" where
  "stomp_event_step gs i (EvSrcPush m) (c, d) = (sub_event_step i (SrcPush m) c, d)"
| "stomp_event_step gs i EvSrcClose (c, d) = (sub_event_step i SrcClose c, d)"
| "stomp_event_step gs i (EvCallerDone e) (c, d) =
     (sub_event_step i CtxEnd c, case d of None \<Rightarrow> Some e | Some e' \<Rightarrow> Some e')"
| "stomp_event_step gs i (EvBridge ch) (c, d) = (sub_event_step i (Bridge ch) c, d)"
| "stomp_event_step gs i EvSpawned (c, d) =
     (if 0 < ss_spawned (sc_subs c ! i)
      then (snd (sub_Unsubscribe_stomp gs i (update_sub i (\<lambda>s. s\<lparr>ss_spawned := ss_spawned s - 1\<rparr>) c)), d)
      else (c, d))"

definition stomp_wait ::
  "'g gostomp \<Rightarrow> stomp_event list \<Rightarrow> bool \<Rightarrow> nat \<Rightarrow> 'g sconn \<Rightarrow> (select_result \<times> 'g sconn) option" where
  "stomp_wait gs evs pick i c =
     (let (c1, cdone) = fold (stomp_event_step gs i) evs (c, None) in
      case select_reply pick cdone (ss_ch (sc_subs c1 ! i)) of
        None \<Rightarrow> None
      | Some (GotMsg m, ch) \<Rightarrow> Some (GotMsg m, sub_event_step i Take c1)
      | Some (res, ch) \<Rightarrow> Some (res, c1))"

definition stomp_ops :: "'g gostomp \<Rightarrow> stomp_event list \<Rightarrow> bool \<Rightarrow> ('g sconn, nat) Conn" where
  "stomp_ops gs evs pick =
     \<lparr>conn_Send = (\<lambda>ctx. stomp_Send gs),
      conn_Subscribe = stomp_Subscribe gs,
      conn_Disconnect = stomp_Disconnect gs,
      sub_Unsubscribe = sub_Unsubscribe_stomp gs,
      wait_reply = (\<lambda>ctx. stomp_wait gs evs pick)\<rparr>"

section \<open>It keeps the promises of a connection\<close>

definition stomp_subscribed :: "'g sconn \<Rightarrow> (nat \<times> string) list" where
  "stomp_subscribed c = enumerate 0 (map ss_dest (sc_subs c))"

text \<open>A subscription is cancelled once its Unsubscribe has begun, that is, once \<open>stop\<close> is closed.\<close>

definition stomp_cancelled :: "'g sconn \<Rightarrow> nat set" where
  "stomp_cancelled c = {i. i < length (sc_subs c) \<and> ss_stop (sc_subs c ! i)}"

definition sub_inv :: "ssub \<Rightarrow> bool" where
  "sub_inv s \<longleftrightarrow> bridge_inv s \<and> ss_once s = ss_stop s"

definition stomp_inv :: "'g sconn \<Rightarrow> bool" where
  "stomp_inv c \<longleftrightarrow> (\<forall>s \<in> set (sc_subs c). sub_inv s)"

lemma stomp_subscribed_fst [simp]: "i \<in> fst ` set (stomp_subscribed c) \<longleftrightarrow> i < length (sc_subs c)"
  by (simp add: stomp_subscribed_def flip: list.set_map)

text \<open>What a step on one subscription leaves alone.\<close>

definition sub_frame :: "nat \<Rightarrow> 'g sconn \<Rightarrow> 'g sconn \<Rightarrow> bool" where
  "sub_frame i c c' \<longleftrightarrow>
     sc_sent c' = sc_sent c \<and> length (sc_subs c') = length (sc_subs c)
     \<and> (\<forall>j < length (sc_subs c). j \<noteq> i \<longrightarrow> sc_subs c' ! j = sc_subs c ! j)
     \<and> ss_dest (sc_subs c' ! i) = ss_dest (sc_subs c ! i)
     \<and> (ss_stop (sc_subs c ! i) \<longrightarrow> ss_stop (sc_subs c' ! i))
     \<and> (stomp_inv c \<longrightarrow> stomp_inv c') \<and> sc_unsubs c' = sc_unsubs c \<and> sc_closing c' = sc_closing c"

lemma sub_frame_refl: "sub_frame i c c"
  by (simp add: sub_frame_def)

lemma sub_frame_trans: "sub_frame i c c' \<Longrightarrow> sub_frame i c' c'' \<Longrightarrow> sub_frame i c c''"
  by (simp add: sub_frame_def)

lemma stomp_inv_update: "stomp_inv c \<Longrightarrow> sub_inv (f (sc_subs c ! i)) \<Longrightarrow> stomp_inv (update_sub i f c)"
  by (auto simp: stomp_inv_def update_sub_def dest!: set_update_subset_insert [THEN subsetD])

lemma update_sub_sel [simp]:
  "sc_sent (update_sub i f c) = sc_sent c" "length (sc_subs (update_sub i f c)) = length (sc_subs c)"
  "sc_unsubs (update_sub i f c) = sc_unsubs c" "sc_closing (update_sub i f c) = sc_closing c"
  "i < length (sc_subs c) \<Longrightarrow> sc_subs (update_sub i f c) ! i = f (sc_subs c ! i)"
  "j \<noteq> i \<Longrightarrow> sc_subs (update_sub i f c) ! j = sc_subs c ! j"
  by (simp_all add: update_sub_def)

lemma sub_frame_update:
  assumes "i < length (sc_subs c)" "ss_dest (f (sc_subs c ! i)) = ss_dest (sc_subs c ! i)"
    and "ss_stop (sc_subs c ! i) \<longrightarrow> ss_stop (f (sc_subs c ! i))"
    and "sub_inv (sc_subs c ! i) \<Longrightarrow> sub_inv (f (sc_subs c ! i))"
  shows "sub_frame i c (update_sub i f c)"
  using assms stomp_inv_update [of c f i] by (auto simp: sub_frame_def stomp_inv_def)

lemma sub_step_keeps:
  assumes "sub_step ev s = Some (s', mark)"
  shows "ss_dest s' = ss_dest s \<and> ss_once s' = ss_once s \<and> (ev \<noteq> StopClose \<longrightarrow> ss_stop s' = ss_stop s)"
proof (cases ev)
  case (Bridge ch)
  with assms show ?thesis
    by (cases "ss_pc s"; cases ch)
      (auto simp: bridge_steps split: recv_result.splits send_result.splits if_splits)
qed (use assms in \<open>auto split: send_result.splits recv_result.splits if_splits\<close>)

lemma sub_frame_mark: "sub_frame i c c' \<Longrightarrow> sub_frame i c (markEnded c')"
  by (simp add: sub_frame_def markEnded_def stomp_inv_def)

lemma sub_event_frame:
  assumes "i < length (sc_subs c)" "ev \<noteq> StopClose"
  shows "sub_frame i c (sub_event_step i ev c)"
proof (cases "sub_step ev (sc_subs c ! i)")
  case None
  then show ?thesis by (simp add: sub_event_step_def sub_frame_refl)
next
  case (Some p)
  then obtain s' mark where p: "sub_step ev (sc_subs c ! i) = Some (s', mark)" by (cases p) auto
  with sub_step_keeps [OF p] assms bridge_inv_step [OF _ p] have "sub_frame i c (update_sub i (\<lambda>_. s') c)"
    by (intro sub_frame_update) (auto simp: sub_inv_def)
  with p sub_frame_mark [OF this] show ?thesis by (simp add: sub_event_step_def Let_def)
qed

lemma sub_inv_once [simp]: "sub_inv (s\<lparr>ss_once := True, ss_stop := True\<rparr>) = bridge_inv s"
  using bridge_inv_spawned(2) [where s = "s\<lparr>ss_stop := True\<rparr>" and b = True] by (simp add: sub_inv_def)

lemma sub_inv_fields [simp]: "sub_inv (s\<lparr>ss_err := e\<rparr>) = sub_inv s" "sub_inv (s\<lparr>ss_spawned := n\<rparr>) = sub_inv s"
  by (simp_all add: sub_inv_def)

lemma sub_unsubscribe_frame:
  assumes "sub_unsubscribe gs i c = (r, c')"
  shows "sub_frame j c c' \<and> sc_subs c' = sc_subs c"
proof (cases "sc_closing c")
  case True
  with assms show ?thesis by (auto simp: sub_unsubscribe_def beginUnsubscribe_def sub_frame_refl)
next
  case False
  with assms obtain g where "c' = endUnsubscribe (c\<lparr>sc_unsubs := sc_unsubs c + 1, sc_c := g\<rparr>)"
    by (auto simp: sub_unsubscribe_def beginUnsubscribe_def split: prod.splits)
  then show ?thesis by (simp add: sub_frame_def endUnsubscribe_def stomp_inv_def)
qed

lemma Unsubscribe_frame:
  assumes "i < length (sc_subs c)" "sub_Unsubscribe_stomp gs i c = (r, c')"
  shows "sub_frame i c c' \<and> (stomp_inv c \<longrightarrow> ss_stop (sc_subs c' ! i))"
proof (cases "ss_once (sc_subs c ! i)")
  case True
  with assms show ?thesis by (auto simp: sub_Unsubscribe_stomp_def sub_frame_refl stomp_inv_def sub_inv_def)
next
  case False
  let ?c1 = "update_sub i (\<lambda>s. s\<lparr>ss_once := True, ss_stop := True\<rparr>) c"
  obtain r2 c2 where u: "sub_unsubscribe gs i ?c1 = (r2, c2)" by fastforce
  note F = sub_unsubscribe_frame [OF u]
  have "sub_frame i c ?c1" using assms(1) by (intro sub_frame_update) (auto simp: sub_inv_def)
  with F have c2: "sub_frame i c c2" using sub_frame_trans by blast
  have stop: "ss_stop (sc_subs c2 ! i)" "i < length (sc_subs c2)" using F assms(1) by simp_all
  show ?thesis
  proof (cases r2)
    case (Ret err)
    with u False assms(2) have c': "c' = update_sub i (\<lambda>s. s\<lparr>ss_err := err\<rparr>) c2"
      by (simp add: sub_Unsubscribe_stomp_def)
    with stop have "sub_frame i c2 c'" by (auto intro!: sub_frame_update)
    with c2 stop c' show ?thesis using sub_frame_trans by auto
  qed (use u False assms(2) c2 stop in \<open>auto simp: sub_Unsubscribe_stomp_def\<close>)
qed

lemma stomp_event_frame:
  assumes "i < length (sc_subs c)"
  shows "sub_frame i c (fst (stomp_event_step gs i ev (c, d)))"
proof (cases ev)
  case EvSpawned
  let ?c1 = "update_sub i (\<lambda>s. s\<lparr>ss_spawned := ss_spawned s - 1\<rparr>) c"
  have "sub_frame i c ?c1" using assms by (intro sub_frame_update) auto
  moreover have "sub_frame i ?c1 (snd (sub_Unsubscribe_stomp gs i ?c1))"
    using Unsubscribe_frame [of i ?c1 gs] assms by (cases "sub_Unsubscribe_stomp gs i ?c1") auto
  ultimately show ?thesis using EvSpawned sub_frame_trans sub_frame_refl by auto
qed (use assms sub_event_frame in auto)

lemma stomp_events_frame:
  "i < length (sc_subs c) \<Longrightarrow> sub_frame i c (fst (fold (stomp_event_step gs i) evs (c, d)))"
proof (induction evs arbitrary: c d)
  case (Cons ev evs)
  obtain c1 d1 where st: "stomp_event_step gs i ev (c, d) = (c1, d1)" by fastforce
  with stomp_event_frame [OF Cons.prems, of gs ev d] have f: "sub_frame i c c1" by simp
  then have "i < length (sc_subs c1)" using Cons.prems by (simp add: sub_frame_def)
  from sub_frame_trans [OF f Cons.IH [OF this]] st show ?case by simp
qed (simp add: sub_frame_refl)

lemma sub_frame_dests:
  "sub_frame i c c' \<Longrightarrow> stomp_subscribed c' = stomp_subscribed c"
proof -
  assume f: "sub_frame i c c'"
  then have "map ss_dest (sc_subs c') = map ss_dest (sc_subs c)"
    by (auto simp: list_eq_iff_nth_eq [where xs = "map ss_dest (sc_subs c')"] sub_frame_def)
  then show ?thesis by (simp add: stomp_subscribed_def)
qed

lemma sub_frame_cancelled:
  assumes "sub_frame i c c'" "i < length (sc_subs c)"
  shows "stomp_cancelled c \<subseteq> stomp_cancelled c'" "stomp_cancelled c' \<subseteq> insert i (stomp_cancelled c)"
  using assms by (fastforce simp: stomp_cancelled_def sub_frame_def)+

interpretation stomp: transport_conn "stomp_ops gs evs pick" sc_sent stomp_subscribed stomp_cancelled stomp_inv
  for gs evs pick
proof (unfold_locales, goal_cases)
  case (1 w ctx d ct b hs w')
  then show ?case
    by (auto simp: stomp_ops_def stomp_Send_def stomp_subscribed_def stomp_cancelled_def stomp_inv_def
      split: prod.splits option.splits)
next
  case (2 w ctx d ct b hs e w')
  then show ?case
    by (auto simp: stomp_ops_def stomp_Send_def stomp_subscribed_def stomp_cancelled_def stomp_inv_def
      split: prod.splits option.splits)
next
  case (3 w ctx d s w')
  then obtain g n where s: "s = length (sc_subs w)" and w': "w' = w\<lparr>sc_c := g, sc_subs := sc_subs w @ [newSub ctx n d]\<rparr>"
    by (auto simp: stomp_ops_def stomp_Subscribe_def split: prod.splits sum.splits)
  have "sub_inv (newSub ctx n d)" by (simp add: sub_inv_def bridge_inv_def newSub_def)
  with 3(1) show ?case
    by (auto simp: s w' stomp_subscribed_def stomp_cancelled_def stomp_inv_def newSub_def enumerate_append_eq
      nth_append simp flip: list.set_map)
next
  case (4 w ctx d e w')
  then show ?case
    by (auto simp: stomp_ops_def stomp_Subscribe_def stomp_subscribed_def stomp_cancelled_def stomp_inv_def
      split: prod.splits sum.splits)
next
  case (5 w s r w')
  then have s: "s < length (sc_subs w)" and u: "sub_Unsubscribe_stomp gs s w = (r, w')" by (simp_all add: stomp_ops_def)
  note F = Unsubscribe_frame [OF s u]
  then have "sub_frame s w w'" by simp
  note sub_frame_cancelled [OF this s] sub_frame_dests [OF this]
  with F 5(1) s show ?case by (auto simp: sub_frame_def stomp_cancelled_def)
next
  case (6 w s ctx res w')
  then have s: "s < length (sc_subs w)" by simp
  obtain c1 cd where run: "fold (stomp_event_step gs s) evs (w, None) = (c1, cd)" by fastforce
  with stomp_events_frame [OF s, of gs evs None] have f: "sub_frame s w c1" by simp
  then have "s < length (sc_subs c1)" using s by (simp add: sub_frame_def)
  then have "sub_frame s w (sub_event_step s Take c1)" using sub_frame_trans [OF f sub_event_frame] by simp
  moreover have "w' = c1 \<or> w' = sub_event_step s Take c1"
    using 6(3) run by (auto simp: stomp_ops_def stomp_wait_def split: option.splits select_result.splits)
  ultimately have "sub_frame s w w'" using f by blast
  with sub_frame_cancelled [OF this s] sub_frame_dests [OF this] 6(1) show ?case by (simp add: sub_frame_def)
next
  case (7 w err w')
  then show ?case
    by (auto simp: stomp_ops_def stomp_Disconnect_def disconnect_go_def Let_def stomp_subscribed_def
      stomp_cancelled_def stomp_inv_def split: if_splits prod.splits option.splits)
qed

section \<open>Properties\<close>

text \<open>
  The heart-beats a CONNECT frame offers: explicit intervals are passed on unchanged, zeros
  included; without them both directions carry the symmetric interval, and an unset one means the
  default of ten seconds, never zero. The receipt timeout is offered exactly when a bound is set.
\<close>

lemma dial_offers:
  "(OptHeartBeat s r \<in> set (dial_opts d cfg) \<longleftrightarrow>
     (case HeartBeats cfg of
        Some hb \<Rightarrow> s = hb_Send hb \<and> r = hb_Recv hb
      | None \<Rightarrow> s = r \<and> s = (if HeartBeat cfg = 0 then 10 * second else HeartBeat cfg)))
   \<and> (OptDisconnectReceiptTimeout b \<in> set (dial_opts d cfg) \<longleftrightarrow> 0 < b \<and> b = disconnectBound d)
   \<and> (OptLogin l p \<in> set (dial_opts d cfg) \<longleftrightarrow> l = Login cfg \<and> p = Passcode cfg)"
  by (auto simp: dial_opts_def resolveHeartBeat_def DefaultHeartBeat_def Let_def split: option.splits)

text \<open>
  The handshake of Dial is bounded by the deadline of the context and the bound does not outlive
  it: go-stomp connects with that deadline in force on a transport that takes one, the transport is
  left without a deadline whether the handshake succeeded or not, and Dial succeeds exactly when
  go-stomp's Connect does, with its error wrapped otherwise.
\<close>

lemma dial_deadline:
  assumes "rw_deadliner rw" "ctx_Deadline now ctx = Some t"
    and "gs_Connect gs (Some t) (dial_opts d cfg) g = (err, g1)" "Dial gs d now ctx cfg g rw = (res, rw')"
  shows "rw_deadline rw' = None
    \<and> (case err of
         None \<Rightarrow> \<exists>c. res = Inr c \<and> sc_c c = g1 \<and> \<not> sc_closing c \<and> sc_unsubs c = 0 \<and> \<not> sc_ended c
       | Some e \<Rightarrow> \<exists>e'. res = Inl e' \<and> (\<forall>x. errors_Is e x \<longrightarrow> errors_Is e' x))"
proof -
  have "errors_Is (Errorf ''stomp connect: %w'' [] [e]) x" if "errors_Is e x" for e x
    using that by (simp add: err_simps)
  with assms show ?thesis by (auto simp: Dial_def Let_def split: option.splits)
qed

text \<open>A go-stomp on which every call succeeds.\<close>

definition calm_gostomp :: "nat gostomp" where
  "calm_gostomp =
     \<lparr>gs_Connect = (\<lambda>dl opts g. (None, g)), gs_Send = (\<lambda>d ct b hs g. (None, g)),
      gs_Subscribe = (\<lambda>d g. (Inr 4, g)), gs_Unsubscribe = (\<lambda>i g. (Ret None, g + 1)),
      gs_Disconnect = (\<lambda>g. ((None, False), g)), gs_MustDisconnect = (\<lambda>g. (None, g))\<rparr>"

definition plain_cfg :: ConnConfig where
  "plain_cfg = \<lparr>Login = ''u'', Passcode = ''p'', HeartBeat = 0, HeartBeats = None\<rparr>"

definition plain_rwc :: rwc where
  "plain_rwc = \<lparr>rw_deadliner = True, rw_deadline = None, rw_closed = False\<rparr>"

lemma sub_unsubscribe_no_runtime: "fst (sub_unsubscribe gs i c) \<noteq> PanicRuntime m"
  by (auto simp: sub_unsubscribe_def beginUnsubscribe_def unsubscribe_error_def
    split: prod.splits outcome.splits option.splits)

text \<open>
  Unsubscribe unsubscribes once: a call that returned is answered again with the same result, by a
  call that changes nothing; no call lets a runtime panic of go-stomp through; and once Disconnect has
  begun, a first call returns errDisconnected without touching go-stomp.
\<close>

lemma unsubscribe_once:
  assumes "i < length (sc_subs c)" "sub_Unsubscribe_stomp gs i c = (r, c')"
  shows "(\<forall>e. r = Ret e \<longrightarrow> sub_Unsubscribe_stomp gs i c' = (Ret e, c')) \<and> (\<forall>m. r \<noteq> PanicRuntime m)
    \<and> sc_unsubs c' = sc_unsubs c
    \<and> (sc_closing c \<and> \<not> ss_once (sc_subs c ! i) \<longrightarrow> r = Ret (Some ErrDisconnected) \<and> sc_c c' = sc_c c)"
proof (cases "ss_once (sc_subs c ! i)")
  case True
  with assms show ?thesis by (auto simp: sub_Unsubscribe_stomp_def)
next
  case False
  let ?c1 = "update_sub i (\<lambda>s. s\<lparr>ss_once := True, ss_stop := True\<rparr>) c"
  obtain r2 c2 where u: "sub_unsubscribe gs i ?c1 = (r2, c2)" by fastforce
  have keep: "sc_subs c2 = sc_subs ?c1" "sc_unsubs c2 = sc_unsubs c"
    using sub_unsubscribe_frame [OF u, of i] by (simp_all add: sub_frame_def)
  have nr: "\<And>m. r2 \<noteq> PanicRuntime m" using sub_unsubscribe_no_runtime [of gs i ?c1] u by simp
  have shut: "sc_closing c \<Longrightarrow> r2 = Ret (Some ErrDisconnected) \<and> sc_c c2 = sc_c c"
    using u by (auto simp: sub_unsubscribe_def beginUnsubscribe_def update_sub_def)
  show ?thesis
  proof (cases r2)
    case (Ret err)
    with u False assms(2) have c': "r = Ret err" "c' = update_sub i (\<lambda>s. s\<lparr>ss_err := err\<rparr>) c2"
      by (simp_all add: sub_Unsubscribe_stomp_def)
    moreover have "sc_subs c' ! i = (sc_subs ?c1 ! i)\<lparr>ss_err := err\<rparr>" using c' keep(1) assms(1) by simp
    ultimately show ?thesis
      using keep shut Ret assms(1) by (auto simp: sub_Unsubscribe_stomp_def) (simp_all add: update_sub_def)
  qed (use u False assms(2) keep nr shut in \<open>auto simp: sub_Unsubscribe_stomp_def\<close>)
qed

definition conn1 :: "nat sconn" where
  "conn1 = \<lparr>sc_c = 0, sc_rwc = plain_rwc, sc_bound = 0, sc_closeAfter = 0, sc_closing = False, sc_unsubs = 0,
     sc_ended = False, sc_subs = [newSub (CallerCtx None) 4 ''/queue/a''], sc_sent = []\<rparr>"

lemmas stomp_eval =
  stomp_ops_def stomp_Send_def stomp_Subscribe_def stomp_wait_def sub_event_step_def update_sub_def
  sub_Unsubscribe_stomp_def sub_unsubscribe_def beginUnsubscribe_def endUnsubscribe_def unsubscribe_error_def
  markEnded_def calm_gostomp_def conn1_def

lemmas stomp_run_eval = stomp_eval reqresp_eval bridge_eval


text \<open>
  Disconnect, once no unsubscribe is pending, returns nil exactly when go-stomp's call did, and
  otherwise an error that matches go-stomp's; a connection known to have ended is closed without
  waiting for a receipt; and the transport is closed by the timer only when a positive bound was set.
\<close>

lemma disconnect_reports:
  assumes "sc_unsubs c = 0" "stomp_Disconnect gs c = Some (err, c')" "leaf_err x"
  shows "sc_closing c'
    \<and> (if sc_ended c
       then sc_c c' = snd (gs_MustDisconnect gs (sc_c c)) \<and> sc_rwc c' = sc_rwc c
         \<and> (err = None \<longleftrightarrow> fst (gs_MustDisconnect gs (sc_c c)) = None)
         \<and> (\<forall>e e'. err = Some e \<and> fst (gs_MustDisconnect gs (sc_c c)) = Some e' \<longrightarrow> errors_Is e x = errors_Is e' x)
       else sc_c c' = snd (gs_Disconnect gs (sc_c c))
         \<and> (err = None \<longleftrightarrow> fst (fst (gs_Disconnect gs (sc_c c))) = None)
         \<and> (rw_closed (sc_rwc c') \<longrightarrow> rw_closed (sc_rwc c) \<or> 0 < sc_closeAfter c)
         \<and> (\<forall>e e'. err = Some e \<and> fst (fst (gs_Disconnect gs (sc_c c))) = Some e' \<longrightarrow> errors_Is e x = errors_Is e' x))"
  using assms
  by (cases "gs_MustDisconnect gs (sc_c c)"; cases "gs_Disconnect gs (sc_c c)")
    (auto simp: stomp_Disconnect_def disconnect_go_def disconnect_error_def Let_def split: if_splits option.splits)

end
