(* ===== verification/Session.thy ===== *)
theory Session
  imports RouterClose Stomp
begin

text \<open>
  A session of the bus: the router of internal/router on a connection of internal/stomp, as
  \<open>fieldbus.Connect\<close> puts them together. The router subscribes through the connection, its readers
  receive from the channels that the bridges fill, and its Unsubscribe calls reach go-stomp through
  the gate. Other clients of the same connection, such as a pending request, have subscriptions of
  their own on it. The channel of a subscription is one object: the router's copy is always that of
  the bridge.
\<close>

section \<open>State\<close>

text \<open>\<open>ses_link\<close>: for each subscription of the router, in order, its position on the connection.\<close>

record ('g, 'h) session =
  ses_rtr :: "'h router"
  ses_conn :: "'g sconn"
  ses_link :: "nat list"

definition ses_start :: "goerr chan \<Rightarrow> 'g sconn \<Rightarrow> ('g, 'h) session" where
  "ses_start ec c = \<lparr>ses_rtr = NewWithErrorChan (Some ec), ses_conn = c, ses_link = []\<rparr>"

definition sync :: "('g, 'h) session \<Rightarrow> ('g, 'h) session" where
  "sync S = S\<lparr>ses_rtr := (ses_rtr S)\<lparr>chans := map (\<lambda>i. ss_ch (sc_subs (ses_conn S) ! i)) (ses_link S)\<rparr>\<rparr>"

section \<open>Steps\<close>

text \<open>
  \<open>router.Subscribe\<close> over the connection: only without a live state does it subscribe, with a context
  that is never cancelled.
\<close>

definition ses_Subscribe ::
  "'g gostomp \<Rightarrow> gocontext \<Rightarrow> string \<Rightarrow> 'h \<Rightarrow> ('g, 'h) session \<Rightarrow> (goerr + token) \<times> ('g, 'h) session" where
  "ses_Subscribe gs ctx dest h S =
     (case live_state (ses_rtr S) dest of
        Some a \<Rightarrow>
          (case router_Subscribe dest h None 0 (ses_rtr S) of (t, r) \<Rightarrow> (t, S\<lparr>ses_rtr := r\<rparr>))
      | None \<Rightarrow>
          (case stomp_Subscribe gs (WithoutCancel ctx) dest (ses_conn S) of
             (Inl e, c) \<Rightarrow>
               (case router_Subscribe dest h (Some e) 0 (ses_rtr S) of
                  (t, r) \<Rightarrow> (t, S\<lparr>ses_rtr := r, ses_conn := c\<rparr>))
           | (Inr i, c) \<Rightarrow>
               (case router_Subscribe dest h None subChanBuf (ses_rtr S) of
                  (t, r) \<Rightarrow> (t, S\<lparr>ses_rtr := r, ses_conn := c, ses_link := ses_link S @ [i]\<rparr>))))"

text \<open>
  A pending Unsubscribe call of the router on its subscription \<open>s\<close>. A panic that is no runtime error
  is not recovered and ends the program: there is no step.
\<close>

definition ses_CallUnsubscribe :: "'g gostomp \<Rightarrow> nat \<Rightarrow> ('g, 'h) session \<Rightarrow> ('g, 'h) session option" where
  "ses_CallUnsubscribe gs s S =
     (case router_step (DoCallUnsubscribe s) (ses_rtr S) of
        None \<Rightarrow> None
      | Some r \<Rightarrow>
          (case sub_Unsubscribe_stomp gs (ses_link S ! s) (ses_conn S) of
             (Ret e, c) \<Rightarrow> Some (S\<lparr>ses_rtr := r, ses_conn := c\<rparr>)
           | _ \<Rightarrow> None))"

text \<open>A step of the reader \<open>a\<close>; a message it receives leaves the bridge's channel.\<close>

definition at_message :: "nat \<Rightarrow> 'h router \<Rightarrow> bool" where
  "at_message a r \<longleftrightarrow> rd_pc (readers r ! a) = ReadRecv \<and> ch_buf (chans r ! ds_sub (states r ! a)) \<noteq> []"

definition ses_readLoop :: "'h list \<Rightarrow> nat \<Rightarrow> ('g, 'h) session \<Rightarrow> ('g, 'h) session option" where
  "ses_readLoop hs a S =
     (case readLoop_step hs a (ses_rtr S) of
        None \<Rightarrow> None
      | Some r \<Rightarrow>
          Some (S\<lparr>ses_rtr := r,
             ses_conn := (if at_message a (ses_rtr S)
               then sub_event_step (ses_link S ! ds_sub (states (ses_rtr S) ! a)) Take (ses_conn S)
               else ses_conn S)\<rparr>))"

text \<open>
  Everything that can happen next. \<open>SConn\<close> is what the bridge of one subscription and go-stomp do to it;
  the last four are calls of other clients of the connection and of its owner.
\<close>

datatype 'h ses_action =
    SSubscribe gocontext string 'h
  | SUnsubscribe string token
  | SClose
  | SCallUnsubscribe nat
  | SCloseReturn
  | SReader "'h list" nat
  | SConsume
  | SConn nat stomp_event
  | SOtherSubscribe gocontext string
  | SOtherUnsubscribe nat
  | SOtherTake nat
  | SSend string string bytes headers

definition on_router :: "'h action \<Rightarrow> ('g, 'h) session \<Rightarrow> ('g, 'h) session option" where
  "on_router act S = map_option (\<lambda>r. S\<lparr>ses_rtr := r\<rparr>) (router_step act (ses_rtr S))"

definition foreign_sub :: "nat \<Rightarrow> ('g, 'h) session \<Rightarrow> bool" where
  "foreign_sub i S \<longleftrightarrow> i < length (sc_subs (ses_conn S)) \<and> i \<notin> set (ses_link S)"

fun ses_step :: "'g gostomp \<Rightarrow> 'h ses_action \<Rightarrow> ('g, 'h) session \<Rightarrow> ('g, 'h) session option" where
  "ses_step gs (SSubscribe ctx dest h) S = Some (snd (ses_Subscribe gs ctx dest h S))"
| "ses_step gs (SUnsubscribe dest tok) S = on_router (DoUnsubscribe dest tok) S"
| "ses_step gs SClose S = on_router DoClose S"
| "ses_step gs (SCallUnsubscribe s) S = ses_CallUnsubscribe gs s S"
| "ses_step gs SCloseReturn S = on_router DoCloseReturn S"
| "ses_step gs (SReader hs a) S = ses_readLoop hs a S"
| "ses_step gs SConsume S = on_router DoConsume S"
| "ses_step gs (SConn i ev) S =
     (if i < length (sc_subs (ses_conn S))
      then Some (sync (S\<lparr>ses_conn := fst (stomp_event_step gs i ev (ses_conn S, None))\<rparr>)) else None)"
| "ses_step gs (SOtherSubscribe ctx dest) S = Some (S\<lparr>ses_conn := snd (stomp_Subscribe gs ctx dest (ses_conn S))\<rparr>)"
| "ses_step gs (SOtherUnsubscribe i) S =
     (if foreign_sub i S then
        (case sub_Unsubscribe_stomp gs i (ses_conn S) of (Ret e, c) \<Rightarrow> Some (S\<lparr>ses_conn := c\<rparr>) | _ \<Rightarrow> None)
      else None)"
| "ses_step gs (SOtherTake i) S =
     (if foreign_sub i S then Some (S\<lparr>ses_conn := sub_event_step i Take (ses_conn S)\<rparr>) else None)"
| "ses_step gs (SSend d ct b hs) S = Some (S\<lparr>ses_conn := snd (stomp_Send gs d ct b hs (ses_conn S))\<rparr>)"

section \<open>What a connection does to the channel of a subscription\<close>

text \<open>One event puts at most one message into the channel and may close it.\<close>

definition feeds :: "Msg chan \<Rightarrow> Msg chan \<Rightarrow> bool" where
  "feeds c c' \<longleftrightarrow> c' = c \<or> \<not> ch_closed c \<and> c' = close_chan c
     \<or> (\<exists>m c1. try_send m c = Sent c1 \<and> (c' = c1 \<or> c' = close_chan c1))"

text \<open>What every event keeps of a subscription. A context that cannot end does not end.\<close>

definition sub_keeps :: "ssub \<Rightarrow> ssub \<Rightarrow> bool" where
  "sub_keeps s s' \<longleftrightarrow>
     ss_dest s' = ss_dest s \<and> ss_ctx s' = ss_ctx s \<and> (ss_stop s \<longrightarrow> ss_stop s')
     \<and> (\<not> ctx_cancellable (ss_ctx s) \<longrightarrow> ss_ctxdone s' = ss_ctxdone s)
     \<and> ch_cap (ss_ch s') = ch_cap (ss_ch s)"

lemma feeds_refl [simp]: "feeds c c"
  by (simp add: feeds_def)

lemma sub_keeps_refl [simp]: "sub_keeps s s"
  by (simp add: sub_keeps_def)

lemma sub_keeps_trans: "sub_keeps s t \<Longrightarrow> sub_keeps t u \<Longrightarrow> sub_keeps s u"
  by (simp add: sub_keeps_def)

lemma chan_caps:
  "try_send m c = Sent c' \<Longrightarrow> ch_cap c' = ch_cap c" "try_recv c = Received v c' \<Longrightarrow> ch_cap c' = ch_cap c"
  by (auto simp: chan_simps)

lemma endOut_feeds: "ss_out s = (\<not> ch_closed (ss_ch s)) \<Longrightarrow> feeds (ss_ch s) (ss_ch (endOut s))"
  by (simp add: endOut_def feeds_def)

lemma bridge_feeds:
  assumes "bridge_inv s" "bridge_step ch s = Some (s', mark)"
  shows "feeds (ss_ch s) (ss_ch s') \<and> sub_keeps s s'"
proof -
  have out: "ss_out s = (\<not> ch_closed (ss_ch s))" using assms(1) by (simp add: bridge_inv_def)
  note f = endOut_feeds [OF out] endOut_feeds [of "s\<lparr>ss_spawned := n\<rparr>" for n, simplified, OF out]
  have send: "feeds (ss_ch s) (ss_ch (endOut (s\<lparr>ss_ch := c, ss_pc := BrLoop\<rparr>))) \<and> feeds (ss_ch s) c"
    if "try_send m (ss_ch s) = Sent c" for m c
    using that out by (auto simp: feeds_def endOut_def chan_simps)
  show ?thesis
    using assms(2) f send
    by (cases "ss_pc s"; cases ch)
      (auto simp: bridge_steps sub_keeps_def endOut_def dest: chan_caps split: recv_result.splits send_result.splits if_splits)
qed

lemma sub_step_feeds:
  assumes "bridge_inv s" "sub_step ev s = Some (s', mark)" "ev \<noteq> Take"
  shows "feeds (ss_ch s) (ss_ch s') \<and> sub_keeps s s'"
proof (cases ev)
  case (Bridge ch)
  with assms bridge_feeds show ?thesis by simp
qed (use assms in \<open>auto simp: sub_keeps_def split: send_result.splits if_splits\<close>)

lemma sub_take:
  "sub_step Take s = Some (s', mark) \<Longrightarrow>
     \<exists>m c. try_recv (ss_ch s) = Received m c \<and> s' = s\<lparr>ss_ch := c, ss_taken := ss_taken s @ [m]\<rparr>"
  by (auto split: recv_result.splits)

text \<open>The same for the operations of the connection.\<close>

definition conn_keeps :: "'g sconn \<Rightarrow> 'g sconn \<Rightarrow> bool" where
  "conn_keeps c c' \<longleftrightarrow>
     length (sc_subs c) \<le> length (sc_subs c')
     \<and> (\<forall>i < length (sc_subs c). sub_keeps (sc_subs c ! i) (sc_subs c' ! i))"

definition chans_kept :: "nat set \<Rightarrow> 'g sconn \<Rightarrow> 'g sconn \<Rightarrow> bool" where
  "chans_kept X c c' \<longleftrightarrow>
     (\<forall>i < length (sc_subs c). i \<notin> X \<longrightarrow> ss_ch (sc_subs c' ! i) = ss_ch (sc_subs c ! i))"

lemma conn_keeps_refl [simp]: "conn_keeps c c"
  by (simp add: conn_keeps_def)

lemma conn_keeps_trans: "conn_keeps c d \<Longrightarrow> conn_keeps d e \<Longrightarrow> conn_keeps c e"
  by (auto simp: conn_keeps_def intro: sub_keeps_trans)

lemma conn_keeps_update:
  "sub_keeps (sc_subs c ! i) (f (sc_subs c ! i)) \<Longrightarrow> conn_keeps c (update_sub i f c)"
  by (cases "i < length (sc_subs c)") (auto simp: conn_keeps_def update_sub_def nth_list_update)

lemma stomp_inv_sub: "stomp_inv c \<Longrightarrow> i < length (sc_subs c) \<Longrightarrow> bridge_inv (sc_subs c ! i)"
  by (simp add: stomp_inv_def sub_inv_def)

lemma sub_event_keeps:
  assumes "stomp_inv c" "i < length (sc_subs c)" "ev \<noteq> Take" "ev \<noteq> StopClose"
  shows "conn_keeps c (sub_event_step i ev c) \<and> chans_kept {i} c (sub_event_step i ev c)
    \<and> feeds (ss_ch (sc_subs c ! i)) (ss_ch (sc_subs (sub_event_step i ev c) ! i)) \<and> stomp_inv (sub_event_step i ev c)"
proof (cases "sub_step ev (sc_subs c ! i)")
  case None
  with assms(1) show ?thesis by (simp add: sub_event_step_def chans_kept_def)
next
  case (Some p)
  obtain s' mark where p: "sub_step ev (sc_subs c ! i) = Some (s', mark)" using Some by (cases p) auto
  note F = sub_step_feeds [OF stomp_inv_sub [OF assms(1,2)] p assms(3)]
  have subs: "sc_subs (sub_event_step i ev c) = (sc_subs c)[i := s']"
    using p by (simp add: sub_event_step_def Let_def update_sub_def markEnded_def)
  have "stomp_inv (sub_event_step i ev c)"
    using sub_event_frame [OF assms(2,4)] assms(1) by (simp add: sub_frame_def)
  with F assms(2) show ?thesis
    by (auto simp: conn_keeps_def chans_kept_def subs nth_list_update)
qed

lemma Unsubscribe_keeps:
  assumes "stomp_inv c" "i < length (sc_subs c)" "sub_Unsubscribe_stomp gs i c = (r, c')"
  shows "conn_keeps c c' \<and> chans_kept {} c c' \<and> stomp_inv c' \<and> ss_stop (sc_subs c' ! i)"
proof -
  have fr: "stomp_inv c'" "ss_stop (sc_subs c' ! i)" using Unsubscribe_frame [OF assms(2,3)] assms(1) by (simp_all add: sub_frame_def)
  show ?thesis
  proof (cases "ss_once (sc_subs c ! i)")
    case True
    with assms(3) fr show ?thesis by (simp add: sub_Unsubscribe_stomp_def chans_kept_def)
  next
    case False
    let ?c1 = "update_sub i (\<lambda>s. s\<lparr>ss_once := True, ss_stop := True\<rparr>) c"
    obtain r2 c2 where u: "sub_unsubscribe gs i ?c1 = (r2, c2)" by fastforce
    have s2: "sc_subs c2 = sc_subs ?c1" using sub_unsubscribe_frame [OF u] by simp
    then have "conn_keeps c c' \<and> chans_kept {} c c'"
      using assms(2,3) False u
      by (auto simp: sub_Unsubscribe_stomp_def conn_keeps_def chans_kept_def sub_keeps_def update_sub_def
        nth_list_update split: outcome.splits if_splits)
    with fr show ?thesis by simp
  qed
qed

lemma stomp_event_keeps:
  assumes "stomp_inv c" "i < length (sc_subs c)" and c'_def: "c' = fst (stomp_event_step gs i ev (c, d))"
  shows "conn_keeps c c' \<and> chans_kept {i} c c' \<and> feeds (ss_ch (sc_subs c ! i)) (ss_ch (sc_subs c' ! i)) \<and> stomp_inv c'"
proof (cases ev)
  case EvSpawned
  show ?thesis
  proof (cases "0 < ss_spawned (sc_subs c ! i)")
    case True
    let ?c1 = "update_sub i (\<lambda>s. s\<lparr>ss_spawned := ss_spawned s - 1\<rparr>) c"
    obtain r c2 where u: "sub_Unsubscribe_stomp gs i ?c1 = (r, c2)" by fastforce
    have I1: "stomp_inv ?c1" using assms(1,2) by (intro stomp_inv_update) (simp_all add: stomp_inv_def)
    have k1: "conn_keeps c ?c1" by (rule conn_keeps_update) (simp add: sub_keeps_def)
    from Unsubscribe_keeps [OF I1 _ u] assms(2) have k2: "conn_keeps ?c1 c2" "chans_kept {} ?c1 c2" "stomp_inv c2"
      by simp_all
    have "ss_ch (sc_subs c2 ! j) = ss_ch (sc_subs c ! j)" if "j < length (sc_subs c)" for j
      using k2(2) that assms(2) by (cases "j = i") (simp_all add: chans_kept_def)
    with conn_keeps_trans [OF k1 k2(1)] k2(3) u True EvSpawned assms(2) show ?thesis
      by (simp add: c'_def chans_kept_def)
  qed (use EvSpawned assms in \<open>simp_all add: chans_kept_def\<close>)
qed (use assms sub_event_keeps in \<open>auto simp: c'_def\<close>)

lemma Subscribe_keeps:
  assumes "stomp_inv c" "stomp_Subscribe gs ctx dest c = (res, c')"
  shows "conn_keeps c c' \<and> chans_kept {} c c' \<and> stomp_inv c'
    \<and> (case res of
         Inl e \<Rightarrow> sc_subs c' = sc_subs c
       | Inr i \<Rightarrow> i = length (sc_subs c) \<and> (\<exists>n. sc_subs c' = sc_subs c @ [newSub ctx n dest]))"
proof -
  have "sub_inv (newSub ctx n dest)" for n by (simp add: sub_inv_def bridge_inv_def newSub_def)
  with assms show ?thesis
    by (auto simp: stomp_Subscribe_def conn_keeps_def chans_kept_def stomp_inv_def nth_append
      split: prod.splits sum.splits)
qed

section \<open>The invariant of a session\<close>

text \<open>
  The router's and the connection's invariants hold, the two views of every channel agree, a
  subscription of the router belongs to the destination of its reader, its context never ends, and it
  has been told to stop once the router called its Unsubscribe. Its channel has the buffer of stomp.go.
\<close>

definition linked_ok :: "'h router \<Rightarrow> ssub \<Rightarrow> nat \<Rightarrow> bool" where
  "linked_ok r s a \<longleftrightarrow>
     ss_dest s = dest_of r a \<and> ch_cap (ss_ch s) = subChanBuf \<and> \<not> ctx_cancellable (ss_ctx s) \<and> \<not> ss_ctxdone s
     \<and> (a \<in> set (called r) \<longrightarrow> ss_stop s)"

definition ses_inv :: "('g, 'h) session \<Rightarrow> bool" where
  "ses_inv S \<longleftrightarrow>
     router_inv2 (ses_rtr S) \<and> stomp_inv (ses_conn S)
     \<and> chans (ses_rtr S) = map (\<lambda>i. ss_ch (sc_subs (ses_conn S) ! i)) (ses_link S)
     \<and> distinct (ses_link S) \<and> (\<forall>i \<in> set (ses_link S). i < length (sc_subs (ses_conn S)))
     \<and> (\<forall>a < length (ses_link S). linked_ok (ses_rtr S) (sc_subs (ses_conn S) ! (ses_link S ! a)) a)
     \<and> (\<forall>s \<in> set (pending (ses_rtr S)) \<union> set (called (ses_rtr S)). s < length (ses_link S))"

lemma ses_invD:
  assumes "ses_inv S"
  shows "router_inv2 (ses_rtr S)" "stomp_inv (ses_conn S)"
    "chans (ses_rtr S) = map (\<lambda>i. ss_ch (sc_subs (ses_conn S) ! i)) (ses_link S)" "distinct (ses_link S)"
    "i \<in> set (ses_link S) \<Longrightarrow> i < length (sc_subs (ses_conn S))"
    "a < length (ses_link S) \<Longrightarrow> linked_ok (ses_rtr S) (sc_subs (ses_conn S) ! (ses_link S ! a)) a"
    "s \<in> set (pending (ses_rtr S)) \<union> set (called (ses_rtr S)) \<Longrightarrow> s < length (ses_link S)"
    "length (ses_link S) = length (readers (ses_rtr S))"
    "length (ses_link S) = length (chans (ses_rtr S))"
proof -
  show C: "chans (ses_rtr S) = map (\<lambda>i. ss_ch (sc_subs (ses_conn S) ! i)) (ses_link S)"
    and R: "router_inv2 (ses_rtr S)"
    using assms by (simp_all add: ses_inv_def)
  from C show L: "length (ses_link S) = length (chans (ses_rtr S))" by simp
  with R router_invD(1,2) [of "ses_rtr S"] show "length (ses_link S) = length (readers (ses_rtr S))"
    by (simp add: router_inv2_def)
qed (use assms in \<open>simp_all add: ses_inv_def\<close>)

lemma linked_ok_keeps:
  "linked_ok r s a \<Longrightarrow> sub_keeps s s' \<Longrightarrow> dest_of r' a = dest_of r a \<Longrightarrow>
     (a \<in> set (called r') \<Longrightarrow> a \<notin> set (called r) \<Longrightarrow> ss_stop s') \<Longrightarrow> linked_ok r' s' a"
  by (auto simp: linked_ok_def sub_keeps_def)

text \<open>A step that keeps the router's subscriptions.\<close>

lemma ses_inv_keeps:
  assumes I: "ses_inv S" and R: "router_inv2 r'" and c: "conn_keeps (ses_conn S) c'" "stomp_inv c'"
    and ch: "chans r' = map (\<lambda>i. ss_ch (sc_subs c' ! i)) (ses_link S)"
    and d: "\<And>a. a < length (ses_link S) \<Longrightarrow> dest_of r' a = dest_of (ses_rtr S) a"
    and called: "\<And>a. a < length (ses_link S) \<Longrightarrow> a \<in> set (called r') \<Longrightarrow> a \<notin> set (called (ses_rtr S)) \<Longrightarrow>
      ss_stop (sc_subs c' ! (ses_link S ! a))"
    and pend: "\<And>s. s \<in> set (pending r') \<union> set (called r') \<Longrightarrow>
      s \<notin> set (pending (ses_rtr S)) \<union> set (called (ses_rtr S)) \<Longrightarrow> s < length (ses_link S)"
  shows "ses_inv (S\<lparr>ses_rtr := r', ses_conn := c'\<rparr>)"
proof -
  note D = ses_invD [OF I]
  have "linked_ok r' (sc_subs c' ! (ses_link S ! a)) a" if a: "a < length (ses_link S)" for a
    using linked_ok_keeps [OF D(6) [OF a] _ d [OF a] called [OF a]] c(1) D(5) a by (auto simp: conn_keeps_def)
  moreover have "i < length (sc_subs c')" if "i \<in> set (ses_link S)" for i
    using D(5) [OF that] c(1) by (simp add: conn_keeps_def)
  moreover have "s < length (ses_link S)" if "s \<in> set (pending r') \<union> set (called r')" for s
    using pend [OF that] D(7) by blast
  ultimately show ?thesis using R c(2) ch D(4) by (simp add: ses_inv_def)
qed

lemma chans_kept_map:
  assumes "chans_kept X c c'" "\<forall>i \<in> set ls. i < length (sc_subs c) \<and> i \<notin> X"
  shows "map (\<lambda>i. ss_ch (sc_subs c' ! i)) ls = map (\<lambda>i. ss_ch (sc_subs c ! i)) ls"
  using assms by (simp add: chans_kept_def)

lemma chans_kept_update:
  assumes "ses_inv S" "a < length (ses_link S)" "chans_kept {ses_link S ! a} (ses_conn S) c'"
  shows "map (\<lambda>i. ss_ch (sc_subs c' ! i)) (ses_link S) =
    (chans (ses_rtr S))[a := ss_ch (sc_subs c' ! (ses_link S ! a))]"
proof (rule nth_equalityI)
  note D = ses_invD [OF assms(1)]
  fix b
  assume "b < length (map (\<lambda>i. ss_ch (sc_subs c' ! i)) (ses_link S))"
  then have b: "b < length (ses_link S)" by simp
  have "b \<noteq> a \<Longrightarrow> ses_link S ! b \<noteq> ses_link S ! a" using D(4) assms(2) b by (simp add: nth_eq_iff_index_eq)
  with assms(2,3) b D(3) D(5) [OF nth_mem [OF b]]
  show "map (\<lambda>i. ss_ch (sc_subs c' ! i)) (ses_link S) ! b = (chans (ses_rtr S))[a := ss_ch (sc_subs c' ! (ses_link S ! a))] ! b"
    by (cases "b = a") (simp_all add: chans_kept_def)
qed (simp add: ses_invD(9) [OF assms(1)])

lemma session_of_parts: "S\<lparr>ses_rtr := ses_rtr S, ses_conn := c\<rparr> = S\<lparr>ses_conn := c\<rparr>"
  "S\<lparr>ses_rtr := r, ses_conn := ses_conn S\<rparr> = S\<lparr>ses_rtr := r\<rparr>"
  by simp_all

text \<open>Steps of the connection that leave the router's channels alone.\<close>

lemma ses_inv_conn:
  assumes "ses_inv S" "conn_keeps (ses_conn S) c'" "stomp_inv c'" "chans_kept X (ses_conn S) c'"
    "X \<inter> set (ses_link S) = {}"
  shows "ses_inv (S\<lparr>ses_conn := c'\<rparr>)"
proof -
  note D = ses_invD [OF assms(1)]
  have "chans (ses_rtr S) = map (\<lambda>i. ss_ch (sc_subs c' ! i)) (ses_link S)"
    unfolding D(3) by (rule chans_kept_map [OF assms(4), symmetric]) (use D(5) assms(5) in blast)
  from ses_inv_keeps [OF assms(1) D(1) assms(2,3) this] show ?thesis unfolding session_of_parts by blast
qed

text \<open>Steps of the router that touch neither channels nor the calls made.\<close>

lemma ses_inv_router:
  assumes "ses_inv S" "router_step act (ses_rtr S) = Some r'" "chans r' = chans (ses_rtr S)"
    "called r' = called (ses_rtr S)"
    "\<And>s. s \<in> set (pending r') \<Longrightarrow> s \<notin> set (pending (ses_rtr S)) \<Longrightarrow> s < length (ses_link S)"
  shows "ses_inv (S\<lparr>ses_rtr := r'\<rparr>)"
proof -
  note D = ses_invD [OF assms(1)]
  have "\<And>a. a < length (ses_link S) \<Longrightarrow> dest_of r' a = dest_of (ses_rtr S) a"
    using reader_names_step [OF assms(2)] D(8) by simp
  from ses_inv_keeps [OF assms(1) rt2.inv_step [OF D(1) assms(2)] conn_keeps_refl D(2) _ this] assms(3-) D(3)
  show ?thesis unfolding session_of_parts by auto
qed

section \<open>Every step keeps the invariant and is a run of the router\<close>

definition simulated :: "'h router \<Rightarrow> 'h router \<Rightarrow> bool" where
  "simulated r r' \<longleftrightarrow> (\<exists>acts. run_actions router_step acts r = Some r')"

lemma simulated_refl [simp]: "simulated r r"
  unfolding simulated_def by (rule exI [of _ "[]"]) simp

lemma simulated_step: "router_step act r = Some r' \<Longrightarrow> simulated r r'"
  unfolding simulated_def by (rule exI [of _ "[act]"]) simp

lemma simulated_trans: "simulated r s \<Longrightarrow> simulated s t \<Longrightarrow> simulated r t"
  unfolding simulated_def by (metis run_actions_append option.simps(5) Option.bind.bind_lunit)

lemma simulated_inv: "simulated r r' \<Longrightarrow> router_inv2 r \<Longrightarrow> router_inv2 r'"
  by (auto simp: simulated_def intro: rt2.inv_run)

lemma reader_names_run:
  "run_actions router_step acts r = Some r' \<Longrightarrow> a < length (readers r) \<Longrightarrow>
     a < length (readers r') \<and> dest_of r' a = dest_of r a"
  by (induction acts arbitrary: r) (auto split: Option.bind_splits dest: reader_names_step)

text \<open>What a bridge puts into a channel is a delivery, a close by the transport, or both in this order.\<close>

lemma feeds_simulated:
  assumes "a < length (chans r)" "feeds (chans r ! a) c"
  shows "simulated r (r\<lparr>chans := (chans r)[a := c]\<rparr>)"
  using assms(2) unfolding feeds_def
proof (elim disjE exE conjE)
  assume "c = chans r ! a"
  then show ?thesis by simp
next
  assume "\<not> ch_closed (chans r ! a)" "c = close_chan (chans r ! a)"
  with assms(1) show ?thesis by (intro simulated_step [of "DoPeerClose a"]) simp
next
  fix m c1
  assume "try_send m (chans r ! a) = Sent c1" "c = c1"
  with assms(1) show ?thesis by (intro simulated_step [of "DoDeliver a m"]) simp
next
  fix m c1
  assume c: "try_send m (chans r ! a) = Sent c1" "c = close_chan c1"
  then have "\<not> ch_closed c1" by (auto simp: chan_simps)
  with c assms(1) show ?thesis
    unfolding simulated_def by (intro exI [of _ "[DoDeliver a m, DoPeerClose a]"]) simp
qed

lemma router_Subscribe_keeps:
  "live_state r dest \<noteq> None \<or> res \<noteq> None \<Longrightarrow> router_Subscribe dest h res n r = (t, r') \<Longrightarrow>
     chans r' = chans r \<and> called r' = called r \<and> pending r' = pending r"
  by (auto simp: router_Subscribe_def Let_def split: option.splits)

lemma router_Subscribe_new:
  "live_state r dest = None \<Longrightarrow> router_Subscribe dest h None n r = (t, r') \<Longrightarrow>
     chans r' = chans r @ [make_chan n] \<and> readers r' = readers r @ [\<lparr>rd_dest = dest, rd_pc = ReadRecv\<rparr>]
     \<and> called r' = called r \<and> pending r' = pending r"
  by (auto simp: router_Subscribe_def Let_def split: option.splits)

text \<open>The callers' other operations decide on Unsubscribe calls for subscriptions there are.\<close>

lemma locked_frame:
  assumes "router_inv r" "router_step act r = Some r'"
    "(\<exists>d t. act = DoUnsubscribe d t) \<or> act \<in> {DoClose, DoCloseReturn, DoConsume}"
  shows "chans r' = chans r \<and> called r' = called r \<and> (\<forall>s \<in> set (pending r'). s \<in> set (pending r) \<or> s < length (chans r))"
proof -
  note I = router_invD [OF assms(1)]
  have e: "ds_sub (states r ! a) < length (chans r)" if "(d, a) \<in> set (dests r)" for d a
    using that I(2) I(4) [of a] I(5) [of d a] by (auto simp: cell_ok_def entry_ok_def)
  have m: "ds_sub (states r ! a) < length (chans r)" if "map_of (dests r) d = Some a" for d a
    using e map_of_SomeD [OF that] by blast
  show ?thesis
    using assms(2,3) e m
    by (auto simp: Unsubscribe_locked_def Close_locked_def Let_def
      split: option.splits if_splits recv_result.splits)
qed

lemma ses_step_router:
  assumes "ses_inv S" "on_router act S = Some S'"
    "(\<exists>d t. act = DoUnsubscribe d t) \<or> act \<in> {DoClose, DoCloseReturn, DoConsume}"
  shows "ses_inv S' \<and> simulated (ses_rtr S) (ses_rtr S')"
proof -
  from assms(2) obtain r' where r': "router_step act (ses_rtr S) = Some r'" "S' = S\<lparr>ses_rtr := r'\<rparr>"
    by (auto simp: on_router_def)
  have "router_inv (ses_rtr S)" using ses_invD(1) [OF assms(1)] by (simp add: router_inv2_def)
  from locked_frame [OF this r'(1) assms(3)] ses_inv_router [OF assms(1) r'(1)] simulated_step [OF r'(1)] r'(2)
    ses_invD(9) [OF assms(1)]
  show ?thesis by auto
qed

text \<open>A new subscription of the connection, for a new reader.\<close>

lemma ses_inv_new:
  assumes I: "ses_inv S" and live: "live_state (ses_rtr S) dest = None"
    and sub: "stomp_Subscribe gs (WithoutCancel ctx) dest (ses_conn S) = (Inr i, c)"
    and r: "router_Subscribe dest h None subChanBuf (ses_rtr S) = (t, r')"
  shows "ses_inv (S\<lparr>ses_rtr := r', ses_conn := c, ses_link := ses_link S @ [i]\<rparr>)"
proof -
  note D = ses_invD [OF I]
  note N = router_Subscribe_new [OF live r]
  note K = Subscribe_keeps [OF D(2) sub]
  have st: "router_step (DoSubscribe dest h None subChanBuf) (ses_rtr S) = Some r'" using r by simp
  from K obtain n where i: "i = length (sc_subs (ses_conn S))"
    and subs: "sc_subs c = sc_subs (ses_conn S) @ [newSub (WithoutCancel ctx) n dest]" by auto
  have old: "sc_subs c ! j = sc_subs (ses_conn S) ! j" if "j \<in> set (ses_link S)" for j
    using D(5) [OF that] by (simp add: subs nth_append)
  have new: "i \<notin> set (ses_link S)" "sc_subs c ! i = newSub (WithoutCancel ctx) n dest"
    using D(5) by (auto simp: i subs)
  have ok: "linked_ok r' (sc_subs c ! ((ses_link S @ [i]) ! a)) a" if a: "a < Suc (length (ses_link S))" for a
  proof (cases "a < length (ses_link S)")
    case True
    with D(6) [OF True] old D(8) N show ?thesis by (simp add: nth_append linked_ok_def)
  next
    case False
    with a have a: "a = length (ses_link S)" by simp
    have "a \<notin> set (called (ses_rtr S))" using D(7) [of a] a by blast
    with a new(2) N D(8) show ?thesis by (simp add: linked_ok_def newSub_def nth_append)
  qed
  have "chans r' = map (\<lambda>i. ss_ch (sc_subs c ! i)) (ses_link S @ [i])"
    using N D(3) old new(2) by (simp add: newSub_def)
  moreover have "\<forall>s \<in> set (pending r') \<union> set (called r'). s < length (ses_link S @ [i])"
    using N D(7) by (auto intro: less_SucI)
  moreover have "\<forall>j \<in> set (ses_link S @ [i]). j < length (sc_subs c)" using D(5) by (auto simp: i subs intro: less_SucI)
  ultimately show ?thesis using K ok D(4) new(1) rt2.inv_step [OF D(1) st] by (simp add: ses_inv_def)
qed

lemma ses_step_Subscribe:
  assumes "ses_inv S"
  shows "ses_inv (snd (ses_Subscribe gs ctx dest h S)) \<and> simulated (ses_rtr S) (ses_rtr (snd (ses_Subscribe gs ctx dest h S)))"
proof (cases "live_state (ses_rtr S) dest")
  case (Some a)
  obtain t r' where r: "router_Subscribe dest h None 0 (ses_rtr S) = (t, r')" by fastforce
  then have st: "router_step (DoSubscribe dest h None 0) (ses_rtr S) = Some r'" by simp
  from ses_inv_router [OF assms st] router_Subscribe_keeps [OF _ r] Some simulated_step [OF st] r show ?thesis
    by (simp add: ses_Subscribe_def)
next
  case None
  obtain res c where sub: "stomp_Subscribe gs (WithoutCancel ctx) dest (ses_conn S) = (res, c)" by fastforce
  note K = Subscribe_keeps [OF ses_invD(2) [OF assms] sub]
  show ?thesis
  proof (cases res)
    case (Inl e)
    obtain t r' where r: "router_Subscribe dest h (Some e) 0 (ses_rtr S) = (t, r')" by fastforce
    then have st: "router_step (DoSubscribe dest h (Some e) 0) (ses_rtr S) = Some r'" by simp
    have "ses_inv (S\<lparr>ses_rtr := r'\<rparr>)"
      using ses_inv_router [OF assms st] router_Subscribe_keeps [OF _ r] by simp
    from ses_inv_conn [OF this, of c "{}"] K have "ses_inv (S\<lparr>ses_rtr := r', ses_conn := c\<rparr>)" by simp
    with simulated_step [OF st] None sub Inl r show ?thesis by (simp add: ses_Subscribe_def)
  next
    case (Inr i)
    obtain t r' where r: "router_Subscribe dest h None subChanBuf (ses_rtr S) = (t, r')" by fastforce
    then have st: "router_step (DoSubscribe dest h None subChanBuf) (ses_rtr S) = Some r'" by simp
    with simulated_step [OF st] ses_inv_new [OF assms None sub [unfolded Inr] r] None sub Inr r show ?thesis
      by (simp add: ses_Subscribe_def)
  qed
qed

lemma ses_step_CallUnsubscribe:
  assumes "ses_inv S" "ses_CallUnsubscribe gs s S = Some S'"
  shows "ses_inv S' \<and> simulated (ses_rtr S) (ses_rtr S')"
proof -
  note D = ses_invD [OF assms(1)]
  from assms(2) obtain r e c where st: "router_step (DoCallUnsubscribe s) (ses_rtr S) = Some r"
    and u: "sub_Unsubscribe_stomp gs (ses_link S ! s) (ses_conn S) = (Ret e, c)"
    and S': "S' = S\<lparr>ses_rtr := r, ses_conn := c\<rparr>"
    by (auto simp: ses_CallUnsubscribe_def split: option.splits prod.splits outcome.splits)
  from st have s: "s \<in> set (pending (ses_rtr S))"
    and r: "r = (ses_rtr S)\<lparr>pending := remove1 s (pending (ses_rtr S)), called := s # called (ses_rtr S)\<rparr>"
    by (auto split: if_splits)
  from s D(7) have sl: "s < length (ses_link S)" by blast
  from Unsubscribe_keeps [OF D(2) D(5) [OF nth_mem [OF sl]] u] have K: "conn_keeps (ses_conn S) c"
    "chans_kept {} (ses_conn S) c" "stomp_inv c" "ss_stop (sc_subs c ! (ses_link S ! s))" by simp_all
  have "chans r = map (\<lambda>i. ss_ch (sc_subs c ! i)) (ses_link S)"
    using chans_kept_map [OF K(2), of "ses_link S"] D(3,5) r by simp
  from ses_inv_keeps [OF assms(1) rt2.inv_step [OF D(1) st] K(1,3) this] have "ses_inv S'"
    unfolding S' using r K(4) sl by (auto dest: notin_set_remove1)
  with simulated_step [OF st] S' show ?thesis by simp
qed

lemma readLoop_chans:
  assumes "router_inv r" "readLoop_step hs a r = Some r'"
  shows "called r' = called r \<and> pending r' = pending r \<and> a < length (readers r)
    \<and> (if at_message a r then \<exists>m c. try_recv (chans r ! a) = Received m c \<and> chans r' = (chans r)[a := c]
       else chans r' = chans r)"
proof -
  have a: "a < length (readers r)" using assms(2) by (auto simp: readLoop_step_def split: if_splits)
  then have "ds_sub (states r ! a) = a" using router_invD(1,4) [OF assms(1)] by (simp add: cell_ok_def)
  with assms(2) a show ?thesis
    by (auto simp: readLoop_step_def at_message_def Let_def try_recv_def
      split: if_splits rpc.splits option.splits list.splits send_result.splits)
qed

lemma ses_step_reader:
  assumes "ses_inv S" "ses_readLoop hs a S = Some S'"
  shows "ses_inv S' \<and> simulated (ses_rtr S) (ses_rtr S')"
proof -
  note D = ses_invD [OF assms(1)]
  from assms(2) obtain r where st: "readLoop_step hs a (ses_rtr S) = Some r" by (auto simp: ses_readLoop_def split: option.splits)
  have I: "router_inv (ses_rtr S)" using D(1) by (simp add: router_inv2_def)
  note F = readLoop_chans [OF I st]
  have st': "router_step (DoReader hs a) (ses_rtr S) = Some r" using st by simp
  note names = reader_names_step [OF st']
  show ?thesis
  proof (cases "at_message a (ses_rtr S)")
    case False
    with F ses_inv_router [OF assms(1) st'] simulated_step [OF st'] assms(2) st show ?thesis
      by (auto simp: ses_readLoop_def)
  next
    case True
    with F obtain m c where rc: "try_recv (chans (ses_rtr S) ! a) = Received m c" "chans r = (chans (ses_rtr S))[a := c]"
      by auto
    have a: "a < length (ses_link S)" using F D(8) by simp
    let ?i = "ses_link S ! a"
    let ?s = "sc_subs (ses_conn S) ! ?i"
    let ?c = "update_sub ?i (\<lambda>_. ?s\<lparr>ss_ch := c, ss_taken := ss_taken ?s @ [m]\<rparr>) (ses_conn S)"
    have i: "?i < length (sc_subs (ses_conn S))" using D(5) a by simp
    have ch: "chans (ses_rtr S) ! a = ss_ch ?s" using D(3) a by simp
    have "ds_sub (states (ses_rtr S) ! a) = a"
      using router_invD(1,4) [OF I] F by (simp add: cell_ok_def)
    moreover have "sub_event_step ?i Take (ses_conn S) = ?c"
      using rc(1) ch by (simp add: sub_event_step_def)
    ultimately have S': "S' = S\<lparr>ses_rtr := r, ses_conn := ?c\<rparr>"
      using assms(2) st True by (simp add: ses_readLoop_def)
    have "stomp_inv ?c"
      using sub_event_frame [OF i, of Take] D(2) rc(1) ch by (simp add: sub_frame_def sub_event_step_def)
    moreover have "conn_keeps (ses_conn S) ?c"
      by (rule conn_keeps_update) (use chan_caps(2) [OF rc(1)] ch in \<open>simp add: sub_keeps_def\<close>)
    moreover have "chans_kept {?i} (ses_conn S) ?c" by (simp add: chans_kept_def)
    from chans_kept_update [OF assms(1) a this] have "chans r = map (\<lambda>i. ss_ch (sc_subs ?c ! i)) (ses_link S)"
      using rc(2) i by simp
    ultimately have "ses_inv S'"
      unfolding S' using F names D(8) by (intro ses_inv_keeps [OF assms(1) rt2.inv_step [OF D(1) st']]) auto
    with simulated_step [OF st'] S' show ?thesis by simp
  qed
qed

text \<open>Whatever an event does to one subscription, the router sees it as its transport's doing.\<close>

lemma ses_step_conn:
  assumes "ses_inv S" "i < length (sc_subs (ses_conn S))" "c = fst (stomp_event_step gs i ev (ses_conn S, None))"
  shows "ses_inv (sync (S\<lparr>ses_conn := c\<rparr>)) \<and> simulated (ses_rtr S) (ses_rtr (sync (S\<lparr>ses_conn := c\<rparr>)))"
proof -
  note D = ses_invD [OF assms(1)]
  from stomp_event_keeps [OF D(2) assms(2,3)] have K: "conn_keeps (ses_conn S) c" "chans_kept {i} (ses_conn S) c"
    "feeds (ss_ch (sc_subs (ses_conn S) ! i)) (ss_ch (sc_subs c ! i))" "stomp_inv c" by simp_all
  let ?chs = "map (\<lambda>i. ss_ch (sc_subs c ! i)) (ses_link S)"
  let ?r = "(ses_rtr S)\<lparr>chans := ?chs\<rparr>"
  have sy: "sync (S\<lparr>ses_conn := c\<rparr>) = S\<lparr>ses_rtr := ?r, ses_conn := c\<rparr>" by (simp add: sync_def)
  have sim: "simulated (ses_rtr S) ?r"
  proof (cases "i \<in> set (ses_link S)")
    case False
    then have "?chs = chans (ses_rtr S)"
      unfolding D(3) by (intro chans_kept_map [OF K(2)]) (use D(5) in auto)
    then show ?thesis by simp
  next
    case True
    then obtain a where a: "a < length (ses_link S)" "ses_link S ! a = i" by (auto simp: in_set_conv_nth)
    from chans_kept_update [OF assms(1) a(1), of c] K(2) a(2)
    have "?chs = (chans (ses_rtr S))[a := ss_ch (sc_subs c ! i)]" by simp
    moreover have "chans (ses_rtr S) ! a = ss_ch (sc_subs (ses_conn S) ! i)" using D(3) a by simp
    ultimately show ?thesis using feeds_simulated [of a "ses_rtr S" "ss_ch (sc_subs c ! i)"] K(3) a D(9) by simp
  qed
  have "ses_inv (S\<lparr>ses_rtr := ?r, ses_conn := c\<rparr>)"
    by (rule ses_inv_keeps [OF assms(1) simulated_inv [OF sim D(1)] K(1,4)]) simp_all
  with sim sy show ?thesis by simp
qed

lemma ses_step_sound:
  assumes "ses_inv S" "ses_step gs act S = Some S'"
  shows "ses_inv S' \<and> simulated (ses_rtr S) (ses_rtr S')"
proof (cases act)
  case (SSubscribe ctx dest h)
  with assms(2) ses_step_Subscribe [OF assms(1)] show ?thesis by auto
next
  case (SCallUnsubscribe s)
  with assms(2) ses_step_CallUnsubscribe [OF assms(1)] show ?thesis by simp
next
  case (SReader hs a)
  with assms(2) ses_step_reader [OF assms(1)] show ?thesis by simp
next
  case (SConn i ev)
  with assms(2) ses_step_conn [OF assms(1) _ refl, of i gs ev] show ?thesis by (auto split: if_splits)
next
  case (SOtherSubscribe ctx dest)
  obtain res c where "stomp_Subscribe gs ctx dest (ses_conn S) = (res, c)" by fastforce
  with Subscribe_keeps [OF ses_invD(2) [OF assms(1)] this] ses_inv_conn [OF assms(1), of c "{}"] assms(2) SOtherSubscribe
  show ?thesis by auto
next
  case (SOtherUnsubscribe i)
  with assms(2) obtain e c where u: "sub_Unsubscribe_stomp gs i (ses_conn S) = (Ret e, c)" "S' = S\<lparr>ses_conn := c\<rparr>"
    "i < length (sc_subs (ses_conn S))"
    by (auto simp: foreign_sub_def split: if_splits prod.splits outcome.splits)
  with Unsubscribe_keeps [OF ses_invD(2) [OF assms(1)] u(3,1)] ses_inv_conn [OF assms(1), of c "{}"] show ?thesis by auto
next
  case (SOtherTake i)
  then have i: "foreign_sub i S" and S': "S' = S\<lparr>ses_conn := sub_event_step i Take (ses_conn S)\<rparr>"
    using assms(2) by (auto split: if_splits)
  let ?c = "sub_event_step i Take (ses_conn S)"
  have l: "i < length (sc_subs (ses_conn S))" "i \<notin> set (ses_link S)" using i by (simp_all add: foreign_sub_def)
  have "stomp_inv ?c" using sub_event_frame [OF l(1), of Take] ses_invD(2) [OF assms(1)] by (simp add: sub_frame_def)
  moreover have "conn_keeps (ses_conn S) ?c" "chans_kept {i} (ses_conn S) ?c"
    using l(1) sub_take [of "sc_subs (ses_conn S) ! i"]
    by (auto simp: sub_event_step_def update_sub_def conn_keeps_def chans_kept_def sub_keeps_def nth_list_update
      dest: chan_caps split: option.splits prod.splits recv_result.splits)
  ultimately show ?thesis using ses_inv_conn [OF assms(1), of ?c "{i}"] l(2) S' by simp
next
  case (SSend d ct b hs)
  have "sc_subs (snd (stomp_Send gs d ct b hs (ses_conn S))) = sc_subs (ses_conn S)"
    by (simp add: stomp_Send_def split: prod.splits option.splits)
  with ses_inv_conn [OF assms(1), of "snd (stomp_Send gs d ct b hs (ses_conn S))" "{}"] ses_invD(2) [OF assms(1)]
    assms(2) SSend show ?thesis by (auto simp: conn_keeps_def chans_kept_def stomp_inv_def)
qed (use assms ses_step_router [OF assms(1)] in auto)

text \<open>A handle once given out stays where it is.\<close>

lemma ses_step_link: "ses_step gs act S = Some S' \<Longrightarrow> prefix (ses_link S) (ses_link S')"
  by (cases act)
    (auto simp: on_router_def ses_Subscribe_def ses_CallUnsubscribe_def ses_readLoop_def sync_def
      split: option.splits prod.splits sum.splits outcome.splits if_splits)

lemma ses_run_sound:
  "ses_inv S \<Longrightarrow> run_actions (ses_step gs) acts S = Some S' \<Longrightarrow>
     ses_inv S' \<and> simulated (ses_rtr S) (ses_rtr S') \<and> prefix (ses_link S) (ses_link S')"
proof (induction acts arbitrary: S)
  case (Cons act acts)
  from Cons.prems(2) obtain S1 where S1: "ses_step gs act S = Some S1" "run_actions (ses_step gs) acts S1 = Some S'"
    by (auto split: Option.bind_splits)
  from ses_step_sound [OF Cons.prems(1) S1(1)] have I1: "ses_inv S1" and s1: "simulated (ses_rtr S) (ses_rtr S1)"
    by simp_all
  from Cons.IH [OF I1 S1(2)] s1 ses_step_link [OF S1(1)] show ?case
    using simulated_trans prefix_order.trans by blast
qed simp

text \<open>A connection as \<open>Dial\<close> returns it.\<close>

definition dialed :: "'g \<Rightarrow> rwc \<Rightarrow> duration \<Rightarrow> 'g sconn" where
  "dialed g rw bnd =
     \<lparr>sc_c = g, sc_rwc = rw, sc_bound = bnd, sc_closeAfter = half bnd, sc_closing = False, sc_unsubs = 0,
      sc_ended = False, sc_subs = [], sc_sent = []\<rparr>"

lemma Dial_dialed: "Dial gs d now ctx cfg g rw = (Inr c, rw') \<Longrightarrow> \<exists>g' rw''. c = dialed g' rw'' (disconnectBound d)"
  by (auto simp: Dial_def dialed_def Let_def split: prod.splits option.splits)

lemma ses_inv_start: "chan_ok ec \<Longrightarrow> \<not> ch_closed ec \<Longrightarrow> ses_inv (ses_start ec (dialed g rw bnd))"
  using inv_New [of ec]
  by (simp add: ses_inv_def ses_start_def dialed_def stomp_inv_def router_inv2_def NewWithErrorChan_def)

text \<open>The error channel a session starts with may hold errors of earlier ones, but is open and in bounds.\<close>

interpretation sm: machine "ses_step gs" "ses_start ec (dialed g rw bnd)"
  "\<lambda>S. chan_ok ec \<and> \<not> ch_closed ec \<longrightarrow> ses_inv S" for gs ec g rw bnd
proof (unfold_locales, goal_cases)
  case 1
  then show ?case by (simp add: ses_inv_start)
next
  case (2 S act S')
  then show ?case using ses_step_sound by blast
qed

lemma ses_reach_sim:
  assumes "chan_ok ec" "\<not> ch_closed ec" "reach (ses_step gs) (ses_start ec (dialed g rw bnd)) S"
  shows "ses_inv S \<and> reach router_step (NewWithErrorChan (Some ec)) (ses_rtr S)"
  using assms(3)
proof (induction rule: reach.induct)
  case reach_start
  then show ?case using ses_inv_start [OF assms(1,2)] by (simp add: ses_start_def reach.reach_start)
next
  case (reach_step S act S')
  then show ?case using ses_step_sound [of S gs act S'] by (auto simp: simulated_def intro: reach_run)
qed

section \<open>Close needs nothing from the broker\<close>

text \<open>
  What happens inside the client while Close waits: calls of Unsubscribe, readers, and bridges that see
  their \<open>stop\<close>.
\<close>

fun own_close :: "'h ses_action \<Rightarrow> bool" where
  "own_close (SCallUnsubscribe s) = True"
| "own_close (SReader hs a) = True"
| "own_close (SConn i (EvBridge OnStop)) = True"
| "own_close _ = False"

text \<open>
  go-stomp's Unsubscribe panics at most with a runtime error, that of a send on a closed channel, which
  the subscription recovers.
\<close>

definition no_foreign_panic :: "'g gostomp \<Rightarrow> bool" where
  "no_foreign_panic gs \<longleftrightarrow> (\<forall>i g m. fst (gs_Unsubscribe gs i g) \<noteq> PanicOther m)"

lemma Unsubscribe_returns:
  assumes "no_foreign_panic gs"
  shows "\<exists>e c'. sub_Unsubscribe_stomp gs i c = (Ret e, c')"
proof -
  have "\<exists>e. fst (sub_unsubscribe gs i c1) = Ret e" for c1
    using assms by (auto simp: no_foreign_panic_def sub_unsubscribe_def beginUnsubscribe_def unsubscribe_error_def
      split: prod.splits outcome.splits option.splits) (metis fst_conv)
  then show ?thesis by (auto simp: sub_Unsubscribe_stomp_def Let_def split: prod.splits outcome.splits) (metis fst_conv outcome.distinct(1,3))+
qed

lemma lift_peer_close:
  assumes "ses_inv S" "s \<in> set (called (ses_rtr S))" "router_step (DoPeerClose s) (ses_rtr S) = Some r'"
  shows "\<exists>S'. ses_step gs (SConn (ses_link S ! s) (EvBridge OnStop)) S = Some S' \<and> ses_rtr S' = r'"
proof -
  note D = ses_invD [OF assms(1)]
  let ?i = "ses_link S ! s"
  let ?s = "sc_subs (ses_conn S) ! ?i"
  from D(7) [of s] assms(2) have s: "s < length (ses_link S)" by blast
  then have i: "?i < length (sc_subs (ses_conn S))" using D(5) by simp
  have ch: "chans (ses_rtr S) ! s = ss_ch ?s" using D(3) s by simp
  from assms(3) have r': "r' = (ses_rtr S)\<lparr>chans := (chans (ses_rtr S))[s := close_chan (ss_ch ?s)]\<rparr>"
    and open_ch: "\<not> ch_closed (ss_ch ?s)" by (auto simp: ch split: if_splits)
  have "ss_stop ?s" using D(6) [OF s] assms(2) by (simp add: linked_ok_def)
  moreover have "ss_out ?s" "ss_pc ?s \<noteq> BrExit"
    using stomp_inv_sub [OF D(2) i] open_ch by (auto simp: bridge_inv_def split: bridge_pc.splits)
  ultimately obtain s' where st: "sub_step (Bridge OnStop) ?s = Some (s', False)" "ss_ch s' = close_chan (ss_ch ?s)"
    by (cases "ss_pc ?s") (auto simp: bridge_steps endOut_def)
  let ?c = "update_sub ?i (\<lambda>_. s') (ses_conn S)"
  have "ses_step gs (SConn ?i (EvBridge OnStop)) S = Some (sync (S\<lparr>ses_conn := ?c\<rparr>))"
    using i st(1) by (simp add: sub_event_step_def)
  moreover have "chans_kept {?i} (ses_conn S) ?c" by (simp add: chans_kept_def)
  from chans_kept_update [OF assms(1) s this] have "ses_rtr (sync (S\<lparr>ses_conn := ?c\<rparr>)) = r'"
    using st(2) i r' by (simp add: sync_def)
  ultimately show ?thesis by blast
qed

lemma lift_close:
  assumes "no_foreign_panic gs"
  shows "ses_inv S \<Longrightarrow> told_close (set (called (ses_rtr S))) acts \<Longrightarrow>
    run_actions router_step acts (ses_rtr S) = Some r' \<Longrightarrow>
    \<exists>sched S'. run_actions (ses_step gs) sched S = Some S' \<and> ses_rtr S' = r' \<and> list_all own_close sched"
proof (induction acts arbitrary: S)
  case Nil
  then show ?case by (intro exI [of _ "[]"]) simp
next
  case (Cons act acts)
  from Cons.prems(3) obtain r1 where r1: "router_step act (ses_rtr S) = Some r1"
    "run_actions router_step acts r1 = Some r'" by (auto split: Option.bind_splits)
  have "\<exists>sact S1. ses_step gs sact S = Some S1 \<and> ses_rtr S1 = r1 \<and> own_close sact
    \<and> told_close (set (called r1)) acts"
  proof (cases act)
    case (DoCallUnsubscribe s)
    obtain e c where "sub_Unsubscribe_stomp gs (ses_link S ! s) (ses_conn S) = (Ret e, c)"
      using Unsubscribe_returns [OF assms] by blast
    with r1(1) DoCallUnsubscribe Cons.prems(2) show ?thesis
      by (intro exI [of _ "SCallUnsubscribe s"]) (auto simp: ses_CallUnsubscribe_def split: if_splits)
  next
    case (DoPeerClose s)
    with Cons.prems(2) have s: "s \<in> set (called (ses_rtr S))" "told_close (set (called (ses_rtr S))) acts" by simp_all
    from lift_peer_close [OF Cons.prems(1) s(1), of r1 gs] r1(1) DoPeerClose obtain S1 where
      "ses_step gs (SConn (ses_link S ! s) (EvBridge OnStop)) S = Some S1" "ses_rtr S1 = r1" by blast
    moreover have "called r1 = called (ses_rtr S)" using r1(1) DoPeerClose by (auto split: if_splits)
    ultimately show ?thesis using s(2) by (intro exI [of _ "SConn (ses_link S ! s) (EvBridge OnStop)"]) auto
  next
    case (DoReader hs a)
    have "router_inv (ses_rtr S)" using ses_invD(1) [OF Cons.prems(1)] by (simp add: router_inv2_def)
    with readLoop_chans [of "ses_rtr S" hs a r1] r1(1) DoReader Cons.prems(2) show ?thesis
      by (intro exI [of _ "SReader hs a"]) (auto simp: ses_readLoop_def)
  qed (use Cons.prems(2) in simp_all)
  then obtain sact S1 where S1: "ses_step gs sact S = Some S1" "ses_rtr S1 = r1" "own_close sact"
    "told_close (set (called r1)) acts" by blast
  from Cons.IH [of S1] ses_step_sound [OF Cons.prems(1) S1(1)] S1 r1(2) obtain sched S' where
    "run_actions (ses_step gs) sched S1 = Some S'" "ses_rtr S' = r'" "list_all own_close sched" by auto
  with S1 show ?case by (intro exI [of _ "sact # sched"] exI [of _ S']) simp
qed

section \<open>A session to look at\<close>

text \<open>One handler on one destination, over a go-stomp on which every call succeeds.\<close>

definition ses0 :: "(nat, nat) session" where
  "ses0 = ses_start (make_chan ErrorChanBuffer) (dialed 0 plain_rwc 0)"

lemmas ses_eval =
  ses0_def ses_start_def ses_Subscribe_def ses_CallUnsubscribe_def ses_readLoop_def on_router_def sync_def
  at_message_def dialed_def half_def plain_rwc_def foreign_sub_def

lemmas ses_run_eval = ses_eval router_eval stomp_eval bridge_eval

definition ses1 :: "(nat, nat) session" where
  "ses1 = snd (ses_Subscribe calm_gostomp (CallerCtx None) ''/queue/a'' 7 ses0)"

lemma ses1_subscribed: "ses_Subscribe calm_gostomp (CallerCtx None) ''/queue/a'' 7 ses0 = (Inr 1, ses1)"
  by (simp add: ses1_def ses_run_eval)

lemma ses0_reach: "reach (ses_step calm_gostomp) (ses_start (make_chan ErrorChanBuffer) (dialed 0 plain_rwc 0)) ses0"
  by (simp add: ses0_def reach_start)

lemma ses1_reach: "reach (ses_step calm_gostomp) (ses_start (make_chan ErrorChanBuffer) (dialed 0 plain_rwc 0)) ses1"
  using reach_step [OF ses0_reach, of "SSubscribe (CallerCtx None) ''/queue/a'' 7"] by (simp add: ses1_def)

lemma ses1_closing: "closing (ses_rtr ses1) = [] \<and> length (chans (ses_rtr ses1)) = 1"
  by (simp add: ses1_def ses_run_eval)

lemma calm_no_panic: "no_foreign_panic calm_gostomp"
  by (simp add: no_foreign_panic_def calm_gostomp_def)

section \<open>Properties\<close>

text \<open>
  C13: A session refines the router: whatever go-stomp, the bridges, the readers, the callers and other
  clients of the connection do, in any order, the router of a session only reaches states it reaches
  over an arbitrary transport, so all that is shown of the router holds in a session; and each of its
  subscriptions is one of the connection, for the destination of its reader, with the same channel,
  whose messages are those go-stomp delivered, in order, and whose context has not ended.
\<close>

theorem session_refines_router:
  assumes "chan_ok ec" "\<not> ch_closed ec" "reach (ses_step gs) (ses_start ec (dialed g rw bnd)) S"
  shows "reach router_step (NewWithErrorChan (Some ec)) (ses_rtr S)
    \<and> (\<forall>a < length (chans (ses_rtr S)). \<exists>s \<in> set (sc_subs (ses_conn S)).
         chans (ses_rtr S) ! a = ss_ch s \<and> ss_dest s = dest_of (ses_rtr S) a \<and> \<not> ss_ctxdone s
         \<and> prefix (ss_taken s @ ch_buf (ss_ch s)) (map bridge_msg (ss_recvd s)))"
proof -
  from ses_reach_sim [OF assms] have I: "ses_inv S" and R: "reach router_step (NewWithErrorChan (Some ec)) (ses_rtr S)"
    by simp_all
  note D = ses_invD [OF I]
  have "\<exists>s \<in> set (sc_subs (ses_conn S)). chans (ses_rtr S) ! a = ss_ch s \<and> ss_dest s = dest_of (ses_rtr S) a \<and> \<not> ss_ctxdone s
      \<and> prefix (ss_taken s @ ch_buf (ss_ch s)) (map bridge_msg (ss_recvd s))"
    if "a < length (chans (ses_rtr S))" for a
  proof (rule bexI [of _ "sc_subs (ses_conn S) ! (ses_link S ! a)"])
    from that D(9) have a: "a < length (ses_link S)" by simp
    from D(5) [OF nth_mem [OF a]] have i: "ses_link S ! a < length (sc_subs (ses_conn S))" .
    then show "sc_subs (ses_conn S) ! (ses_link S ! a) \<in> set (sc_subs (ses_conn S))" by simp
    from D(3) D(6) [OF a] stomp_inv_sub [OF D(2) i] a
    show "chans (ses_rtr S) ! a = ss_ch (sc_subs (ses_conn S) ! (ses_link S ! a))
      \<and> ss_dest (sc_subs (ses_conn S) ! (ses_link S ! a)) = dest_of (ses_rtr S) a
      \<and> \<not> ss_ctxdone (sc_subs (ses_conn S) ! (ses_link S ! a))
      \<and> prefix (ss_taken (sc_subs (ses_conn S) ! (ses_link S ! a)) @ ch_buf (ss_ch (sc_subs (ses_conn S) ! (ses_link S ! a))))
          (map bridge_msg (ss_recvd (sc_subs (ses_conn S) ! (ses_link S ! a))))"
      by (simp add: linked_ok_def bridge_inv_def)
  qed
  with R show ?thesis by blast
qed

theorem session_refines_router_witness:
  "reach router_step (NewWithErrorChan (Some (make_chan ErrorChanBuffer))) (ses_rtr ses1)
   \<and> (\<exists>s \<in> set (sc_subs (ses_conn ses1)). chans (ses_rtr ses1) ! 0 = ss_ch s \<and> ss_dest s = dest_of (ses_rtr ses1) 0)"
  using session_refines_router [OF _ _ ses1_reach] ses1_closing by fastforce

text \<open>
  C19: The objects of a session are well typed and stay so. A subscription handle of the router names one
  subscription of the connection and no two name the same; the subscription is for the destination of
  the reader that uses it, and the channel the reader receives from is that subscription's, with room
  for \<open>subChanBuf\<close> messages and never more in it. In every continuation the handles given out before keep their
  places and their destinations, whatever other clients subscribe and unsubscribe on the connection.
\<close>

theorem session_handles_typed:
  assumes "chan_ok ec" "\<not> ch_closed ec" "reach (ses_step gs) (ses_start ec (dialed g rw bnd)) S"
    and "run_actions (ses_step gs) acts S = Some S'"
  shows "prefix (ses_link S) (ses_link S') \<and> distinct (ses_link S')
    \<and> length (ses_link S') = length (readers (ses_rtr S')) \<and> length (chans (ses_rtr S')) = length (readers (ses_rtr S'))
    \<and> (\<forall>a < length (readers (ses_rtr S')). ses_link S' ! a < length (sc_subs (ses_conn S'))
        \<and> ss_dest (sc_subs (ses_conn S') ! (ses_link S' ! a)) = dest_of (ses_rtr S') a
        \<and> chans (ses_rtr S') ! a = ss_ch (sc_subs (ses_conn S') ! (ses_link S' ! a))
        \<and> ch_cap (chans (ses_rtr S') ! a) = subChanBuf \<and> length (ch_buf (chans (ses_rtr S') ! a)) \<le> subChanBuf)
    \<and> (\<forall>a < length (readers (ses_rtr S)). dest_of (ses_rtr S') a = dest_of (ses_rtr S) a)"
proof -
  have I: "ses_inv S" using ses_reach_sim [OF assms(1-3)] by simp
  from ses_run_sound [OF I assms(4)] have I': "ses_inv S'" and sim: "simulated (ses_rtr S) (ses_rtr S')"
    and p: "prefix (ses_link S) (ses_link S')" by simp_all
  note D = ses_invD [OF I']
  have "dest_of (ses_rtr S') a = dest_of (ses_rtr S) a" if "a < length (readers (ses_rtr S))" for a
    using sim reader_names_run [OF _ that] by (auto simp: simulated_def)
  moreover have "ses_link S' ! a < length (sc_subs (ses_conn S'))
      \<and> ss_dest (sc_subs (ses_conn S') ! (ses_link S' ! a)) = dest_of (ses_rtr S') a
      \<and> chans (ses_rtr S') ! a = ss_ch (sc_subs (ses_conn S') ! (ses_link S' ! a))
      \<and> ch_cap (chans (ses_rtr S') ! a) = subChanBuf \<and> length (ch_buf (chans (ses_rtr S') ! a)) \<le> subChanBuf"
    if "a < length (readers (ses_rtr S'))" for a
  proof -
    from that D(8) have a: "a < length (ses_link S')" by simp
    from D(5) [OF nth_mem [OF a]] have i: "ses_link S' ! a < length (sc_subs (ses_conn S'))" .
    have "chan_ok (ss_ch (sc_subs (ses_conn S') ! (ses_link S' ! a)))"
      using stomp_inv_sub [OF D(2) i] by (simp add: bridge_inv_def)
    with D(3) D(6) [OF a] a i show ?thesis by (auto simp: linked_ok_def chan_ok_def)
  qed
  ultimately show ?thesis using p D(4) D(8) [symmetric] D(9) [symmetric] by (intro conjI allI impI) (blast | simp)+
qed

theorem session_handles_typed_witness:
  "\<exists>S'. run_actions (ses_step calm_gostomp) [SOtherSubscribe (CallerCtx None) ''/queue/b'', SSubscribe (CallerCtx None) ''/queue/c'' 8] ses1
      = Some S' \<and> ses_link S' = [0, 2] \<and> ss_dest (sc_subs (ses_conn S') ! 2) = ''/queue/c'' \<and> dest_of (ses_rtr S') 0 = ''/queue/a''
      \<and> length (ch_buf (chans (ses_rtr S') ! 1)) \<le> subChanBuf"
proof -
  let ?acts = "[SOtherSubscribe (CallerCtx None) ''/queue/b'', SSubscribe (CallerCtx None) ''/queue/c'' 8]"
  have r: "\<exists>S'. run_actions (ses_step calm_gostomp) ?acts ses1 = Some S' \<and> ses_link S' = [0, 2]
      \<and> length (readers (ses_rtr S')) = 2 \<and> dest_of (ses_rtr S') 1 = ''/queue/c''"
    by (simp add: ses1_def ses_run_eval)
  then obtain S' where S': "run_actions (ses_step calm_gostomp) ?acts ses1 = Some S'" "ses_link S' = [0, 2]"
      "length (readers (ses_rtr S')) = 2" "dest_of (ses_rtr S') 1 = ''/queue/c''" by blast
  have "length (readers (ses_rtr ses1)) = 1" "dest_of (ses_rtr ses1) 0 = ''/queue/a''"
    by (simp_all add: ses1_def ses_run_eval)
  with session_handles_typed [OF _ _ ses1_reach S'(1)] S' have
    "ss_dest (sc_subs (ses_conn S') ! 2) = ''/queue/c''" "dest_of (ses_rtr S') 0 = ''/queue/a''"
    "length (ch_buf (chans (ses_rtr S') ! 1)) \<le> subChanBuf" by (auto simp: dest: spec [of _ 1])
  with S'(1,2) show ?thesis by blast
qed

text \<open>
  Close of a session's router returns without any help from outside: from every state in which Close
  has not run, there is a continuation made only of Unsubscribe calls of the router, steps of its
  readers and bridges that see their \<open>stop\<close> closed, after which Close returns. No message, receipt or
  close from go-stomp or the broker is needed, and go-stomp's Unsubscribe may fail or panic with a
  runtime error.
\<close>

lemma session_close_completes:
  assumes "chan_ok ec" "\<not> ch_closed ec" "reach (ses_step gs) (ses_start ec (dialed g rw bnd)) S"
    and "closing (ses_rtr S) = []" "no_foreign_panic gs"
  shows "\<exists>sched S'. run_actions (ses_step gs) (SClose # sched @ [SCloseReturn]) S = Some S' \<and> list_all own_close sched"
proof -
  have I: "ses_inv S" using ses_reach_sim [OF assms(1-3)] by simp
  from close_returns [OF ses_invD(1) [OF I] assms(4)] obtain sched r' where
    run: "run_actions router_step (DoClose # sched @ [DoCloseReturn]) (ses_rtr S) = Some r'"
    and told: "told_close (set (called (ses_rtr S))) sched" by blast
  then obtain r1 r2 where r1: "router_step DoClose (ses_rtr S) = Some r1" "run_actions router_step sched r1 = Some r2"
    "router_step DoCloseReturn r2 = Some r'" by (auto simp: run_actions_append split: Option.bind_splits)
  let ?S1 = "S\<lparr>ses_rtr := r1\<rparr>"
  have S1: "ses_step gs SClose S = Some ?S1" using r1(1) by (simp add: on_router_def)
  have "called r1 = called (ses_rtr S)" using r1(1) by (auto simp: Close_locked_def)
  with lift_close [OF assms(5), of ?S1 sched r2] ses_step_sound [OF I S1] told r1(2) obtain ss S2 where
    "run_actions (ses_step gs) ss ?S1 = Some S2" "ses_rtr S2 = r2" "list_all own_close ss" by auto
  moreover from this r1(3) have "ses_step gs SCloseReturn S2 = Some (S2\<lparr>ses_rtr := r'\<rparr>)" by (simp add: on_router_def)
  ultimately show ?thesis
    using S1 by (intro exI [of _ ss] exI [of _ "S2\<lparr>ses_rtr := r'\<rparr>"]) (simp add: run_actions_append)
qed

end
