(* ===== verification/Delivery.thy ===== *)
theory Delivery
  imports Session
begin

text \<open>
  End to end: what a handler registered in a session is called with, compared with what go-stomp
  delivered to the subscription of its destination.
\<close>

section \<open>One handler and its reader\<close>

text \<open>The handlers a reader has still to call, and the calls made to one handler.\<close>

fun held :: "'h rpc \<Rightarrow> 'h list" where
  "held (ReadCall hl m) = hl"
| "held _ = []"

definition calls_to :: "'h \<Rightarrow> 'h router \<Rightarrow> ('h \<times> headers \<times> bytes) list" where
  "calls_to h r = filter (\<lambda>c. fst c = h) (calls r)"

definition fresh_handler :: "'h \<Rightarrow> 'h router \<Rightarrow> bool" where
  "fresh_handler h r \<longleftrightarrow>
     (\<forall>st \<in> set (states r). \<forall>t. (t, h) \<notin> set (ds_handlers st)) \<and> (\<forall>rd \<in> set (readers r). h \<notin> set (held (rd_pc rd)))
     \<and> calls_to h r = []"

text \<open>
  What the reader has taken but not handed to \<open>h\<close>: the message it is working on, or the error frame
  that ended its loop.
\<close>

fun rest_ok :: "'h \<Rightarrow> 'h rpc \<Rightarrow> Msg list \<Rightarrow> bool" where
  "rest_ok h ReadRecv rest = (rest = [])"
| "rest_ok h (ReadSnap m) rest = (rest = [m] \<and> Err m = None)"
| "rest_ok h (ReadCall hl m) rest = (if h \<in> set hl then rest = [m] \<and> Err m = None else rest = [])"
| "rest_ok h _ rest = (length rest \<le> 1 \<and> (\<forall>m \<in> set rest. Err m \<noteq> None))"

text \<open>
  Of the messages \<open>T\<close> that a reader for \<open>d\<close> at \<open>pc\<close> took, \<open>h\<close> has been called with all but the rest, once
  each and in order: \<open>cs\<close> are the calls to it.
\<close>

definition handed :: "'h \<Rightarrow> string \<Rightarrow> 'h rpc \<Rightarrow> Msg list \<Rightarrow> ('h \<times> headers \<times> bytes) list \<Rightarrow> bool" where
  "handed h d pc T cs \<longleftrightarrow>
     count_list (held pc) h \<le> 1
     \<and> (\<exists>dlv rest. T = dlv @ rest \<and> rest_ok h pc rest \<and> (\<forall>m \<in> set dlv. Err m = None)
          \<and> cs = map (\<lambda>m. (h, readLoop_headers d, Body m)) dlv)"

lemma handedI:
  "count_list (held pc) h \<le> 1 \<Longrightarrow> rest_ok h pc rest \<Longrightarrow> \<forall>m \<in> set dlv. Err m = None \<Longrightarrow>
     handed h d pc (dlv @ rest) (map (\<lambda>m. (h, readLoop_headers d, Body m)) dlv)"
  by (auto simp: handed_def)

lemma handed_ReadRecv:
  "handed h d ReadRecv T cs \<longleftrightarrow> (\<forall>m \<in> set T. Err m = None) \<and> cs = map (\<lambda>m. (h, readLoop_headers d, Body m)) T"
  by (auto simp: handed_def)

lemma handed_recv:
  assumes "handed h d ReadRecv T cs"
  shows "Err m = None \<Longrightarrow> handed h d (ReadSnap m) (T @ [m]) cs"
    "Err m \<noteq> None \<Longrightarrow> handed h d (ReadExit e) (T @ [m]) cs" "handed h d (ReadExit e) T cs"
  using assms handedI [of "ReadSnap m" h "[m]" T d] handedI [of "ReadExit e" h "[m]" T d] handedI [of "ReadExit e" h "[]" T d]
  by (simp_all add: handed_ReadRecv)

lemma handed_snap:
  assumes "handed h d (ReadSnap m) T cs" "count_list hs h = 1"
  shows "handed h d (ReadCall hs m) T cs"
proof -
  have "h \<in> set hs" using assms(2) count_list_0_iff [of hs h] by auto
  with assms show ?thesis by (simp add: handed_def)
qed

lemma handed_call:
  "handed h d (ReadCall (h' # hl) m) T cs \<Longrightarrow>
     handed h d (ReadCall hl m) T (cs @ (if h' = h then [(h, readLoop_headers d, Body m)] else []))"
proof (cases "h' = h")
  case True
  assume H: "handed h d (ReadCall (h' # hl) m) T cs"
  with True have "h \<notin> set hl" by (simp add: handed_def count_list_0_iff)
  moreover from H True obtain dlv where "T = dlv @ [m]" "Err m = None" "\<forall>m \<in> set dlv. Err m = None"
    "cs = map (\<lambda>m. (h, readLoop_headers d, Body m)) dlv" by (auto simp: handed_def)
  ultimately show ?thesis using True
    by (auto simp: handed_def count_list_0_iff intro!: exI [of _ "dlv @ [m]"])
qed (auto simp: handed_def)

lemma handed_after: "handed h d pc T cs \<Longrightarrow> \<not> in_loop pc \<Longrightarrow> \<not> in_loop pc' \<Longrightarrow> handed h d pc' T cs"
  by (cases pc; cases pc') (simp_all add: handed_def)

lemma handed_fresh: "h \<notin> set (held pc) \<Longrightarrow> rest_ok h pc T \<Longrightarrow> handed h d pc T []"
  by (auto simp: handed_def count_list_0_iff)

lemma handed_back: "handed h d (ReadCall [] m) T cs \<Longrightarrow> handed h d ReadRecv T cs"
  by (auto simp: handed_def)

text \<open>
  \<open>h\<close> is registered once, under \<open>tok\<close>, on the state \<open>a\<close> and nowhere else, and of the messages \<open>T\<close> the
  reader of \<open>a\<close> took since, \<open>h\<close> has been called with all but the rest, once each and in order.
\<close>

definition serves :: "'h \<Rightarrow> token \<Rightarrow> nat \<Rightarrow> Msg list \<Rightarrow> 'h router \<Rightarrow> bool" where
  "serves h tok a T r \<longleftrightarrow>
     a < length (states r) \<and> {t. (t, h) \<in> set (ds_handlers (states r ! a))} = {tok}
     \<and> (\<forall>b < length (states r). b \<noteq> a \<longrightarrow>
          (\<forall>t. (t, h) \<notin> set (ds_handlers (states r ! b))) \<and> h \<notin> set (held (pc_of r b)))
     \<and> handed h (dest_of r a) (pc_of r a) T (calls_to h r)"

lemma servesD:
  assumes "serves h tok a T r"
  shows "a < length (states r)" "{t. (t, h) \<in> set (ds_handlers (states r ! a))} = {tok}"
    "b < length (states r) \<Longrightarrow> b \<noteq> a \<Longrightarrow> (\<forall>t. (t, h) \<notin> set (ds_handlers (states r ! b))) \<and> h \<notin> set (held (pc_of r b))"
  using assms by (simp_all add: serves_def)

text \<open>A step that leaves the reader of \<open>a\<close> and the calls to \<open>h\<close> alone.\<close>

lemma serves_frame:
  assumes "serves h tok a T r" "a < length (states r')"
    and "{t. (t, h) \<in> set (ds_handlers (states r' ! a))} = {tok}"
    and "\<And>b. b < length (states r') \<Longrightarrow> b \<noteq> a \<Longrightarrow>
      (\<forall>t. (t, h) \<notin> set (ds_handlers (states r' ! b))) \<and> h \<notin> set (held (pc_of r' b))"
    and "readers r' ! a = readers r ! a" "calls_to h r' = calls_to h r"
  shows "serves h tok a T r'"
  using assms by (simp add: serves_def)

lemma serves_other_fields [simp]:
  "serves h tok a T (r\<lparr>chans := cs\<rparr>) = serves h tok a T r" "serves h tok a T (r\<lparr>pending := ps\<rparr>) = serves h tok a T r"
  "serves h tok a T (r\<lparr>called := ps\<rparr>) = serves h tok a T r" "serves h tok a T (r\<lparr>closing := ps\<rparr>) = serves h tok a T r"
  "serves h tok a T (r\<lparr>dests := ds\<rparr>) = serves h tok a T r" "serves h tok a T (r\<lparr>errs := ec\<rparr>) = serves h tok a T r"
  by (simp_all add: serves_def calls_to_def)

lemma serves_Subscribe:
  assumes "router_inv r" "serves h tok a T r" "h' \<noteq> h" "nextToken r + 1 \<noteq> tok"
  shows "serves h tok a T (snd (router_Subscribe dest h' res n r))"
proof -
  note D = servesD [OF assms(2)]
  note I = router_invD [OF assms(1)]
  have upd: "(t, h) \<in> set (AList.update k h' xs) \<longleftrightarrow> (t, h) \<in> set xs \<and> t \<noteq> k" if "distinct (map fst xs)" for t k xs
    using that assms(3) by (auto simp: set_alist_update)
  have dist: "distinct (map fst (ds_handlers (states r ! b)))" if "b < length (states r)" for b
    using I(4) [OF that] by (simp add: cell_ok_def)
  show ?thesis
  proof (cases "live_state r dest")
    case (Some b)
    then have b: "b < length (states r)" using registered_entry(1) [OF assms(1)] by (auto simp: live_state_def split: option.splits if_splits)
    show ?thesis
      using Some D b upd [OF dist [OF b]] assms(4) I(1)
      by (intro serves_frame [OF assms(2)])
        (auto simp: router_Subscribe_def Let_def calls_to_def nth_list_update)
  next
    case None
    show ?thesis
      using None D I(1) assms(3)
      by (intro serves_frame [OF assms(2)])
        (auto simp: router_Subscribe_def Let_def calls_to_def nth_append less_Suc_eq split: option.splits)
  qed
qed

lemma serves_Unsubscribe:
  assumes "router_inv r" "serves h tok a T r" "d = dest_of r a \<longrightarrow> t \<noteq> tok" "Unsubscribe_locked d t r = (s, r')"
  shows "serves h tok a T r'"
proof (cases "map_of (dests r) d")
  case None
  with assms(2,4) show ?thesis by (simp add: Unsubscribe_locked_def)
next
  case (Some b)
  note D = servesD [OF assms(2)]
  have b: "b < length (states r)" "dest_of r b = d"
    using registered_entry [OF assms(1) Some] by simp_all
  have t: "b = a \<Longrightarrow> t \<noteq> tok" using b(2) assms(3) by auto
  have "states r' = (states r)[b := (states r ! b)\<lparr>ds_handlers := AList.delete t (ds_handlers (states r ! b))\<rparr>]
    \<and> readers r' = readers r \<and> calls r' = calls r"
    using Some assms(4) by (auto simp: Unsubscribe_locked_def Let_def split: if_splits)
  with D b t show ?thesis
    by (intro serves_frame [OF assms(2)]) (auto simp: calls_to_def nth_list_update)
qed

lemma reader_step_frame:
  assumes "readLoop_step hs b r = Some r'" "b < length (states r)"
  shows "length (states r') = length (states r) \<and> (\<forall>c. ds_handlers (states r' ! c) = ds_handlers (states r ! c))
    \<and> (\<forall>c. c \<noteq> b \<longrightarrow> readers r' ! c = readers r ! c) \<and> dest_of r' b = dest_of r b"
proof -
  have "ds_handlers ((states r)[b := (states r ! b)\<lparr>ds_done := True\<rparr>] ! c) = ds_handlers (states r ! c)" for c
    using assms(2) by (simp add: nth_list_update)
  with assms(1) show ?thesis
    by (auto simp: readLoop_step_def Let_def
      split: if_splits rpc.splits option.splits list.splits recv_result.splits send_result.splits)
qed

text \<open>Steps of other readers never call \<open>h\<close>.\<close>

lemma serves_other_reader:
  assumes "router_inv r" "serves h tok a T r" "b \<noteq> a" "readLoop_step hs b r = Some r'"
  shows "serves h tok a T r'"
proof -
  note D = servesD [OF assms(2)]
  note I = router_invD [OF assms(1)]
  have b: "b < length (states r)" using assms(4) I(1) by (auto simp: readLoop_step_def split: if_splits)
  note Db = D(3) [OF b assms(3)]
  have hs: "h \<notin> set hs" if "mset hs = mset (map snd (ds_handlers (states r ! b)))"
    using mset_eq_setD [OF that] Db by auto
  note st = reader_step_frame [OF assms(4) b]
  have "h \<notin> set (held (pc_of r' b)) \<and> calls_to h r' = calls_to h r"
    using assms(4) hs Db by (auto simp: readLoop_step_def Let_def calls_to_def
      split: if_splits rpc.splits option.splits list.splits recv_result.splits send_result.splits)
  with st D assms(3) show ?thesis
    by (intro serves_frame [OF assms(2)]) (metis)+
qed

lemma count_snd_once:
  assumes "distinct (map fst xs)" "{t. (t, h) \<in> set xs} = {tok}"
  shows "count_list (map snd xs) h = 1"
proof -
  have "distinct (filter (\<lambda>p. snd p = h) xs)" using assms(1) by (simp add: distinct_map)
  moreover have "set (filter (\<lambda>p. snd p = h) xs) = {(tok, h)}" using assms(2) by (auto simp: set_eq_iff)
  ultimately have "length (filter (\<lambda>p. snd p = h) xs) = 1" using distinct_card by fastforce
  moreover have "count_list (map snd xs) h = length (filter (\<lambda>p. snd p = h) xs)" by (induction xs) auto
  ultimately show ?thesis by simp
qed

text \<open>A step of the reader itself: one more message taken, or one more call made.\<close>

definition took :: "nat \<Rightarrow> 'h router \<Rightarrow> Msg list" where
  "took a r = (if at_message a r then [hd (ch_buf (chans r ! a))] else [])"

lemma handed_reader:
  assumes I: "router_inv r" and S: "serves h tok a T r" and st: "readLoop_step hs a r = Some r'"
  shows "handed h (dest_of r a) (pc_of r' a) (T @ took a r) (calls_to h r')"
proof -
  note D = servesD [OF S]
  have H: "handed h (dest_of r a) (pc_of r a) T (calls_to h r)" using S by (simp add: serves_def)
  have a: "a < length (readers r)" "ds_sub (states r ! a) = a" "distinct (map fst (ds_handlers (states r ! a)))"
    using D(1) router_invD(1) [OF I] router_invD(4) [OF I D(1)] by (simp_all add: cell_ok_def)
  have out: "\<not> in_loop (pc_of r' a) \<and> calls_to h r' = calls_to h r \<and> took a r = []" if "\<not> in_loop (pc_of r a)"
    using st a(1) that by (auto simp: readLoop_step_def took_def at_message_def calls_to_def Let_def
      split: if_splits rpc.splits recv_result.splits send_result.splits option.splits)
  show ?thesis
  proof (cases "pc_of r a")
    case ReadRecv
    note R = handed_recv [OF H [unfolded ReadRecv]]
    show ?thesis
    proof (cases "ch_buf (chans r ! a)")
      case Nil
      with ReadRecv st a R(3) show ?thesis
        by (auto simp: readLoop_step_def took_def at_message_def try_recv_def calls_to_def split: if_splits)
    next
      case (Cons m ms)
      with ReadRecv a have "took a r = [m]" "try_recv (chans r ! a) = Received m ((chans r ! a)\<lparr>ch_buf := ms\<rparr>)"
        by (simp_all add: took_def at_message_def try_recv_def)
      with ReadRecv st a R(1,2) [of m] show ?thesis
        by (auto simp: readLoop_step_def calls_to_def Let_def split: option.splits)
    qed
  next
    case (ReadSnap m)
    with st a have hs: "mset hs = mset (map snd (ds_handlers (states r ! a)))" "r' = set_pc a (ReadCall hs m) r"
      by (auto simp: readLoop_step_def split: if_splits)
    have "count_list hs h = 1"
      using arg_cong [OF hs(1), of "\<lambda>M. count M h"] count_snd_once [OF a(3) D(2)]
      by (simp add: count_mset count_list_eq_length_filter flip: mset_map)
    with handed_snap [OF H [unfolded ReadSnap]] ReadSnap a hs(2) show ?thesis
      by (simp add: took_def at_message_def calls_to_def)
  next
    case (ReadCall hl m)
    show ?thesis
    proof (cases hl)
      case Nil
      with handed_back [of h _ m T] ReadCall H st a show ?thesis
        by (auto simp: readLoop_step_def took_def at_message_def calls_to_def)
    next
      case (Cons h' hl')
      with handed_call [of h "dest_of r a" h' hl' m T "calls_to h r"] ReadCall H st a show ?thesis
        by (auto simp: readLoop_step_def took_def at_message_def calls_to_def)
    qed
  qed (use handed_after [OF H] out in simp_all)
qed

lemma serves_reader:
  assumes "router_inv r" "serves h tok a T r" "readLoop_step hs a r = Some r'"
  shows "serves h tok a (T @ took a r) r'"
  using handed_reader [OF assms] reader_step_frame [OF assms(3)] servesD [OF assms(2)] by (auto simp: serves_def)

lemma serves_router_step:
  assumes "router_inv r" "serves h tok a T r" "router_step ract r = Some r'" "\<not> is_subscribe ract"
    "ract \<noteq> DoUnsubscribe (dest_of r a) tok"
  shows "serves h tok a (T @ (case ract of DoReader hs b \<Rightarrow> if b = a then took a r else [] | _ \<Rightarrow> [])) r'"
proof (cases ract)
  case (DoUnsubscribe d t)
  obtain s r1 where u: "Unsubscribe_locked d t r = (s, r1)" by fastforce
  from serves_Unsubscribe [OF assms(1,2) _ u] assms(3,5) DoUnsubscribe u show ?thesis by auto
next
  case (DoReader hs b)
  with serves_reader [OF assms(1,2)] serves_other_reader [OF assms(1,2)] assms(3) show ?thesis by (cases "b = a") auto
qed (use assms in \<open>auto simp: Close_locked_def split: if_splits send_result.splits recv_result.splits\<close>)

section \<open>The same in a session\<close>

abbreviation sub_of :: "('g, 'h) session \<Rightarrow> nat \<Rightarrow> ssub" where
  "sub_of S a \<equiv> sc_subs (ses_conn S) ! (ses_link S ! a)"

text \<open>What a step of the session is for the router.\<close>

fun as_router :: "'h ses_action \<Rightarrow> 'h action option" where
  "as_router (SUnsubscribe dest tok) = Some (DoUnsubscribe dest tok)"
| "as_router SClose = Some DoClose"
| "as_router (SCallUnsubscribe s) = Some (DoCallUnsubscribe s)"
| "as_router SCloseReturn = Some DoCloseReturn"
| "as_router (SReader hs a) = Some (DoReader hs a)"
| "as_router SConsume = Some DoConsume"
| "as_router _ = None"

lemma ses_Subscribe_router:
  "ses_Subscribe gs ctx dest h S = (t, S') \<Longrightarrow> \<exists>res n. router_Subscribe dest h res n (ses_rtr S) = (t, ses_rtr S')"
  by (cases "live_state (ses_rtr S) dest"; cases "stomp_Subscribe gs (WithoutCancel ctx) dest (ses_conn S)")
    (auto simp: ses_Subscribe_def split: prod.splits sum.splits, blast+)

lemma ses_step_as_router:
  assumes "ses_step gs act S = Some S'"
  shows "case as_router act of
      Some ract \<Rightarrow> router_step ract (ses_rtr S) = Some (ses_rtr S')
    | None \<Rightarrow> (case act of
        SSubscribe ctx dest h \<Rightarrow> \<exists>res n. ses_rtr S' = snd (router_Subscribe dest h res n (ses_rtr S))
      | _ \<Rightarrow> \<exists>cs. ses_rtr S' = (ses_rtr S)\<lparr>chans := cs\<rparr>)"
proof (cases act)
  case (SSubscribe ctx dest h)
  obtain t S1 where t: "ses_Subscribe gs ctx dest h S = (t, S1)" by fastforce
  from ses_Subscribe_router [OF t] obtain res n where "ses_rtr S1 = snd (router_Subscribe dest h res n (ses_rtr S))"
    by (metis snd_conv)
  with SSubscribe assms t show ?thesis by auto
qed (use assms in \<open>auto simp: on_router_def ses_CallUnsubscribe_def ses_readLoop_def sync_def
    split: option.splits prod.splits outcome.splits if_splits
    intro: exI [of _ "chans (ses_rtr S)"]\<close>)

text \<open>Only a reader takes messages of its subscription.\<close>

definition taken_kept :: "'g sconn \<Rightarrow> 'g sconn \<Rightarrow> bool" where
  "taken_kept c c' \<longleftrightarrow> (\<forall>i < length (sc_subs c). ss_taken (sc_subs c' ! i) = ss_taken (sc_subs c ! i))"

lemma sub_step_taken: "sub_step ev s = Some (s', mark) \<Longrightarrow> ev \<noteq> Take \<Longrightarrow> ss_taken s' = ss_taken s"
proof (cases ev)
  case (Bridge ch)
  assume "sub_step ev s = Some (s', mark)"
  with Bridge show ?thesis
    by (cases "ss_pc s"; cases ch)
      (auto simp: bridge_steps split: recv_result.splits send_result.splits if_splits)
qed (auto split: send_result.splits if_splits)

lemma update_sub_taken: "ss_taken (f (sc_subs c ! i)) = ss_taken (sc_subs c ! i) \<Longrightarrow> taken_kept c (update_sub i f c)"
  by (cases "i < length (sc_subs c)") (auto simp: taken_kept_def update_sub_def nth_list_update)

lemma sub_event_taken:
  assumes "ev \<noteq> Take"
  shows "taken_kept c (sub_event_step i ev c)"
proof (cases "sub_step ev (sc_subs c ! i)")
  case (Some p)
  obtain s' mark where p: "sub_step ev (sc_subs c ! i) = Some (s', mark)" using Some by (cases p) auto
  have "taken_kept c (update_sub i (\<lambda>_. s') c)" by (rule update_sub_taken) (simp add: sub_step_taken [OF p assms])
  with p show ?thesis by (simp add: sub_event_step_def taken_kept_def markEnded_def Let_def)
qed (simp add: sub_event_step_def taken_kept_def)

lemma Unsubscribe_taken: "sub_Unsubscribe_stomp gs i c = (r, c') \<Longrightarrow> taken_kept c c'"
proof (cases "ss_once (sc_subs c ! i)")
  case True
  assume "sub_Unsubscribe_stomp gs i c = (r, c')"
  with True show ?thesis by (simp add: sub_Unsubscribe_stomp_def taken_kept_def)
next
  case False
  assume u: "sub_Unsubscribe_stomp gs i c = (r, c')"
  let ?c1 = "update_sub i (\<lambda>s. s\<lparr>ss_once := True, ss_stop := True\<rparr>) c"
  obtain r2 c2 where u2: "sub_unsubscribe gs i ?c1 = (r2, c2)" by fastforce
  have "taken_kept c ?c1" by (rule update_sub_taken) simp
  moreover have "sc_subs c2 = sc_subs ?c1" using sub_unsubscribe_frame [OF u2] by simp
  moreover have "taken_kept c2 (update_sub i (\<lambda>s. s\<lparr>ss_err := e\<rparr>) c2)" for e by (rule update_sub_taken) simp
  ultimately show ?thesis
    using u u2 False by (auto simp: sub_Unsubscribe_stomp_def taken_kept_def split: outcome.splits)
qed

lemma stomp_event_taken: "taken_kept c (fst (stomp_event_step gs i ev (c, d)))"
proof (cases ev)
  case EvSpawned
  let ?c1 = "update_sub i (\<lambda>s. s\<lparr>ss_spawned := ss_spawned s - 1\<rparr>) c"
  have "taken_kept c ?c1" by (rule update_sub_taken) simp
  with EvSpawned Unsubscribe_taken [of gs i ?c1] show ?thesis
    by (cases "sub_Unsubscribe_stomp gs i ?c1") (auto simp: taken_kept_def)
qed (simp_all add: sub_event_taken)

lemma Subscribe_taken: "stomp_Subscribe gs ctx dest c = (res, c') \<Longrightarrow> taken_kept c c'"
  by (auto simp: stomp_Subscribe_def taken_kept_def nth_append split: prod.splits sum.splits)

lemma sub_event_other: "k \<noteq> i \<Longrightarrow> sc_subs (sub_event_step i ev c) ! k = sc_subs c ! k"
  by (simp add: sub_event_step_def Let_def markEnded_def split: option.splits prod.splits)

definition taking :: "nat \<Rightarrow> 'h ses_action \<Rightarrow> ('g, 'h) session \<Rightarrow> Msg list" where
  "taking a act S = (case act of SReader hs b \<Rightarrow> if b = a then took a (ses_rtr S) else [] | _ \<Rightarrow> [])"

lemma ses_taken_reader:
  assumes I: "ses_inv S" and st: "ses_readLoop hs b S = Some S'" and a: "a < length (ses_link S)"
  shows "ses_link S' = ses_link S \<and> ss_taken (sub_of S' a) = ss_taken (sub_of S a) @ (if b = a then took a (ses_rtr S) else [])"
proof -
  note D = ses_invD [OF I]
  from st obtain r where r: "readLoop_step hs b (ses_rtr S) = Some r" by (auto simp: ses_readLoop_def split: option.splits)
  have inv: "router_inv (ses_rtr S)" using D(1) by (simp add: router_inv2_def)
  have b: "b < length (readers (ses_rtr S))" "ds_sub (states (ses_rtr S) ! b) = b"
    using r router_invD(1,4) [OF inv] by (auto simp: readLoop_step_def cell_ok_def split: if_splits)
  show ?thesis
  proof (cases "at_message b (ses_rtr S)")
    case False
    with st r show ?thesis by (auto simp: ses_readLoop_def took_def)
  next
    case True
    have ne: "ses_link S ! b = ses_link S ! a \<longleftrightarrow> b = a" using D(4,8) a b by (simp add: nth_eq_iff_index_eq)
    have i: "ses_link S ! a < length (sc_subs (ses_conn S))" using D(5) a by simp
    have ch: "chans (ses_rtr S) ! b = ss_ch (sub_of S b)" using D(3,8) b by simp
    with True b obtain m ms where buf: "ch_buf (ss_ch (sub_of S b)) = m # ms"
      by (auto simp: at_message_def neq_Nil_conv)
    then have "S' = S\<lparr>ses_rtr := r, ses_conn := update_sub (ses_link S ! b)
        (\<lambda>_. (sub_of S b)\<lparr>ss_ch := (ss_ch (sub_of S b))\<lparr>ch_buf := ms\<rparr>, ss_taken := ss_taken (sub_of S b) @ [m]\<rparr>) (ses_conn S)\<rparr>"
      using st r b True by (auto simp: ses_readLoop_def sub_event_step_def try_recv_def)
    with ne buf ch True i show ?thesis by (cases "b = a") (simp_all add: took_def)
  qed
qed

lemma ses_taken:
  assumes I: "ses_inv S" and st: "ses_step gs act S = Some S'" and a: "a < length (ses_link S)"
  shows "a < length (ses_link S') \<and> ss_taken (sub_of S' a) = ss_taken (sub_of S a) @ taking a act S"
proof -
  have i: "ses_link S ! a < length (sc_subs (ses_conn S))" using ses_invD(5) [OF I] a by simp
  have kept: "?thesis" if "taken_kept (ses_conn S) (ses_conn S')" "ses_link S' = ses_link S" "taking a act S = []"
    using that a i by (simp add: taken_kept_def)
  show ?thesis
  proof (cases act)
    case (SSubscribe ctx dest h)
    obtain res c where sub: "stomp_Subscribe gs (WithoutCancel ctx) dest (ses_conn S) = (res, c)" by fastforce
    have S': "ses_conn S' = ses_conn S \<or> ses_conn S' = c" "ses_link S' = ses_link S \<or> (\<exists>j. ses_link S' = ses_link S @ [j])"
      using st SSubscribe sub by (auto simp: ses_Subscribe_def split: option.splits prod.splits sum.splits)
    from S'(1) Subscribe_taken [OF sub] have "taken_kept (ses_conn S) (ses_conn S')" by (auto simp: taken_kept_def)
    with S'(2) a i SSubscribe show ?thesis by (auto simp: taken_kept_def taking_def nth_append)
  next
    case (SReader hs b)
    with ses_taken_reader [OF I _ a, of hs b S'] st a show ?thesis by (auto simp: taking_def)
  next
    case (SConn j ev)
    with st stomp_event_taken [of "ses_conn S" gs j ev None] show ?thesis
      by (intro kept) (auto simp: sync_def taking_def split: if_splits)
  next
    case (SCallUnsubscribe s)
    with st Unsubscribe_taken show ?thesis
      by (intro kept) (auto simp: ses_CallUnsubscribe_def taking_def split: option.splits prod.splits outcome.splits)
  next
    case (SOtherSubscribe ctx dest)
    with st Subscribe_taken [OF prod.collapse [symmetric]] show ?thesis by (intro kept) (auto simp: taking_def)
  next
    case (SOtherUnsubscribe j)
    with st Unsubscribe_taken show ?thesis
      by (intro kept) (auto simp: taking_def split: if_splits prod.splits outcome.splits)
  next
    case (SOtherTake j)
    then have "foreign_sub j S" "S' = S\<lparr>ses_conn := sub_event_step j Take (ses_conn S)\<rparr>" using st by (auto split: if_splits)
    moreover from this(1) nth_mem [OF a] have "ses_link S ! a \<noteq> j" by (auto simp: foreign_sub_def)
    ultimately show ?thesis using SOtherTake a by (simp add: taking_def sub_event_other)
  next
    case (SSend d ct b hs)
    have "sc_subs (snd (stomp_Send gs d ct b hs (ses_conn S))) = sc_subs (ses_conn S)"
      by (simp add: stomp_Send_def split: prod.splits option.splits)
    with st SSend show ?thesis by (intro kept) (auto simp: taking_def taken_kept_def)
  qed (use st a in \<open>auto simp: on_router_def taking_def\<close>)
qed

text \<open>A step that does not remove the handler and does not register it again.\<close>

fun keeps_handler :: "'h \<Rightarrow> string \<Rightarrow> token \<Rightarrow> 'h ses_action \<Rightarrow> bool" where
  "keeps_handler h dest tok (SSubscribe ctx d h') = (h' \<noteq> h)"
| "keeps_handler h dest tok (SUnsubscribe d t) = (d \<noteq> dest \<or> t \<noteq> tok)"
| "keeps_handler h dest tok _ = True"

lemma as_router_not_subscribe: "as_router act = Some ract \<Longrightarrow> \<not> is_subscribe ract"
  by (cases act) auto

lemma serves_step:
  assumes "ses_inv S" "ses_step gs act S = Some S'" "serves h tok a T (ses_rtr S)"
    "keeps_handler h (dest_of (ses_rtr S) a) tok act" "nextToken (ses_rtr S) + 1 \<noteq> tok"
  shows "serves h tok a (T @ taking a act S) (ses_rtr S')"
proof -
  have I: "router_inv (ses_rtr S)" using ses_invD(1) [OF assms(1)] by (simp add: router_inv2_def)
  note A = ses_step_as_router [OF assms(2)]
  show ?thesis
  proof (cases "as_router act")
    case (Some ract)
    have "ract \<noteq> DoUnsubscribe (dest_of (ses_rtr S) a) tok" using Some assms(4) by (cases act) auto
    with serves_router_step [OF I assms(3) _ as_router_not_subscribe [OF Some]] A Some show ?thesis
      by (cases act) (auto simp: taking_def)
  next
    case None
    show ?thesis
    proof (cases act)
      case (SSubscribe ctx dest h')
      with A assms(4) serves_Subscribe [OF I assms(3) _ assms(5)] show ?thesis by (auto simp: taking_def)
    qed (use None A assms(3) in \<open>auto simp: taking_def\<close>)
  qed
qed

lemma token_step:
  "router_step ract r = Some r' \<Longrightarrow> \<not> is_subscribe ract \<Longrightarrow>
     nextToken r' = nextToken r \<and> length (readers r') = length (readers r)"
  by (cases ract) (auto simp: Unsubscribe_locked_def Close_locked_def readLoop_step_def Let_def
      split: option.splits if_splits list.splits rpc.splits send_result.splits recv_result.splits prod.splits)

lemma ses_token:
  assumes "ses_step gs act S = Some S'"
  shows "nextToken (ses_rtr S') = nextToken (ses_rtr S) \<or> nextToken (ses_rtr S') = nextToken (ses_rtr S) + 1"
proof (cases "as_router act")
  case (Some ract)
  with ses_step_as_router [OF assms] token_step [OF _ as_router_not_subscribe [OF Some]] show ?thesis by simp
next
  case None
  with ses_step_as_router [OF assms] show ?thesis
    by (cases act) (auto simp: router_Subscribe_def Let_def split: option.splits)
qed

lemma serves_run:
  assumes "ses_inv S" "run_actions (ses_step gs) acts S = Some S'" "a < length (ses_link S)"
    "serves h tok a (drop k (ss_taken (sub_of S a))) (ses_rtr S)" "k \<le> length (ss_taken (sub_of S a))"
    "list_all (keeps_handler h (dest_of (ses_rtr S) a) tok) acts"
    "nextToken (ses_rtr S) = tok + of_nat j" "j + length acts < 2 ^ 64"
  shows "ses_inv S' \<and> a < length (ses_link S') \<and> dest_of (ses_rtr S') a = dest_of (ses_rtr S) a
    \<and> serves h tok a (drop k (ss_taken (sub_of S' a))) (ses_rtr S')"
  using assms
proof (induction acts arbitrary: S j)
  case (Cons act acts)
  then obtain S1 where st: "ses_step gs act S = Some S1" and run: "run_actions (ses_step gs) acts S1 = Some S'"
    by (auto split: Option.bind_splits)
  note T = ses_taken [OF Cons.prems(1) st Cons.prems(3)]
  have "unat (of_nat (Suc j) :: token) = Suc j" using Cons.prems(8) by (simp add: unat_of_nat del: of_nat_Suc)
  then have "of_nat (Suc j) \<noteq> (0 :: token)" by (metis nat.distinct(1) unat_0)
  then have "nextToken (ses_rtr S) + 1 \<noteq> tok" using Cons.prems(7) by (simp add: add.assoc add.commute [of _ 1])
  with serves_step [OF Cons.prems(1) st Cons.prems(4)] Cons.prems(5,6) T
  have s1: "serves h tok a (drop k (ss_taken (sub_of S1 a))) (ses_rtr S1)" "k \<le> length (ss_taken (sub_of S1 a))" by simp_all
  have d: "dest_of (ses_rtr S1) a = dest_of (ses_rtr S) a"
  proof -
    have "simulated (ses_rtr S) (ses_rtr S1)" using ses_step_sound [OF Cons.prems(1) st] by simp
    then show ?thesis using ses_invD(8) [OF Cons.prems(1)] Cons.prems(3) by (auto simp: simulated_def dest: reader_names_run)
  qed
  obtain j' where j': "nextToken (ses_rtr S1) = tok + of_nat j'" "j' \<le> Suc j"
    using ses_token [OF st] Cons.prems(7) that [of j] that [of "Suc j"] by (auto simp: algebra_simps)
  from Cons.IH [OF _ run _ s1 _ j'(1)] ses_step_sound [OF Cons.prems(1) st] T d Cons.prems(6,8) j'(2) show ?case by simp
qed simp

section \<open>The message a reader holds\<close>

text \<open>A message that a reader is about to dispatch carries no error and is the last one it took.\<close>

definition holds_last :: "('g, 'h) session \<Rightarrow> bool" where
  "holds_last S \<longleftrightarrow> (\<forall>a < length (ses_link S). \<forall>m. pc_of (ses_rtr S) a = ReadSnap m \<longrightarrow>
     ss_taken (sub_of S a) \<noteq> [] \<and> last (ss_taken (sub_of S a)) = m \<and> Err m = None)"

lemma other_reader_kept:
  assumes "router_step ract r = Some r'" "a < length (readers r)" "\<And>hs. ract \<noteq> DoReader hs a"
  shows "readers r' ! a = readers r ! a"
proof (cases ract)
  case (DoReader hs b)
  with assms show ?thesis
    by (cases "b = a") (auto simp: readLoop_step_def Let_def
      split: if_splits rpc.splits option.splits list.splits recv_result.splits send_result.splits)
qed (use assms in \<open>auto simp: router_Subscribe_def Unsubscribe_locked_def Close_locked_def Let_def nth_append
    split: option.splits if_splits send_result.splits recv_result.splits\<close>)

lemma reader_snap:
  assumes "router_inv r" "readLoop_step hs a r = Some r'" "pc_of r' a = ReadSnap m"
  shows "took a r = [m] \<and> Err m = None"
proof -
  have a: "a < length (readers r)" using assms(2) by (auto simp: readLoop_step_def split: if_splits)
  then have "ds_sub (states r ! a) = a" using router_invD(1,4) [OF assms(1)] by (simp add: cell_ok_def)
  with a assms(2,3) show ?thesis
    by (auto simp: readLoop_step_def Let_def took_def at_message_def try_recv_def
      split: if_splits rpc.splits option.splits list.splits send_result.splits recv_result.splits)
qed

lemma ses_pc:
  assumes "ses_inv S" "ses_step gs act S = Some S'" "a < length (ses_link S')" "pc_of (ses_rtr S') a = ReadSnap m"
  shows "a < length (ses_link S) \<and> (taking a act S = [m] \<and> Err m = None \<or> taking a act S = [] \<and> pc_of (ses_rtr S) a = ReadSnap m)"
proof -
  note D = ses_invD [OF assms(1)] and D' = ses_invD [OF ses_step_sound [THEN conjunct1, OF assms(1,2)]]
  have I: "router_inv (ses_rtr S)" using D(1) by (simp add: router_inv2_def)
  note A = ses_step_as_router [OF assms(2)]
  have a': "a < length (readers (ses_rtr S'))" using assms(3) D'(8) by simp
  show ?thesis
  proof (cases "as_router act")
    case (Some ract)
    with A have st: "router_step ract (ses_rtr S) = Some (ses_rtr S')" by simp
    have a: "a < length (readers (ses_rtr S))"
      using token_step [OF st as_router_not_subscribe [OF Some]] a' by simp
    show ?thesis
    proof (cases "\<exists>hs. ract = DoReader hs a")
      case True
      with st reader_snap [OF I _ assms(4)] Some a D(8) show ?thesis by (cases act) (auto simp: taking_def)
    next
      case False
      with other_reader_kept [OF st a] assms(4) Some a D(8) show ?thesis by (cases act) (auto simp: taking_def)
    qed
  next
    case None
    show ?thesis
    proof (cases act)
      case (SSubscribe ctx dest h)
      with A obtain res n where "ses_rtr S' = snd (router_Subscribe dest h res n (ses_rtr S))" by auto
      with assms(4) a' SSubscribe D(8) show ?thesis
        by (auto simp: router_Subscribe_def Let_def taking_def nth_append split: option.splits if_splits)
    qed (use None A assms(4) a' D(8) in \<open>auto simp: taking_def\<close>)
  qed
qed

lemma holds_last_step:
  assumes "ses_inv S" "holds_last S" "ses_step gs act S = Some S'"
  shows "holds_last S'"
  unfolding holds_last_def
proof (intro allI impI)
  fix a m
  assume a: "a < length (ses_link S')" and pc: "pc_of (ses_rtr S') a = ReadSnap m"
  note P = ses_pc [OF assms(1,3) a pc]
  with ses_taken [OF assms(1,3), of a] assms(2) show "ss_taken (sub_of S' a) \<noteq> [] \<and> last (ss_taken (sub_of S' a)) = m \<and> Err m = None"
    by (auto simp: holds_last_def)
qed

lemma ses_reach_holds:
  assumes "chan_ok ec" "\<not> ch_closed ec" "reach (ses_step gs) (ses_start ec (dialed g rw bnd)) S"
  shows "ses_inv S \<and> holds_last S"
  using assms(3)
proof (induction rule: reach.induct)
  case reach_start
  show ?case using ses_inv_start [OF assms(1,2)] by (simp add: holds_last_def ses_start_def)
next
  case (reach_step S act S')
  then show ?case using ses_step_sound holds_last_step by blast
qed

section \<open>Registration\<close>

lemma serves_new:
  assumes "router_inv r" "fresh_handler h r" "router_Subscribe dest h res n r = (Inr tok, r')"
  shows "\<exists>a. map_of (dests r') dest = Some a \<and> a < length (readers r') \<and> dest_of r' a = dest \<and> nextToken r' = tok
    \<and> h \<notin> set (held (pc_of r' a)) \<and> (\<forall>T. rest_ok h (pc_of r' a) T \<longrightarrow> serves h tok a T r')"
proof -
  note I = router_invD [OF assms(1)]
  have F: "\<And>b t. b < length (states r) \<Longrightarrow> (t, h) \<notin> set (ds_handlers (states r ! b))"
    "\<And>b. b < length (readers r) \<Longrightarrow> h \<notin> set (held (pc_of r b))" "calls_to h r = []"
    using assms(2) by (auto simp: fresh_handler_def)
  have tok: "tok = nextToken r + 1" "nextToken r' = tok"
    using assms(3) by (auto simp: router_Subscribe_def Let_def split: option.splits)
  show ?thesis
  proof (cases "live_state r dest")
    case (Some a)
    then have reg: "map_of (dests r) dest = Some a" by (simp add: live_state_Some)
    note E = registered_entry [OF assms(1) reg]
    have "distinct (map fst (ds_handlers (states r ! a)))" using I(4) [OF E(1)] by (simp add: cell_ok_def)
    then have "{t. (t, h) \<in> set (AList.update tok h (ds_handlers (states r ! a)))} = {tok}"
      using F(1) [OF E(1)] by (auto simp: set_alist_update)
    moreover have "r' = r\<lparr>nextToken := tok,
        states := (states r)[a := (states r ! a)\<lparr>ds_handlers := AList.update tok h (ds_handlers (states r ! a))\<rparr>]\<rparr>"
      using assms(3) Some tok by (auto simp: router_Subscribe_def Let_def)
    ultimately show ?thesis
      using F E reg I(1) handed_fresh [of h "pc_of r a"] by (intro exI [of _ a]) (auto simp: serves_def calls_to_def)
  next
    case None
    with assms(3) tok have r': "r' = r\<lparr>nextToken := tok, chans := chans r @ [make_chan n],
        states := states r @ [\<lparr>ds_sub = length (chans r), ds_handlers = [(tok, h)], ds_done = False\<rparr>],
        dests := AList.update dest (length (states r)) (dests r), wg := wg r + 1,
        readers := readers r @ [\<lparr>rd_dest = dest, rd_pc = ReadRecv\<rparr>]\<rparr>"
      by (auto simp: router_Subscribe_def Let_def split: option.splits)
    with F I(1) show ?thesis
      by (intro exI [of _ "length (states r)"]) (auto simp: serves_def handed_ReadRecv calls_to_def update_conv' nth_append less_Suc_eq)
  qed
qed

section \<open>Properties\<close>

text \<open>The first message that a handler registered now gets: the one being worked on if its snapshot is not taken.\<close>

definition first_for :: "('g, 'h) session \<Rightarrow> nat \<Rightarrow> nat" where
  "first_for S a = length (ss_taken (sub_of S a)) - (case pc_of (ses_rtr S) a of ReadSnap m \<Rightarrow> 1 | _ \<Rightarrow> 0)"

text \<open>
  C12: Delivery is end to end, in order and exactly once: take any state of a session, register a handler
  there that is in use nowhere else, and let anything happen except that this handler is removed or
  registered again. Then the calls made to it are those for the messages its destination's reader took
  from the moment of registration on, one call per message, in the order go-stomp delivered them, with
  the message's body and the destination as the only header; missing at most the message the reader is
  working on, or the error frame that ended the subscription, and none while the reader waits for the
  next message.
\<close>

theorem delivery_exactly_once:
  assumes "chan_ok ec" "\<not> ch_closed ec" "reach (ses_step gs) (ses_start ec (dialed g rw bnd)) S0"
    and "fresh_handler h (ses_rtr S0)" "ses_Subscribe gs ctx dest h S0 = (Inr tok, S1)"
    and "run_actions (ses_step gs) acts S1 = Some S2" "list_all (keeps_handler h dest tok) acts" "length acts < 2 ^ 64"
  shows "\<exists>a s dlv rest. map_of (dests (ses_rtr S1)) dest = Some a \<and> s = sub_of S2 a \<and> ss_dest s = dest
    \<and> drop (first_for S1 a) (ss_taken s) = dlv @ rest \<and> length rest \<le> 1 \<and> (pc_of (ses_rtr S2) a = ReadRecv \<longrightarrow> rest = [])
    \<and> calls_to h (ses_rtr S2) = map (\<lambda>m. (h, [HeaderDestination \<mapsto> dest], Body m)) dlv
    \<and> prefix (ss_taken s) (map bridge_msg (ss_recvd s))"
proof -
  from ses_reach_holds [OF assms(1-3)] have I0: "ses_inv S0" "holds_last S0" by simp_all
  have st: "ses_step gs (SSubscribe ctx dest h) S0 = Some S1" using assms(5) by simp
  have I1: "ses_inv S1" using ses_step_sound [OF I0(1) st] by simp
  have h1: "holds_last S1" by (rule holds_last_step [OF I0 st])
  have R0: "router_inv (ses_rtr S0)" using ses_invD(1) [OF I0(1)] by (simp add: router_inv2_def)
  obtain res n where "router_Subscribe dest h res n (ses_rtr S0) = (Inr tok, ses_rtr S1)"
    using ses_Subscribe_router [OF assms(5)] by blast
  from serves_new [OF R0 assms(4) this] obtain a where a: "map_of (dests (ses_rtr S1)) dest = Some a"
    "a < length (readers (ses_rtr S1))" "dest_of (ses_rtr S1) a = dest" "nextToken (ses_rtr S1) = tok"
    "h \<notin> set (held (pc_of (ses_rtr S1) a))"
    and sv: "\<And>T. rest_ok h (pc_of (ses_rtr S1) a) T \<Longrightarrow> serves h tok a T (ses_rtr S1)" by blast
  have al: "a < length (ses_link S1)" using a(2) ses_invD(8) [OF I1] by simp
  let ?k = "first_for S1 a"
  have "rest_ok h (pc_of (ses_rtr S1) a) (drop ?k (ss_taken (sub_of S1 a)))"
  proof (cases "pc_of (ses_rtr S1) a")
    case (ReadSnap m)
    with h1 al have "ss_taken (sub_of S1 a) \<noteq> []" "last (ss_taken (sub_of S1 a)) = m" "Err m = None"
      by (simp_all add: holds_last_def)
    then show ?thesis using ReadSnap by (cases "ss_taken (sub_of S1 a)" rule: rev_cases) (simp_all add: first_for_def)
  qed (use a(5) in \<open>simp_all add: first_for_def\<close>)
  note run = serves_run [OF I1 assms(6) al sv [OF this], of 0]
  have "?k \<le> length (ss_taken (sub_of S1 a))" by (simp add: first_for_def)
  with run a(3,4) assms(7,8) have S2: "ses_inv S2" "a < length (ses_link S2)" "dest_of (ses_rtr S2) a = dest"
    "serves h tok a (drop ?k (ss_taken (sub_of S2 a))) (ses_rtr S2)" by simp_all
  then obtain dlv rest where d: "drop ?k (ss_taken (sub_of S2 a)) = dlv @ rest" "rest_ok h (pc_of (ses_rtr S2) a) rest"
    "calls_to h (ses_rtr S2) = map (\<lambda>m. (h, readLoop_headers (dest_of (ses_rtr S2) a), Body m)) dlv"
    by (auto simp: serves_def handed_def)
  note D = ses_invD [OF S2(1)]
  have "ss_dest (sub_of S2 a) = dest" using D(6) [OF S2(2)] S2(3) by (simp add: linked_ok_def)
  moreover have "prefix (ss_taken (sub_of S2 a)) (map bridge_msg (ss_recvd (sub_of S2 a)))"
    using stomp_inv_sub [OF D(2) D(5) [OF nth_mem [OF S2(2)]]] by (auto simp: bridge_inv_def dest: append_prefixD)
  moreover have "length rest \<le> 1" "pc_of (ses_rtr S2) a = ReadRecv \<longrightarrow> rest = []"
    using d(2) by (cases "pc_of (ses_rtr S2) a"; auto split: if_splits)+
  ultimately show ?thesis
    using a(1) d(1,3) S2(3)
    by (intro exI [of _ a] exI [of _ "sub_of S2 a"] exI [of _ dlv] exI [of _ rest])
      (simp add: readLoop_headers_def del: fun_upd_apply)
qed

text \<open>One message from go-stomp to the handler.\<close>

definition one_message :: "nat ses_action list" where
  "one_message = [SConn 0 (EvSrcPush gmsg1), SConn 0 (EvBridge OnSrc), SConn 0 (EvBridge OnOut),
     SReader [] 0, SReader [7] 0, SReader [] 0, SReader [] 0]"

lemma one_message_run:
  "\<exists>S2. run_actions (ses_step calm_gostomp) one_message ses1 = Some S2 \<and> pc_of (ses_rtr S2) 0 = ReadRecv
     \<and> calls (ses_rtr S2) = [(7, [HeaderDestination \<mapsto> ''/queue/a''], ''x'')]"
  by (simp add: one_message_def ses1_def ses_run_eval readLoop_headers_def del: fun_upd_apply)

theorem delivery_exactly_once_witness:
  "\<exists>S2 (s :: ssub) (dlv :: Msg list). run_actions (ses_step calm_gostomp) one_message ses1 = Some S2
     \<and> calls_to 7 (ses_rtr S2) = [(7, [HeaderDestination \<mapsto> ''/queue/a''], ''x'')]
     \<and> calls_to 7 (ses_rtr S2) = map (\<lambda>m. (7, [HeaderDestination \<mapsto> ''/queue/a''], Body m)) dlv
     \<and> prefix (ss_taken s) (map bridge_msg (ss_recvd s))"
proof -
  obtain S2 where S2: "run_actions (ses_step calm_gostomp) one_message ses1 = Some S2"
    "calls (ses_rtr S2) = [(7, [HeaderDestination \<mapsto> ''/queue/a''], ''x'')]" using one_message_run by blast
  have "fresh_handler 7 (ses_rtr ses0)"
    by (simp add: fresh_handler_def calls_to_def ses0_def ses_start_def NewWithErrorChan_def)
  moreover have "list_all (keeps_handler 7 ''/queue/a'' 1) one_message" "length one_message < 2 ^ 64"
    by (simp_all add: one_message_def)
  ultimately obtain s :: ssub and dlv :: "Msg list" where "calls_to 7 (ses_rtr S2) = map (\<lambda>m. (7, [HeaderDestination \<mapsto> ''/queue/a''], Body m)) dlv"
    "prefix (ss_taken s) (map bridge_msg (ss_recvd s))"
    using delivery_exactly_once [OF chan_ok_make make_chan_sel(3) ses0_reach _ ses1_subscribed S2(1)] by blast
  moreover have "calls_to 7 (ses_rtr S2) = [(7, [HeaderDestination \<mapsto> ''/queue/a''], ''x'')]"
    using S2(2) by (simp add: calls_to_def del: fun_upd_apply)
  ultimately show ?thesis using S2(1) by blast
qed

end
