(* ===== verification/AuthText.thy ===== *)
theory AuthText
  imports GoLib
begin

text \<open>
  The text of teardown errors in the package auth: which runes are escaped and how, the cap on the
  escaped text, and the join of the two step errors. The lemmas show that the bounded text fits its
  limit, holds nothing a log or a terminal would interpret, never ends inside an escape, and reads
  back to the bytes it stands for.
\<close>

section \<open>Escaping\<close>

abbreviation backslash :: char where
  "backslash \<equiv> CHR 0x5C"

definition isFormat :: "nat \<Rightarrow> bool" where
  "isFormat r \<longleftrightarrow>
     r = 0x061c \<or> r = 0x200e \<or> r = 0x200f
     \<or> (0x200b \<le> r \<and> r \<le> 0x200d)
     \<or> (0x202a \<le> r \<and> r \<le> 0x202e)
     \<or> r = 0x2060 \<or> (0x2066 \<le> r \<and> r \<le> 0x2069)
     \<or> r = 0xfeff
     \<or> (0xe0000 \<le> r \<and> r \<le> 0xe007f)"

text \<open>One turn of the loop of \<open>escapeBounded\<close>: what is written for the next rune, and its width.\<close>

definition escape_token :: "bytes \<Rightarrow> bytes \<times> nat" where
  "escape_token s =
     (let (r, size) = DecodeRune s;
          tok =
            (if r = RuneError \<and> size = 1 then [backslash, CHR ''x''] @ Sprintf_x 2 (byte (hd s))
             else if r = 0x5C then [backslash, backslash]
             else if r < 0x20 \<or> r = 0x7f then [backslash, CHR ''x''] @ Sprintf_x 2 r
             else if (0x80 \<le> r \<and> r \<le> 0x9f) \<or> r = 0x2028 \<or> r = 0x2029
               then [backslash, CHR ''u''] @ Sprintf_x 4 r
             else if isFormat r then
               (if r > 0xffff then [backslash, CHR ''U''] @ Sprintf_x 8 r
                else [backslash, CHR ''u''] @ Sprintf_x 4 r)
             else take size s)
      in (tok, size))"

lemma escape_token_width:
  assumes "s \<noteq> []"
  shows "0 < snd (escape_token s)" and "snd (escape_token s) \<le> length s"
  using DecodeRune_width [OF assms] by (simp_all add: escape_token_def case_prod_beta)

function escape_loop :: "nat \<Rightarrow> bytes \<Rightarrow> bytes \<Rightarrow> bytes \<times> bool" where
  "escape_loop limit s b =
     (if s = [] then (b, False)
      else
        let (tok, size) = escape_token s in
        if limit < length b + length tok then (b, True)
        else escape_loop limit (drop size s) (b @ tok))"
  by pat_completeness auto
termination
proof (relation "measure (\<lambda>(limit, s, b). length s)", goal_cases)
  case (2 limit s b x tok size)
  with escape_token_width [of s] show ?case by (auto simp: prod_eq_iff)
qed simp

declare escape_loop.simps [simp del]

definition escapeBounded :: "bytes \<Rightarrow> nat \<Rightarrow> bytes \<times> bool" where
  "escapeBounded s limit = escape_loop limit s []"

text \<open>The tokens of the whole text: what the loop would write without a limit.\<close>

function escape_tokens :: "bytes \<Rightarrow> bytes list" where
  "escape_tokens s =
     (if s = [] then [] else let (tok, size) = escape_token s in tok # escape_tokens (drop size s))"
  by pat_completeness auto
termination
proof (relation "measure length", goal_cases)
  case (2 s x tok size)
  with escape_token_width [of s] show ?case by (auto simp: prod_eq_iff)
qed simp

declare escape_tokens.simps [simp del]

lemma escape_tokens_Nil [simp]: "escape_tokens [] = []"
  by (simp add: escape_tokens.simps)

lemma escape_tokens_step:
  "s \<noteq> [] \<Longrightarrow> escape_token s = (tok, k) \<Longrightarrow> escape_tokens s = tok # escape_tokens (drop k s)"
  by (subst escape_tokens.simps) simp

text \<open>The loop writes a prefix of the tokens: all that fit, up to the first that does not.\<close>

fun take_fitting :: "nat \<Rightarrow> nat \<Rightarrow> bytes list \<Rightarrow> bytes list" where
  "take_fitting limit n [] = []"
| "take_fitting limit n (t # ts) =
     (if limit < n + length t then [] else t # take_fitting limit (n + length t) ts)"

lemma escape_loop_fitting:
  "escape_loop limit s b =
     (b @ concat (take_fitting limit (length b) (escape_tokens s)),
      take_fitting limit (length b) (escape_tokens s) \<noteq> escape_tokens s)"
proof (induction limit s b rule: escape_loop.induct)
  case (1 limit s b)
  show ?case
  proof (cases "s = []")
    case True
    then show ?thesis by (simp add: escape_loop.simps)
  next
    case False
    obtain tok k where t: "escape_token s = (tok, k)" by force
    note tokens = escape_tokens_step [OF False t]
    show ?thesis
    proof (cases "limit < length b + length tok")
      case True
      with False t tokens show ?thesis by (subst escape_loop.simps) simp
    next
      case fits: False
      note IH = "1.IH" [OF False t [symmetric] refl fits]
      with False fits t tokens show ?thesis by (subst escape_loop.simps) simp
    qed
  qed
qed

lemma take_fitting_bound: "n \<le> limit \<Longrightarrow> n + length (concat (take_fitting limit n ts)) \<le> limit"
proof (induction ts arbitrary: n)
  case (Cons t ts)
  show ?case
  proof (cases "limit < n + length t")
    case True
    with Cons.prems show ?thesis by simp
  next
    case False
    with Cons.IH [of "n + length t"] show ?thesis by simp
  qed
qed simp

lemma take_fitting_prefix:
  "\<exists>k. take_fitting limit n ts = take k ts \<and> k \<le> length ts
     \<and> (k = length ts \<or> limit < n + length (concat (take (Suc k) ts)))"
proof (induction ts arbitrary: n)
  case (Cons t ts)
  show ?case
  proof (cases "limit < n + length t")
    case True
    then show ?thesis by (intro exI [of _ 0]) simp
  next
    case False
    from Cons obtain k where "take_fitting limit (n + length t) ts = take k ts" "k \<le> length ts"
      "k = length ts \<or> limit < n + length t + length (concat (take (Suc k) ts))" by blast
    with False show ?thesis by (intro exI [of _ "Suc k"]) (auto simp: add.assoc)
  qed
qed simp

lemma take_fitting_all: "n \<le> limit \<Longrightarrow> take_fitting limit n ts = ts \<longleftrightarrow> n + length (concat ts) \<le> limit"
proof (induction ts arbitrary: n)
  case (Cons t ts)
  show ?case
  proof (cases "limit < n + length t")
    case False
    with Cons.IH [of "n + length t"] show ?thesis by (simp add: add.assoc)
  qed simp
qed simp

lemma escapeBounded_fitting:
  "escapeBounded s limit =
     (concat (take_fitting limit 0 (escape_tokens s)),
      take_fitting limit 0 (escape_tokens s) \<noteq> escape_tokens s)"
  by (simp add: escapeBounded_def escape_loop_fitting)

section \<open>Reading the escapes back\<close>

fun unescape :: "bytes \<Rightarrow> bytes option" where
  "unescape [] = Some []"
| "unescape (c # cs) =
     (if c \<noteq> backslash then map_option ((#) c) (unescape cs)
      else
        (case cs of
           [] \<Rightarrow> None
         | d # ds \<Rightarrow>
             if d = backslash then map_option ((#) backslash) (unescape ds)
             else if d = CHR ''x'' then
               (case hex_read 0 (take 2 ds) of
                  None \<Rightarrow> None
                | Some v \<Rightarrow> map_option ((#) (chr v)) (unescape (drop 2 ds)))
             else if d = CHR ''u'' then
               (case hex_read 0 (take 4 ds) of
                  None \<Rightarrow> None
                | Some v \<Rightarrow> map_option ((@) (utf8_encode v)) (unescape (drop 4 ds)))
             else if d = CHR ''U'' then
               (case hex_read 0 (take 8 ds) of
                  None \<Rightarrow> None
                | Some v \<Rightarrow> map_option ((@) (utf8_encode v)) (unescape (drop 8 ds)))
             else None))"

lemma unescape_plain:
  "backslash \<notin> set u \<Longrightarrow> unescape (u @ t) = map_option ((@) u) (unescape t)"
  by (cases "unescape t"; induction u; auto)

lemma take_drop_exact: "length u = n \<Longrightarrow> take n (u @ t) = u \<and> drop n (u @ t) = t"
  by simp

lemma unescape_x:
  "n < 256 \<Longrightarrow> unescape ([backslash, CHR ''x''] @ Sprintf_x 2 n @ t) = map_option ((@) [chr n]) (unescape t)"
  using take_drop_exact [of "Sprintf_x 2 n" 2 t] by (cases "unescape t") (simp_all add: length_Sprintf_x hex_read_Sprintf_x)

lemma unescape_u:
  "n < 65536 \<Longrightarrow>
     unescape ([backslash, CHR ''u''] @ Sprintf_x 4 n @ t) = map_option ((@) (utf8_encode n)) (unescape t)"
  using take_drop_exact [of "Sprintf_x 4 n" 4 t] by (simp add: length_Sprintf_x hex_read_Sprintf_x)

lemma unescape_U:
  "n < 4294967296 \<Longrightarrow>
     unescape ([backslash, CHR ''U''] @ Sprintf_x 8 n @ t) = map_option ((@) (utf8_encode n)) (unescape t)"
  using take_drop_exact [of "Sprintf_x 8 n" 8 t] by (simp add: length_Sprintf_x hex_read_Sprintf_x)

lemma chr_backslash: "chr 0x5C = backslash"
  by (rule chr_eqI) simp

lemma kept_no_backslash:
  assumes d: "DecodeRune s = (r, k)" and s: "s \<noteq> []" and ok: "\<not> (r = RuneError \<and> k = 1)" and r: "r \<noteq> 0x5C"
  shows "backslash \<notin> set (take k s)"
proof (cases "k = 1")
  case True
  with DecodeRune_range(2) [OF d s] ok have a: "r < 0x80" by blast
  then have "byte (chr r) \<noteq> byte backslash" using r by (simp only: byte_chr) simp
  then have "chr r \<noteq> backslash" by metis
  with DecodeRune_encode [OF d s ok] a show ?thesis by (simp add: utf8_encode_ascii)
next
  case False
  with d s DecodeRune_width [of s] have "1 < k" by simp
  with DecodeRune_range(3) [OF d s] show ?thesis by fastforce
qed

lemma unescape_token:
  assumes "s \<noteq> []" "escape_token s = (tok, k)"
  shows "unescape (tok @ t) = map_option ((@) (take k s)) (unescape t)"
proof -
  obtain r where d: "DecodeRune s = (r, k)"
    using assms(2) by (auto simp: escape_token_def Let_def split: prod.splits)
  note range = DecodeRune_range [OF d assms(1)]
  note enc = DecodeRune_encode [OF d assms(1)]
  show ?thesis
  proof (cases "r = RuneError \<and> k = 1")
    case True
    then have "tok = [backslash, CHR ''x''] @ Sprintf_x 2 (byte (hd s))"
      using assms(2) d by (simp add: escape_token_def)
    moreover have "take k s = [hd s]" using True assms(1) by (cases s) auto
    ultimately show ?thesis using unescape_x [of "byte (hd s)" t] by simp
  next
    case ok: False
    note enc = enc [OF ok]
    consider (bs) "r = 0x5C" "tok = [backslash, backslash]"
      | (x) "r < 0x80" "tok = [backslash, CHR ''x''] @ Sprintf_x 2 r"
      | (u) "r < 65536" "tok = [backslash, CHR ''u''] @ Sprintf_x 4 r"
      | (U) "tok = [backslash, CHR ''U''] @ Sprintf_x 8 r"
      | (keep) "r \<noteq> 0x5C" "tok = take k s"
      using assms(2) d ok by (auto simp: escape_token_def split: if_splits)
    then show ?thesis
    proof cases
      case bs
      with enc chr_backslash show ?thesis
        by (cases "unescape t") (simp_all add: utf8_encode_ascii)
    next
      case x
      with enc unescape_x [of r t] show ?thesis by (simp add: utf8_encode_ascii)
    next
      case u
      with enc unescape_u [of r t] show ?thesis by simp
    next
      case U
      with enc range(1) unescape_U [of r t] show ?thesis by simp
    next
      case keep
      with unescape_plain [OF kept_no_backslash [OF d assms(1) ok], of t] show ?thesis by simp
    qed
  qed
qed

lemma unescape_tokens: "unescape (concat (escape_tokens s) @ t) = map_option ((@) s) (unescape t)"
proof (induction s rule: escape_tokens.induct)
  case (1 s)
  show ?case
  proof (cases "s = []")
    case True
    then show ?thesis by (simp add: option.map_ident [unfolded id_def] append_Nil [abs_def])
  next
    case False
    obtain tok k where t: "escape_token s = (tok, k)" by force
    have "unescape (concat (escape_tokens s) @ t) =
      map_option ((@) (take k s)) (map_option ((@) (drop k s)) (unescape t))"
      using unescape_token [OF False t] "1.IH" [OF False t [symmetric] refl]
      by (simp add: escape_tokens_step [OF False t])
    then show ?thesis by (cases "unescape t") simp_all
  qed
qed

interpretation escape: codec "\<lambda>s. concat (escape_tokens s)" unescape "\<lambda>_. True"
  by unfold_locales (use unescape_tokens [of _ "[]"] in simp)

lemma unescape_prefix: "\<exists>m. unescape (concat (take n (escape_tokens s))) = Some (take m s)"
proof (induction s arbitrary: n rule: escape_tokens.induct)
  case (1 s)
  show ?case
  proof (cases "s = [] \<or> n = 0")
    case True
    then show ?thesis by (auto intro: exI [of _ 0])
  next
    case False
    then obtain n' where n: "n = Suc n'" and s: "s \<noteq> []" by (cases n) auto
    obtain tok k where t: "escape_token s = (tok, k)" by force
    from "1.IH" [OF s t [symmetric] refl] obtain m where
      "unescape (concat (take n' (escape_tokens (drop k s)))) = Some (take m (drop k s))" by blast
    then have "unescape (concat (take n (escape_tokens s))) = Some (take (k + m) s)"
      using unescape_token [OF s t] n by (simp add: escape_tokens_step [OF s t] take_add)
    then show ?thesis ..
  qed
qed

section \<open>What the text may hold\<close>

text \<open>A rune that is not an encoding error and has no effect on a log viewer or a terminal.\<close>

definition safe_rune :: "nat \<times> nat \<Rightarrow> bool" where
  "safe_rune p \<longleftrightarrow>
     p \<noteq> (RuneError, 1) \<and> 0x20 \<le> fst p \<and> fst p \<noteq> 0x7f \<and> \<not> (0x80 \<le> fst p \<and> fst p \<le> 0x9f)
     \<and> fst p \<noteq> 0x2028 \<and> fst p \<noteq> 0x2029 \<and> \<not> isFormat (fst p)"

function runes :: "bytes \<Rightarrow> (nat \<times> nat) list" where
  "runes s = (if s = [] then [] else DecodeRune s # runes (drop (snd (DecodeRune s)) s))"
  by pat_completeness auto
termination
proof (relation "measure length", goal_cases)
  case (2 s)
  with DecodeRune_width [of s] show ?case by simp
qed simp

declare runes.simps [simp del]

definition safe_text :: "bytes \<Rightarrow> bool" where
  "safe_text s \<longleftrightarrow> list_all safe_rune (runes s)"

lemma DecodeRune_append:
  assumes "s \<noteq> []" "DecodeRune s \<noteq> (RuneError, 1)"
  shows "DecodeRune (s @ t) = DecodeRune s"
proof -
  obtain c s' where s: "s = c # s'" using assms(1) by (cases s) auto
  show ?thesis
  proof (cases "utf8_first (byte c)")
    case None
    with s show ?thesis by (simp add: DecodeRune_def Let_def)
  next
    case (Some p)
    obtain sz lo hi where p: "p = (sz, lo, hi)" by (cases p) auto
    with Some have sz: "sz = 2 \<or> sz = 3 \<or> sz = 4"
      by (auto simp: utf8_first_def split: if_splits)
    show ?thesis
    proof (cases "byte c < 0x80")
      case False
      with assms(2) s Some p have "sz \<le> length s" by (auto simp: DecodeRune_def Let_def split: if_splits)
      then have "\<forall>i < sz. (s @ t) ! i = s ! i" by (simp add: nth_append)
      with sz have "(s @ t) ! 1 = s ! 1" "2 < sz \<longrightarrow> (s @ t) ! 2 = s ! 2" "3 < sz \<longrightarrow> (s @ t) ! 3 = s ! 3"
        by auto
      with False s Some p sz \<open>sz \<le> length s\<close> show ?thesis
        by (auto simp: DecodeRune_def Let_def)
    qed (simp add: s DecodeRune_ascii)
  qed
qed

lemma runes_append:
  "list_all (\<lambda>p. p \<noteq> (RuneError, 1)) (runes s) \<Longrightarrow> runes (s @ t) = runes s @ runes t"
proof (induction s rule: runes.induct)
  case (1 s)
  show ?case
  proof (cases "s = []")
    case True
    then show ?thesis by (simp add: runes.simps [of "[]"])
  next
    case False
    let ?k = "snd (DecodeRune s)"
    from "1.prems" False have ok: "DecodeRune s \<noteq> (RuneError, 1)"
      "list_all (\<lambda>p. p \<noteq> (RuneError, 1)) (runes (drop ?k s))"
      by (simp_all add: runes.simps [of s])
    have "runes (s @ t) = DecodeRune s # runes (drop ?k s @ t)"
      using DecodeRune_append [OF False ok(1)] False DecodeRune_width(2) [OF False]
      by (subst runes.simps) simp
    with "1.IH" [OF False ok(2)] False show ?thesis by (simp add: runes.simps [of s])
  qed
qed

lemma safe_text_append: "safe_text s \<Longrightarrow> safe_text t \<Longrightarrow> safe_text (s @ t)"
  using runes_append [of s t]
  by (auto simp: safe_text_def list_all_iff safe_rune_def)

lemma safe_text_Nil [simp]: "safe_text []"
  by (simp add: safe_text_def runes.simps)

lemma safe_text_concat: "list_all safe_text ts \<Longrightarrow> safe_text (concat ts)"
  by (induction ts) (auto intro: safe_text_append)

lemma safe_text_ascii: "(\<And>c. c \<in> set s \<Longrightarrow> 0x20 \<le> byte c \<and> byte c < 0x7f) \<Longrightarrow> safe_text s"
proof (induction s)
  case (Cons c s)
  then have c: "0x20 \<le> byte c" "byte c < 0x7f" by auto
  then have "runes [c] = [(byte c, 1)]"
    by (simp add: runes.simps [of "[c]"] runes.simps [of "[]"] DecodeRune_ascii)
  with c have "safe_text [c]"
    by (simp add: safe_text_def safe_rune_def isFormat_def RuneError_def)
  with Cons safe_text_append [of "[c]" s] show ?case by simp
qed simp

lemma safe_text_hex: "safe_text (Sprintf_x w n)"
  by (rule safe_text_ascii) (auto dest!: Sprintf_x_ascii)

lemma safe_text_escape:
  "d \<in> {backslash, CHR ''x'', CHR ''u'', CHR ''U''} \<Longrightarrow> safe_text [backslash, d]"
  by (rule safe_text_ascii) auto

lemma safe_text_token:
  assumes "s \<noteq> []" "escape_token s = (tok, k)"
  shows "safe_text tok"
proof -
  obtain r where d: "DecodeRune s = (r, k)"
    using assms(2) by (auto simp: escape_token_def Let_def split: prod.splits)
  consider (esc) e w n where "tok = [backslash, e] @ Sprintf_x w n" "e \<in> {CHR ''x'', CHR ''u'', CHR ''U''}"
    | (bs) "tok = [backslash, backslash]"
    | (keep) "tok = take k s" "safe_rune (r, k)"
    using assms(2) d by (auto simp: escape_token_def safe_rune_def split: if_splits)
  then show ?thesis
  proof cases
    case esc
    with safe_text_append [OF safe_text_escape safe_text_hex] show ?thesis by blast
  next
    case bs
    with safe_text_escape [of backslash] show ?thesis by simp
  next
    case keep
    then have ok: "\<not> (r = RuneError \<and> k = 1)" by (auto simp: safe_rune_def)
    have w: "0 < k" "k \<le> length s" using DecodeRune_width [OF assms(1)] d by simp_all
    have "DecodeRune (take k s) = (r, k)"
      using d assms(1) ok by (cases rule: DecodeRune_cases) (auto simp: DecodeRune_def Let_def utf8_first_def cont_byte_def)
    then have "runes (take k s) = [(r, k)]"
      using w by (subst runes.simps) (auto simp: runes.simps [of "[]"])
    with keep show ?thesis by (simp add: safe_text_def)
  qed
qed

lemma safe_text_tokens: "list_all safe_text (escape_tokens s)"
proof (induction s rule: escape_tokens.induct)
  case (1 s)
  obtain tok k where t: "escape_token s = (tok, k)" by force
  show ?case
  proof (cases "s = []")
    case False
    with "1.IH" [OF False t [symmetric] refl] t show ?thesis
      by (simp add: escape_tokens_step [OF False t] safe_text_token)
  qed simp
qed

section \<open>Bounded errors and their join\<close>

definition maxStepErrLen :: nat where
  "maxStepErrLen = 512"

text \<open>The verb \<open>%d\<close> on a length.\<close>

fun Sprintf_d :: "nat \<Rightarrow> string" where
  "Sprintf_d n = (if n < 10 then [chr (48 + n)] else Sprintf_d (n div 10) @ [chr (48 + n mod 10)])"

declare Sprintf_d.simps [simp del]

text \<open>\<open>boundedError.Error\<close> on the text \<open>raw\<close> of the wrapped error.\<close>

definition boundedError_Error :: "bytes \<Rightarrow> bytes" where
  "boundedError_Error raw =
     (let (s, truncated) = escapeBounded raw maxStepErrLen in
      if \<not> truncated then s
      else s @ ''... (truncated, '' @ Sprintf_d (length raw) @ '' bytes)'')"

definition boundedError_Unwrap :: "goerr \<Rightarrow> goerr option" where
  "boundedError_Unwrap e = (case e of BoundedError e' \<Rightarrow> Some e' | _ \<Rightarrow> None)"

definition bound :: "goerr option \<Rightarrow> goerr option" where
  "bound err = (case err of None \<Rightarrow> None | Some e \<Rightarrow> Some (BoundedError e))"

definition joinSteps :: "goerr option \<Rightarrow> goerr option \<Rightarrow> goerr option" where
  "joinSteps uerr derr =
     (if uerr \<noteq> None \<and> derr \<noteq> None then Some (Errorf ''%w; %w'' [] [the uerr, the derr])
      else if uerr \<noteq> None then uerr
      else derr)"

lemma Sprintf_d_ascii: "c \<in> set (Sprintf_d n) \<Longrightarrow> 48 \<le> byte c \<and> byte c \<le> 57"
proof (induction n rule: Sprintf_d.induct)
  case (1 n)
  then show ?case by (subst (asm) Sprintf_d.simps) (auto split: if_splits)
qed

lemma safe_text_decimal: "safe_text (Sprintf_d n)"
  by (rule safe_text_ascii) (auto dest!: Sprintf_d_ascii)

lemma safe_text_escapeBounded: "safe_text (fst (escapeBounded s limit))"
proof -
  obtain k where k: "take_fitting limit 0 (escape_tokens s) = take k (escape_tokens s)"
    using take_fitting_prefix by blast
  have "list_all safe_text (take k (escape_tokens s))"
    using safe_text_tokens [of s] by (auto simp: list_all_iff dest: in_set_takeD)
  then show ?thesis by (simp add: escapeBounded_fitting k safe_text_concat)
qed

section \<open>Properties\<close>

text \<open>
  C30: The escaped text of a teardown error never exceeds its limit, and it is complete exactly when
  the whole escaped text fits; otherwise it is cut before the first token that does not fit, so an
  escape is never cut in half.
\<close>

theorem escapeBounded_limit:
  "\<exists>k. escapeBounded s limit = (concat (take k (escape_tokens s)), k < length (escape_tokens s))
     \<and> k \<le> length (escape_tokens s)
     \<and> length (concat (take k (escape_tokens s))) \<le> limit
     \<and> (k = length (escape_tokens s) \<or> limit < length (concat (take (Suc k) (escape_tokens s))))"
proof -
  let ?ts = "escape_tokens s"
  obtain k where k: "take_fitting limit 0 ?ts = take k ?ts" "k \<le> length ?ts"
    "k = length ?ts \<or> limit < 0 + length (concat (take (Suc k) ?ts))"
    using take_fitting_prefix by blast
  from k(2) have "take k ?ts \<noteq> ?ts \<longleftrightarrow> k < length ?ts"
    by (metis le_neq_implies_less length_take less_irrefl min.absorb2 take_all_iff linorder_not_less)
  with k take_fitting_bound [of 0 limit ?ts] show ?thesis
    by (intro exI [of _ k]) (simp add: escapeBounded_fitting)
qed


text \<open>
  C32: The escapes are unambiguous: reading the text back gives the bytes it stands for, all of them
  when it is complete and a prefix of them when it was cut, so broker text can never pass for an
  escape it did not send.
\<close>

theorem escapeBounded_roundtrip:
  "\<exists>m. unescape (fst (escapeBounded s limit)) = Some (take m s)
     \<and> (snd (escapeBounded s limit) \<or> take m s = s)"
proof (cases "snd (escapeBounded s limit)")
  case True
  obtain k where "take_fitting limit 0 (escape_tokens s) = take k (escape_tokens s)"
    using take_fitting_prefix by blast
  with unescape_prefix [of k s] True show ?thesis by (auto simp: escapeBounded_fitting)
next
  case False
  then have "unescape (fst (escapeBounded s limit)) = Some s"
    using escape.decode_encode [of s] by (simp add: escapeBounded_fitting)
  then show ?thesis by (intro exI [of _ "length s"]) simp
qed

text \<open>
  The join of the two teardown errors keeps both: a target is found in it exactly when it is
  found in the error of one of the steps, and it is nil exactly when both are.
\<close>

lemma joinSteps_keeps_both:
  assumes "leaf_err t"
  shows "(joinSteps (bound u) (bound d) = None \<longleftrightarrow> u = None \<and> d = None)
   \<and> ((\<exists>e. joinSteps (bound u) (bound d) = Some e \<and> errors_Is e t)
       \<longleftrightarrow> (\<exists>e. u = Some e \<and> errors_Is e t) \<or> (\<exists>e. d = Some e \<and> errors_Is e t))"
  using assms by (cases u; cases d) (auto simp: joinSteps_def bound_def)

end
