(* ===== verification/AuthTeardown.thy ===== *)
theory AuthTeardown
  imports AuthText Transport
begin

text \<open>
  The package internal/auth, second part: ending the credential connection. \<open>endCredentialConn\<close>
  starts a goroutine that unsubscribes and disconnects, has the context close the transport, and
  waits for whichever of the goroutine and the context ends first. The caller, the goroutine, the
  context and its callback each move one step at a time, in any order; the results of the
  transport's calls are part of the steps.
\<close>

section \<open>The guarded Unsubscribe\<close>

text \<open>\<open>unsubscribe\<close>: a runtime panic becomes an error, any other panic goes on.\<close>

definition auth_unsubscribe :: "goerr option outcome \<Rightarrow> goerr option outcome" where
  "auth_unsubscribe r =
     (case r of
        Ret err \<Rightarrow> Ret err
      | PanicRuntime m \<Rightarrow> Ret (Some (Errorf ''unsubscribe: %w'' [] [RuntimeError m]))
      | PanicOther m \<Rightarrow> PanicOther m)"

section \<open>State\<close>

text \<open>
  The goroutine: before its first test of the context, inside Unsubscribe, before the second test,
  inside Disconnect, about to join the errors and read the context, about to call \<open>stop\<close>, about to
  close \<open>done\<close>, finished. The caller: in its \<open>select\<close>, in the inner one, or returned.
\<close>

datatype tpc =
    TStart
  | TUnsub
  | TMid "goerr option"
  | TDisc "goerr option"
  | TJoin "goerr option" "goerr option"
  | TStop
  | TClose
  | TDone

datatype mpc = MSelect | MInner | MRet "goerr option" "goerr option"

datatype tcall = TCallUnsubscribe | TCallDisconnect "goerr option"

text \<open>
  \<open>ec_reg\<close>: the callback of \<open>context.AfterFunc\<close> is still registered; \<open>ec_running\<close>: it has been
  started. \<open>ec_calls\<close> records the Unsubscribe that was started and the Disconnect that returned, with its
  result.
\<close>

record ecc =
  ec_sub :: bool
  ec_ctx :: "goerr option"
  ec_reg :: bool
  ec_running :: bool
  ec_rwc_closed :: bool
  ec_pc :: tpc
  ec_gotStep :: "goerr option"
  ec_gotCtx :: "goerr option"
  ec_main :: mpc
  ec_calls :: "tcall list"

definition ecc_start :: "bool \<Rightarrow> goerr option \<Rightarrow> ecc" where
  "ecc_start hasSub ctx =
     \<lparr>ec_sub = hasSub, ec_ctx = ctx, ec_reg = (ctx = None), ec_running = (ctx \<noteq> None), ec_rwc_closed = False,
      ec_pc = TStart, ec_gotStep = None, ec_gotCtx = None, ec_main = MSelect, ec_calls = []\<rparr>"

section \<open>Steps\<close>

datatype ecc_action =
    CtxEnds goerr
  | CallbackRuns
  | Teardown "goerr option outcome" "goerr option"
  | Caller bool

text \<open>
  A step of the goroutine; the arguments are the results of Unsubscribe and Disconnect where the step
  is the return of one. A panic that is no runtime error ends the program: there is no step.
\<close>

definition teardown_step :: "goerr option outcome \<Rightarrow> goerr option \<Rightarrow> ecc \<Rightarrow> ecc option" where
  "teardown_step ures dres t =
     (case ec_pc t of
        TStart \<Rightarrow>
          Some (if ec_sub t \<and> ec_ctx t = None
                then t\<lparr>ec_pc := TUnsub, ec_calls := ec_calls t @ [TCallUnsubscribe]\<rparr>
                else t\<lparr>ec_pc := TMid None\<rparr>)
      | TUnsub \<Rightarrow>
          (case auth_unsubscribe ures of Ret uerr \<Rightarrow> Some (t\<lparr>ec_pc := TMid uerr\<rparr>) | _ \<Rightarrow> None)
      | TMid uerr \<Rightarrow>
          Some (if ec_ctx t = None then t\<lparr>ec_pc := TDisc uerr\<rparr> else t\<lparr>ec_pc := TJoin uerr None\<rparr>)
      | TDisc uerr \<Rightarrow> Some (t\<lparr>ec_pc := TJoin uerr dres, ec_calls := ec_calls t @ [TCallDisconnect dres]\<rparr>)
      | TJoin uerr derr \<Rightarrow>
          Some (t\<lparr>ec_pc := TStop, ec_gotStep := joinSteps (bound uerr) (bound derr), ec_gotCtx := ec_ctx t\<rparr>)
      | TStop \<Rightarrow> Some (t\<lparr>ec_pc := TClose, ec_reg := False\<rparr>)
      | TClose \<Rightarrow> Some (t\<lparr>ec_pc := TDone\<rparr>)
      | TDone \<Rightarrow> None)"

text \<open>
  A step of the caller: \<open>pick\<close> is Go's choice when both cases of the outer \<open>select\<close> are ready. \<open>done\<close> is
  closed when the goroutine is finished.
\<close>

definition caller_step :: "bool \<Rightarrow> ecc \<Rightarrow> ecc option" where
  "caller_step pick t =
     (let fin = (ec_pc t = TDone);
          ret = t\<lparr>ec_main := MRet (ec_gotStep t) (ec_gotCtx t)\<rparr> in
      case ec_main t of
        MSelect \<Rightarrow>
          if fin \<and> (pick \<or> ec_ctx t = None) then Some ret
          else if ec_ctx t \<noteq> None then Some (t\<lparr>ec_main := MInner\<rparr>)
          else None
      | MInner \<Rightarrow> if fin then Some ret else Some (t\<lparr>ec_main := MRet None (ec_ctx t)\<rparr>)
      | MRet _ _ \<Rightarrow> None)"

fun ecc_step :: "ecc_action \<Rightarrow> ecc \<Rightarrow> ecc option" where
  "ecc_step (CtxEnds e) t =
     (if ec_ctx t = None
      then Some (t\<lparr>ec_ctx := Some e, ec_running := ec_reg t \<or> ec_running t, ec_reg := False\<rparr>) else None)"
| "ecc_step CallbackRuns t =
     (if ec_running t then Some (t\<lparr>ec_running := False, ec_rwc_closed := True\<rparr>) else None)"
| "ecc_step (Teardown ures dres) t = teardown_step ures dres t"
| "ecc_step (Caller pick) t = caller_step pick t"

section \<open>The invariant\<close>

text \<open>Whether the goroutine is past the point where it calls \<open>stop\<close>.\<close>

fun past_stop :: "tpc \<Rightarrow> bool" where
  "past_stop TClose = True"
| "past_stop TDone = True"
| "past_stop _ = False"

fun past_join :: "tpc \<Rightarrow> bool" where
  "past_join TStop = True"
| "past_join pc = past_stop pc"

text \<open>
  The calls: each at most once, Unsubscribe first, and all of them unless the context ended before
  the goroutine read it.
\<close>

definition step_calls :: "ecc \<Rightarrow> tcall list" where
  "step_calls t = (if ec_sub t then [TCallUnsubscribe] else [])"

fun calls_at :: "tpc \<Rightarrow> ecc \<Rightarrow> bool" where
  "calls_at TStart t = (ec_calls t = [])"
| "calls_at TUnsub t = (ec_sub t \<and> ec_calls t = step_calls t)"
| "calls_at (TMid u) t = (ec_calls t = step_calls t \<or> ec_calls t = [] \<and> u = None \<and> ec_ctx t \<noteq> None)"
| "calls_at (TDisc u) t = (ec_calls t = step_calls t)"
| "calls_at (TJoin u d) t =
     (ec_calls t = step_calls t @ [TCallDisconnect d]
      \<or> d = None \<and> ec_ctx t \<noteq> None \<and> ec_calls t \<in> {[], step_calls t})"
| "calls_at _ t =
     ((\<exists>u d. ec_calls t = step_calls t @ [TCallDisconnect d] \<and> ec_gotStep t = joinSteps (bound u) (bound d))
      \<or> ec_gotCtx t \<noteq> None \<and> ec_calls t \<in> {[], step_calls t} \<and> (\<exists>u. ec_gotStep t = bound u))"

definition calls_ok :: "ecc \<Rightarrow> bool" where
  "calls_ok t \<longleftrightarrow> calls_at (ec_pc t) t"

text \<open>
  The callback: registered exactly while the context is open and \<open>stop\<close> has not been called; once the
  context has ended it has been started or has run, unless \<open>stop\<close> came first.
\<close>

definition callback_ok :: "ecc \<Rightarrow> bool" where
  "callback_ok t \<longleftrightarrow>
     (ec_reg t \<longleftrightarrow> ec_ctx t = None \<and> \<not> past_stop (ec_pc t))
     \<and> (ec_ctx t \<noteq> None \<longrightarrow> ec_running t \<or> ec_rwc_closed t \<or> past_stop (ec_pc t))
     \<and> (past_join (ec_pc t) \<longrightarrow> ec_gotCtx t = None \<or> ec_gotCtx t = ec_ctx t \<and> (ec_running t \<or> ec_rwc_closed t))"

text \<open>What the caller returned: the goroutine's results, or the end of the context.\<close>

definition caller_ok :: "ecc \<Rightarrow> bool" where
  "caller_ok t \<longleftrightarrow>
     (case ec_main t of
        MSelect \<Rightarrow> True
      | MInner \<Rightarrow> ec_ctx t \<noteq> None
      | MRet s c \<Rightarrow>
          ec_pc t = TDone \<and> s = ec_gotStep t \<and> c = ec_gotCtx t \<or> s = None \<and> c \<noteq> None \<and> c = ec_ctx t)"

definition ecc_inv :: "ecc \<Rightarrow> bool" where
  "ecc_inv t \<longleftrightarrow> calls_ok t \<and> callback_ok t \<and> caller_ok t"

lemma step_calls_upd [simp]:
  "step_calls (t\<lparr>ec_pc := p\<rparr>) = step_calls t" "step_calls (t\<lparr>ec_calls := cs\<rparr>) = step_calls t"
  "step_calls (t\<lparr>ec_ctx := c\<rparr>) = step_calls t" "step_calls (t\<lparr>ec_gotStep := c\<rparr>) = step_calls t"
  "step_calls (t\<lparr>ec_gotCtx := c\<rparr>) = step_calls t" "step_calls (t\<lparr>ec_reg := b\<rparr>) = step_calls t"
  "step_calls (t\<lparr>ec_running := b\<rparr>) = step_calls t" "step_calls (t\<lparr>ec_rwc_closed := b\<rparr>) = step_calls t"
  "step_calls (t\<lparr>ec_main := m\<rparr>) = step_calls t"
  by (simp_all add: step_calls_def)

lemma bound_None [simp]: "bound None = None"
  by (simp add: bound_def)

lemma joinSteps_None [simp]: "joinSteps u None = u"
  by (simp add: joinSteps_def)

lemma calls_teardown:
  assumes "calls_ok t" "teardown_step ures dres t = Some t'"
  shows "calls_ok t'"
proof (cases "ec_pc t")
  case (TJoin u d)
  then have t': "t' = t\<lparr>ec_pc := TStop, ec_gotStep := joinSteps (bound u) (bound d), ec_gotCtx := ec_ctx t\<rparr>"
    using assms(2) by (simp add: teardown_step_def)
  show ?thesis using assms(1) TJoin by (auto simp: t' calls_ok_def)
qed (use assms in \<open>auto simp: teardown_step_def calls_ok_def step_calls_def split: if_splits outcome.splits\<close>)

lemma callback_teardown:
  assumes "callback_ok t" "teardown_step ures dres t = Some t'"
  shows "callback_ok t'"
  using assms
  by (cases "ec_pc t") (auto simp: teardown_step_def callback_ok_def split: if_splits outcome.splits)

lemma caller_teardown:
  assumes "caller_ok t" "teardown_step ures dres t = Some t'"
  shows "caller_ok t'"
proof -
  have "ec_main t' = ec_main t" "ec_ctx t' = ec_ctx t" "ec_pc t \<noteq> TDone"
    using assms(2) by (auto simp: teardown_step_def split: tpc.splits if_splits outcome.splits)
  with assms(1) show ?thesis by (auto simp: caller_ok_def split: mpc.splits)
qed

lemma ecc_inv_step:
  assumes "ecc_inv t" "ecc_step act t = Some t'"
  shows "ecc_inv t'"
proof -
  have I: "calls_ok t" "callback_ok t" "caller_ok t" using assms(1) by (simp_all add: ecc_inv_def)
  show ?thesis
  proof (cases act)
    case (CtxEnds e)
    then have t': "t' = t\<lparr>ec_ctx := Some e, ec_running := ec_reg t \<or> ec_running t, ec_reg := False\<rparr>" "ec_ctx t = None"
      using assms(2) by (simp_all split: if_splits)
    have "calls_ok t'" using I(1) t' by (cases "ec_pc t") (auto simp: calls_ok_def)
    moreover have "callback_ok t'" using I(2) t' by (auto simp: callback_ok_def)
    moreover have "caller_ok t'" using I(3) t' by (auto simp: caller_ok_def split: mpc.splits)
    ultimately show ?thesis by (simp add: ecc_inv_def)
  next
    case CallbackRuns
    then have t': "t' = t\<lparr>ec_running := False, ec_rwc_closed := True\<rparr>" using assms(2) by (simp split: if_splits)
    have "calls_ok t'" using I(1) t' by (cases "ec_pc t") (auto simp: calls_ok_def)
    moreover have "callback_ok t'" using I(2) t' by (auto simp: callback_ok_def)
    moreover have "caller_ok t'" using I(3) t' by (auto simp: caller_ok_def split: mpc.splits)
    ultimately show ?thesis by (simp add: ecc_inv_def)
  next
    case (Teardown ures dres)
    with assms(2) I show ?thesis
      using calls_teardown callback_teardown caller_teardown by (simp add: ecc_inv_def)
  next
    case (Caller pick)
    then obtain m where t': "t' = t\<lparr>ec_main := m\<rparr>"
      using assms(2) by (auto simp: caller_step_def Let_def split: mpc.splits if_splits)
    have "calls_ok t'" using I(1) t' by (cases "ec_pc t") (auto simp: calls_ok_def)
    moreover have "callback_ok t'" using I(2) t' by (auto simp: callback_ok_def)
    moreover have "caller_ok t'"
      using I(3) Caller assms(2) by (auto simp: caller_ok_def caller_step_def Let_def split: mpc.splits if_splits)
    ultimately show ?thesis by (simp add: ecc_inv_def)
  qed
qed

interpretation td: machine ecc_step "ecc_start hasSub ctx" ecc_inv for hasSub ctx
proof unfold_locales
  show "ecc_inv (ecc_start hasSub ctx)"
    by (simp add: ecc_start_def ecc_inv_def calls_ok_def callback_ok_def caller_ok_def)
qed (rule ecc_inv_step)

section \<open>Properties\<close>

lemma run_shape:
  assumes "reach ecc_step (ecc_start hasSub ctx) t"
  shows "ec_sub t = hasSub"
  using assms
proof (induction rule: reach.induct)
  case reach_start
  then show ?case by (simp add: ecc_start_def)
next
  case (reach_step s a t)
  then show ?case
    by (cases a) (auto simp: teardown_step_def caller_step_def Let_def
      split: if_splits tpc.splits mpc.splits outcome.splits)
qed

lemma teardown_full:
  assumes "reach ecc_step (ecc_start hasSub ctx) t" "ec_main t = MRet stepErr None"
  shows "\<exists>u d. ec_calls t = (if hasSub then [TCallUnsubscribe] else []) @ [TCallDisconnect d]
    \<and> stepErr = joinSteps (bound u) (bound d)"
proof -
  have I: "calls_ok t" "caller_ok t" using td.inv_reach [OF assms(1)] by (simp_all add: ecc_inv_def)
  then have pc: "ec_pc t = TDone" "stepErr = ec_gotStep t" "ec_gotCtx t = None"
    using assms(2) by (auto simp: caller_ok_def)
  then obtain u d where "ec_calls t = step_calls t @ [TCallDisconnect d]" "stepErr = joinSteps (bound u) (bound d)"
    using I(1) by (auto simp: calls_ok_def)
  then show ?thesis using run_shape [OF assms(1)] by (auto simp: step_calls_def)
qed

lemma teardown_cut:
  assumes "reach ecc_step (ecc_start hasSub ctx) t" "ec_main t = MRet s (Some e)" "\<not> ec_running t" "\<not> ec_rwc_closed t"
  shows "past_stop (ec_pc t) \<and> (\<exists>d. ec_calls t = (if hasSub then [TCallUnsubscribe] else []) @ [TCallDisconnect d])"
proof -
  have I: "calls_ok t" "callback_ok t" "caller_ok t" using td.inv_reach [OF assms(1)] by (simp_all add: ecc_inv_def)
  have "ec_ctx t \<noteq> None"
    using I(2,3) assms(2) by (auto simp: caller_ok_def callback_ok_def)
  with assms(3,4) I(2) have ps: "past_stop (ec_pc t)" "ec_gotCtx t = None"
    by (cases "ec_pc t"; simp add: callback_ok_def)+
  then have "\<exists>d. ec_calls t = step_calls t @ [TCallDisconnect d]"
    using I(1) by (cases "ec_pc t") (auto simp: calls_ok_def)
  with ps(1) run_shape [OF assms(1)] show ?thesis by (auto simp: step_calls_def)
qed


text \<open>A teardown with a subscription that runs to its end while the context stays open.\<close>

definition quiet_teardown :: "goerr option \<Rightarrow> ecc_action list" where
  "quiet_teardown derr = replicate 7 (Teardown (Ret None) derr) @ [Caller True]"

lemmas ecc_eval = ecc_start_def teardown_step_def caller_step_def auth_unsubscribe_def joinSteps_def bound_def
  Let_def numeral_eq_Suc

lemma quiet_teardown_run:
  "\<exists>t. run_actions ecc_step (quiet_teardown None) (ecc_start True None) = Some t \<and> ec_main t = MRet None None"
  by (simp add: quiet_teardown_def ecc_eval)


text \<open>
  A done context always frees the caller: from every reachable state in which the context has ended,
  the caller's own next steps, two at most, return, whatever Unsubscribe and Disconnect are waiting
  for; and it never returns a context error unless the context has ended with that error.
\<close>

lemma teardown_bounded:
  assumes "reach ecc_step (ecc_start hasSub ctx) t"
  shows "(ec_ctx t \<noteq> None \<longrightarrow> (\<exists>n \<le> 2. \<exists>t' s c. run_actions ecc_step (replicate n (Caller True)) t = Some t'
      \<and> ec_main t' = MRet s c))
    \<and> (\<forall>s e. ec_main t = MRet s (Some e) \<longrightarrow> ec_ctx t = Some e)"
proof (intro conjI impI allI)
  assume ctx: "ec_ctx t \<noteq> None"
  show "\<exists>n \<le> 2. \<exists>t' s c. run_actions ecc_step (replicate n (Caller True)) t = Some t' \<and> ec_main t' = MRet s c"
  proof (cases "ec_main t")
    case (MRet s c)
    then show ?thesis by (intro exI [of _ 0]) simp
  next
    case MInner
    then show ?thesis by (intro exI [of _ 1]) (simp add: caller_step_def Let_def)
  next
    case MSelect
    show ?thesis
    proof (cases "ec_pc t = TDone")
      case True
      with MSelect show ?thesis by (intro exI [of _ 1]) (simp add: caller_step_def Let_def)
    next
      case False
      with MSelect ctx show ?thesis by (intro exI [of _ 2]) (simp add: caller_step_def Let_def numeral_2_eq_2)
    qed
  qed
next
  fix s e
  assume "ec_main t = MRet s (Some e)"
  with td.inv_reach [OF assms] show "ec_ctx t = Some e"
    by (auto simp: ecc_inv_def caller_ok_def callback_ok_def)
qed

text \<open>
  A teardown that returns a context error has the transport closed: the callback has closed it or
  has been started and will, except when the goroutine had already called \<open>stop\<close>, after both of its
  steps had returned or the context it read had ended.
\<close>

lemma teardown_closes:
  assumes "reach ecc_step (ecc_start hasSub ctx) t" "ec_main t = MRet s (Some e)"
  shows "ec_running t \<or> ec_rwc_closed t
    \<or> past_stop (ec_pc t) \<and> (\<exists>d. ec_calls t = (if hasSub then [TCallUnsubscribe] else []) @ [TCallDisconnect d])"
  using teardown_cut [OF assms] by blast

text \<open>
  The window: Disconnect has failed, the goroutine has called \<open>stop\<close>, and the context ends before
  \<open>done\<close> is closed.
\<close>

definition window_run :: "ecc_action list" where
  "window_run = replicate 6 (Teardown (Ret None) (Some (Foreign ''no receipt'')))
     @ [CtxEnds DeadlineExceeded, Caller True, Caller True]"

lemma window_state:
  "\<exists>t. run_actions ecc_step window_run (ecc_start True None) = Some t
     \<and> ec_main t = MRet None (Some DeadlineExceeded) \<and> \<not> ec_running t \<and> \<not> ec_reg t \<and> \<not> ec_rwc_closed t
     \<and> ec_calls t = [TCallUnsubscribe, TCallDisconnect (Some (Foreign ''no receipt''))] \<and> ec_pc t = TClose"
  by (simp add: window_run_def ecc_eval)

lemma unclosed_step:
  assumes "\<not> ec_running t \<and> \<not> ec_reg t \<and> \<not> ec_rwc_closed t" "ecc_step act t = Some t'"
  shows "\<not> ec_running t' \<and> \<not> ec_reg t' \<and> \<not> ec_rwc_closed t'"
  using assms
  by (cases act) (auto simp: teardown_step_def caller_step_def Let_def
      split: if_splits tpc.splits mpc.splits outcome.splits)

text \<open>
  C37: The teardown can leave the transport open although a step failed: in that window it returns the
  context's error and no step error, and from there no continuation ever closes the transport.
\<close>

theorem teardown_window_leak:
  "\<exists>t. run_actions ecc_step window_run (ecc_start True None) = Some t
     \<and> ec_main t = MRet None (Some DeadlineExceeded)
     \<and> ec_calls t = [TCallUnsubscribe, TCallDisconnect (Some (Foreign ''no receipt''))]
     \<and> (\<forall>acts. \<forall>t' \<in> set_option (run_actions ecc_step acts t). \<not> ec_rwc_closed t')"
proof -
  from window_state obtain t where t: "run_actions ecc_step window_run (ecc_start True None) = Some t"
    "ec_main t = MRet None (Some DeadlineExceeded)" "\<not> ec_running t \<and> \<not> ec_reg t \<and> \<not> ec_rwc_closed t"
    "ec_calls t = [TCallUnsubscribe, TCallDisconnect (Some (Foreign ''no receipt''))]" by blast
  have "\<not> ec_rwc_closed t'" if "run_actions ecc_step acts t = Some t'" for acts t'
    using td.stable_reach [where P = "\<lambda>t. \<not> ec_running t \<and> \<not> ec_reg t \<and> \<not> ec_rwc_closed t",
      OF _ td.inv_run_start [OF t(1)] t(3) that] unclosed_step by blast
  with t show ?thesis by auto
qed

text \<open>The step, as a witness of the quantified part.\<close>

theorem teardown_window_leak_witness:
  "\<exists>t. run_actions ecc_step window_run (ecc_start True None) = Some t \<and> \<not> ec_rwc_closed t"
proof -
  from teardown_window_leak obtain t where t: "run_actions ecc_step window_run (ecc_start True None) = Some t"
    "\<forall>acts. \<forall>t' \<in> set_option (run_actions ecc_step acts t). \<not> ec_rwc_closed t'" by blast
  from t(2) have "\<forall>t' \<in> set_option (run_actions ecc_step [] t). \<not> ec_rwc_closed t'" by blast
  with t(1) show ?thesis by simp
qed

end
