(* ===== verification/AuthTrim.thy ===== *)
theory AuthTrim
  imports GoLib
begin

text \<open>
  \<open>strings.TrimSpace\<close>, which the package internal/auth applies to the token it receives, on arbitrary bytes:
  Unicode white space is removed at both ends, one character at a time, from the left by
  \<open>utf8.DecodeRune\<close> and from the right by \<open>utf8.DecodeLastRune\<close>.
\<close>

section \<open>Trimming white space\<close>

text \<open>\<open>unicode.IsSpace\<close>.\<close>

definition IsSpace :: "nat \<Rightarrow> bool" where
  "IsSpace r \<longleftrightarrow> 9 \<le> r \<and> r \<le> 13 \<or> r = 32 \<or> r = 0x85 \<or> r = 0xA0 \<or> r = 0x1680 \<or> 0x2000 \<le> r \<and> r \<le> 0x200a
     \<or> r = 0x2028 \<or> r = 0x2029 \<or> r = 0x202f \<or> r = 0x205f \<or> r = 0x3000"

function trim_left :: "bytes \<Rightarrow> bytes" where
  "trim_left [] = []"
| "trim_left (c # s) =
     (let (r, w) = DecodeRune (c # s) in if IsSpace r then trim_left (drop w (c # s)) else c # s)"
  by pat_completeness auto

termination
proof (relation "measure length", goal_cases)
  case (2 c s p r w)
  then have "w = snd (DecodeRune (c # s))" by (metis snd_conv)
  then have "0 < w" using DecodeRune_width [of "c # s"] by simp
  then show ?case by (cases w) simp_all
qed simp

text \<open>
  \<open>utf8.DecodeLastRune\<close>: an ASCII byte is itself; otherwise the decoder starts at the nearest byte
  within the last four that can begin a character, and what it reads must end the text.
\<close>

definition RuneStart :: "char \<Rightarrow> bool" where
  "RuneStart c \<longleftrightarrow> byte c div 64 \<noteq> 2"

definition last_start :: "bytes \<Rightarrow> nat" where
  "last_start s =
     (let n = length s in
      if 2 \<le> n \<and> RuneStart (s ! (n - 2)) then 2
      else if 3 \<le> n \<and> RuneStart (s ! (n - 3)) then 3
      else if 4 \<le> n \<and> RuneStart (s ! (n - 4)) then 4
      else min n 5)"

definition DecodeLastRune :: "bytes \<Rightarrow> nat \<times> nat" where
  "DecodeLastRune s =
     (if s = [] then (RuneError, 0)
      else if byte (last s) < 0x80 then (byte (last s), 1)
      else
        (let k = last_start s;
             (r, w) = DecodeRune (drop (length s - k) s) in
         if w = k then (r, w) else (RuneError, 1)))"

lemma DecodeLastRune_width: "s \<noteq> [] \<Longrightarrow> 1 \<le> snd (DecodeLastRune s)"
proof -
  assume s: "s \<noteq> []"
  have "drop (length s - last_start s) s \<noteq> []"
    using s by (cases s) (auto simp: last_start_def Let_def min_def)
  with DecodeRune_width [of "drop (length s - last_start s) s"] s show ?thesis
    by (auto simp: DecodeLastRune_def Let_def split: prod.splits)
qed

function trim_right :: "bytes \<Rightarrow> bytes" where
  "trim_right s =
     (if s = [] then []
      else (let (r, w) = DecodeLastRune s in if IsSpace r then trim_right (take (length s - w) s) else s))"
  by pat_completeness auto

termination
proof (relation "measure length", goal_cases)
  case (2 s p r w)
  then have "w = snd (DecodeLastRune s)" by (metis snd_conv)
  then have "1 \<le> w" using DecodeLastRune_width [of s] 2(1) by simp
  with 2 show ?case by (cases s) auto
qed simp

declare trim_right.simps [simp del] trim_left.simps(2) [simp del]

definition TrimSpace :: "bytes \<Rightarrow> bytes" where
  "TrimSpace s = trim_right (trim_left s)"

section \<open>What is removed and what is left\<close>

lemma IsSpace_not_error: "IsSpace r \<Longrightarrow> r \<noteq> RuneError"
  by (auto simp: IsSpace_def RuneError_def)

text \<open>Cutting a text short leaves its first character or makes it an error.\<close>

lemma DecodeRune_take:
  assumes "0 < n"
  shows "fst (DecodeRune (take n s)) = fst (DecodeRune s) \<or> fst (DecodeRune (take n s)) = RuneError"
proof (cases s)
  case (Cons c s1)
  obtain m where n: "n = Suc m" using assms by (cases n) auto
  show ?thesis
  proof (cases "utf8_first (byte c)")
    case None
    then show ?thesis by (simp add: Cons n DecodeRune_def Let_def)
  next
    case (Some q)
    obtain sz lo hi where q: "q = (sz, lo, hi)" by (cases q)
    have sz: "sz = 2 \<or> sz = 3 \<or> sz = 4" using Some q by (auto simp: utf8_first_def split: if_splits)
    show ?thesis
    proof (cases "length (take n s) < sz")
      case True
      then show ?thesis using Some q by (auto simp: Cons n DecodeRune_def Let_def)
    next
      case False
      then have l: "sz \<le> n" "\<not> length s < sz" by auto
      then have "take n s ! 1 = s ! 1" "sz \<noteq> 2 \<longrightarrow> take n s ! 2 = s ! 2" "sz = 4 \<longrightarrow> take n s ! 3 = s ! 3"
        using sz by auto
      moreover have "take n s = c # take m s1" by (simp add: Cons n)
      ultimately show ?thesis
        using Some q sz l False by (auto simp: Cons DecodeRune_def Let_def)
    qed
  qed
qed simp

lemma trim_left_spec:
  "\<exists>rs. (\<forall>r \<in> set rs. IsSpace r) \<and> s = concat (map utf8_encode rs) @ trim_left s
     \<and> (trim_left s \<noteq> [] \<longrightarrow> \<not> IsSpace (fst (DecodeRune (trim_left s))))"
proof (induction s rule: trim_left.induct)
  case 1
  then show ?case by (intro exI [of _ "[]"]) simp
next
  case (2 c s)
  obtain r w where d: "DecodeRune (c # s) = (r, w)" by fastforce
  show ?case
  proof (cases "IsSpace r")
    case False
    then show ?thesis using d by (intro exI [of _ "[]"]) (simp add: trim_left.simps(2))
  next
    case True
    from 2 [OF d [symmetric] refl True] obtain rs where rs: "\<forall>r \<in> set rs. IsSpace r"
      "drop w (c # s) = concat (map utf8_encode rs) @ trim_left (drop w (c # s))"
      "trim_left (drop w (c # s)) \<noteq> [] \<longrightarrow> \<not> IsSpace (fst (DecodeRune (trim_left (drop w (c # s)))))" by blast
    have "take w (c # s) = utf8_encode r"
      using DecodeRune_encode [OF d] IsSpace_not_error [OF True] by simp
    then have "c # s = utf8_encode r @ concat (map utf8_encode rs) @ trim_left (drop w (c # s))"
      using rs(2) by (metis append_take_drop_id)
    with True d rs show ?thesis by (intro exI [of _ "r # rs"]) (simp add: trim_left.simps(2))
  qed
qed

lemma DecodeLastRune_space:
  assumes "s \<noteq> []" "DecodeLastRune s = (r, w)" "IsSpace r"
  shows "s = take (length s - w) s @ utf8_encode r"
proof (cases "byte (last s) < 0x80")
  case True
  with assms(1,2) have "r = byte (last s)" "w = 1" by (simp_all add: DecodeLastRune_def)
  with True assms(1) show ?thesis by (cases s rule: rev_cases) (simp_all add: utf8_encode_ascii)
next
  case False
  let ?k = "last_start s"
  let ?t = "drop (length s - ?k) s"
  obtain r' w' where d: "DecodeRune ?t = (r', w')" by fastforce
  have kl: "0 < ?k" "?k \<le> length s" using assms(1) by (cases s; auto simp: last_start_def Let_def)+
  with False assms d IsSpace_not_error [OF assms(3)] have r: "r' = r" "w' = ?k" "w = ?k"
    by (auto simp: DecodeLastRune_def Let_def split: if_splits)
  have "?t \<noteq> []" using kl by simp
  then have "take w' ?t = utf8_encode r'" by (rule DecodeRune_encode [OF d]) (use r IsSpace_not_error [OF assms(3)] in simp)
  moreover have "take ?k ?t = ?t" using kl by simp
  ultimately show ?thesis unfolding r by (metis append_take_drop_id)
qed

lemma trim_right_spec:
  "\<exists>rs. (\<forall>r \<in> set rs. IsSpace r) \<and> s = trim_right s @ concat (map utf8_encode rs)
     \<and> (trim_right s \<noteq> [] \<longrightarrow> \<not> IsSpace (fst (DecodeLastRune (trim_right s))))"
proof (induction s rule: trim_right.induct)
  case (1 s)
  obtain r w where d: "DecodeLastRune s = (r, w)" by fastforce
  show ?case
  proof (cases "s \<noteq> [] \<and> IsSpace r")
    case False
    then show ?thesis using d by (intro exI [of _ "[]"]) (auto simp: trim_right.simps [of s])
  next
    case True
    let ?t = "take (length s - w) s"
    from 1 [of "(r, w)" r w] True d obtain rs where rs: "\<forall>r \<in> set rs. IsSpace r" "?t = trim_right ?t @ concat (map utf8_encode rs)"
      "trim_right ?t \<noteq> [] \<longrightarrow> \<not> IsSpace (fst (DecodeLastRune (trim_right ?t)))" by auto
    have "s = ?t @ utf8_encode r" using DecodeLastRune_space [OF _ d] True by simp
    then have "s = trim_right ?t @ concat (map utf8_encode (rs @ [r]))" using rs(2) by (metis append.assoc concat.simps concat_append list.simps(8,9) map_append append_Nil2)
    moreover have "trim_right s = trim_right ?t" using True d by (simp add: trim_right.simps [of s])
    ultimately show ?thesis using rs True by (intro exI [of _ "rs @ [r]"]) auto
  qed
qed

section \<open>What is trimmed\<close>

text \<open>
  \<open>TrimSpace\<close> removes white space at both ends and nothing else, on any bytes, valid UTF-8 or not: the
  text is the result with encodings of white-space characters before and after it, and a result that is
  not empty neither begins nor ends with a white-space character.
\<close>

lemma TrimSpace_exact:
  "\<exists>ls rs. (\<forall>r \<in> set (ls @ rs). IsSpace r)
     \<and> s = concat (map utf8_encode ls) @ TrimSpace s @ concat (map utf8_encode rs)
     \<and> (TrimSpace s = [] \<or> \<not> IsSpace (fst (DecodeRune (TrimSpace s))) \<and> \<not> IsSpace (fst (DecodeLastRune (TrimSpace s))))"
proof -
  from trim_left_spec [of s] obtain ls where ls: "\<forall>r \<in> set ls. IsSpace r" "s = concat (map utf8_encode ls) @ trim_left s"
    "trim_left s \<noteq> [] \<longrightarrow> \<not> IsSpace (fst (DecodeRune (trim_left s)))" by blast
  from trim_right_spec [of "trim_left s"] obtain rs where rs: "\<forall>r \<in> set rs. IsSpace r"
    "trim_left s = TrimSpace s @ concat (map utf8_encode rs)"
    "TrimSpace s \<noteq> [] \<longrightarrow> \<not> IsSpace (fst (DecodeLastRune (TrimSpace s)))" by (auto simp: TrimSpace_def)
  have "\<not> IsSpace (fst (DecodeRune (TrimSpace s)))" if "TrimSpace s \<noteq> []"
  proof -
    have "TrimSpace s = take (length (TrimSpace s)) (trim_left s)" using rs(2) by (metis append_eq_conv_conj)
    then have "fst (DecodeRune (TrimSpace s)) = fst (DecodeRune (trim_left s)) \<or> fst (DecodeRune (TrimSpace s)) = RuneError"
      using DecodeRune_take [of "length (TrimSpace s)" "trim_left s"] that by simp
    moreover have "trim_left s \<noteq> []" using rs(2) that by auto
    ultimately show ?thesis using ls(3) IsSpace_not_error by auto
  qed
  with ls rs show ?thesis by (intro exI [of _ ls] exI [of _ rs]) auto
qed

end
