(* ===== verification/Auth.thy ===== *)
theory Auth
  imports AuthTeardown AuthTrim Topics
begin

text \<open>
  The package internal/auth, third part: the token exchange. \<open>fetchToken\<close> runs the credential leg and
  \<open>Exchange\<close> the durable one after it. The results of the calls they make on the network, the
  dialer, the connection and the random source are the inputs of a run; the calls themselves, in
  order and with their arguments, are its log.
\<close>

section \<open>The credential leg\<close>

definition TokenTopic :: string where
  "TokenTopic = ''/topic/pnnl.goss.token.topic''"

definition replyDestPrefix :: string where
  "replyDestPrefix = ''temp.token_resp.''"

definition credentialDisconnectBound :: duration where
  "credentialDisconnectBound = second"

definition replyDest :: "string \<Rightarrow> bytes \<Rightarrow> string" where
  "replyDest user nonce = replyDestPrefix @ user @ ''-'' @ hex_EncodeToString nonce"

definition token_payload :: "string \<Rightarrow> string \<Rightarrow> bytes" where
  "token_payload user pass = b64_EncodeToString (user @ '':'' @ pass)"

text \<open>
  The inputs of a run: what each call returns, \<open>None\<close> meaning success where there is nothing else to
  return. \<open>te_bounder\<close> tells whether the dialer is a \<open>disconnectBounder\<close>; \<open>te_wait\<close> is what the final
  \<open>select\<close> yields, \<open>None\<close> if it blocks for good; \<open>te_sched\<close> is the schedule of the teardown.
\<close>

record token_env =
  te_netDial :: "goerr option"
  te_bounder :: bool
  te_Dial :: "goerr option"
  te_rand :: "goerr + bytes"
  te_Subscribe :: "goerr option"
  te_Send :: "goerr option"
  te_wait :: "select_result option"
  te_sched :: "ecc_action list"

text \<open>The calls, in the order they are made. The two legs' transports are told apart by a number.\<close>

datatype auth_call =
    ANetDial nat
  | ADial nat "duration option" ConnConfig
  | ACloseRwc nat
  | ASubscribe gocontext string
  | ASend string string bytes headers
  | AUnsubscribe
  | ADisconnect
  | ALog bool goerr

definition dial_cfg :: "string \<Rightarrow> string \<Rightarrow> duration \<Rightarrow> HeartBeatIntervals option \<Rightarrow> ConnConfig" where
  "dial_cfg login pass hb hbs = \<lparr>Login = login, Passcode = pass, HeartBeat = hb, HeartBeats = hbs\<rparr>"

definition token_result :: "select_result \<Rightarrow> goerr + string" where
  "token_result res =
     (case res of
        GotClosed \<Rightarrow> Inl (Errorf ''token subscription closed before response arrived'' [] [])
      | GotMsg msg \<Rightarrow>
          (case Err msg of
             Some e \<Rightarrow> Inl (Errorf ''token subscription error: %w'' [] [e])
           | None \<Rightarrow>
               (let tok = TrimSpace (Body msg) in
                if tok = [] then Inl (Errorf ''broker returned empty token'' [] []) else Inr tok))
      | GotCtxDone e \<Rightarrow> Inl (Errorf ''token exchange cancelled: %w'' [] [e]))"

text \<open>
  The body of \<open>fetchToken\<close> between the deferred teardown and its end: whether a subscription was made,
  the result, the error of the context if the final \<open>select\<close> saw its end, and the calls. \<open>None\<close> when
  that \<open>select\<close> blocks for good.
\<close>

definition token_body ::
  "token_env \<Rightarrow> gocontext \<Rightarrow> string \<Rightarrow> string \<Rightarrow>
     (bool \<times> (goerr + string) \<times> goerr option \<times> auth_call list) option" where
  "token_body env ctx user pass =
     (case te_rand env of
        Inl e \<Rightarrow> Some (False, Inl (Errorf ''generating reply-queue nonce: %w'' [] [e]), None, [])
      | Inr nonce \<Rightarrow>
          (let queueDest = ''/queue/'' @ replyDest user nonce;
               l1 = [ASubscribe (WithoutCancel ctx) queueDest] in
           case te_Subscribe env of
             Some e \<Rightarrow> Some (False, Inl (Errorf ''token subscribe %q: %w'' [StrArg queueDest] [e]), None, l1)
           | None \<Rightarrow>
               (let l2 = l1 @ [ASend TokenTopic ''text/plain'' (token_payload user pass)
                               [HeaderReplyTo \<mapsto> replyDest user nonce]] in
                case te_Send env of
                  Some e \<Rightarrow> Some (True, Inl (Errorf ''token send: %w'' [] [e]), None, l2)
                | None \<Rightarrow>
                    (case te_wait env of
                       None \<Rightarrow> None
                     | Some res \<Rightarrow>
                         Some (True, token_result res, (case res of GotCtxDone e \<Rightarrow> Some e | _ \<Rightarrow> None), l2)))))"

definition endCredentialConn :: "bool \<Rightarrow> goerr option \<Rightarrow> ecc_action list \<Rightarrow> (goerr option \<times> goerr option \<times> ecc) option" where
  "endCredentialConn hasSub ctxErr sched =
     (case run_actions ecc_step sched (ecc_start hasSub ctxErr) of
        Some t \<Rightarrow> (case ec_main t of MRet s c \<Rightarrow> Some (s, c, t) | _ \<Rightarrow> None)
      | None \<Rightarrow> None)"

fun call_log :: "tcall \<Rightarrow> auth_call" where
  "call_log TCallUnsubscribe = AUnsubscribe"
| "call_log (TCallDisconnect d) = ADisconnect"

text \<open>
  The deferred function: what it makes of the teardown's two errors and of the result so far. The log
  of the run ends with what it adds.
\<close>

definition token_deferred ::
  "goerr option \<Rightarrow> goerr option \<Rightarrow> goerr + string \<Rightarrow> (goerr + string) \<times> auth_call list" where
  "token_deferred stepErr ctxErr res =
     (let l = (if stepErr \<noteq> None \<and> ctxErr = None then [ACloseRwc 1] else []) in
      case (ctxErr, res) of
        (Some c, Inr tok) \<Rightarrow>
          (let c' = (case stepErr of None \<Rightarrow> c | Some s \<Rightarrow> Errorf ''%w: %w'' [] [c, s]) in
           (Inl (Errorf ''credential connection teardown: %w'' [] [c']), l))
      | _ \<Rightarrow>
          (case stepErr of
             Some s \<Rightarrow> (res, l @ [ALog (\<exists>tok. res = Inr tok) s])
           | None \<Rightarrow> (res, l)))"

definition fetchToken ::
  "token_env \<Rightarrow> gocontext \<Rightarrow> string \<Rightarrow> string \<Rightarrow> duration \<Rightarrow> HeartBeatIntervals option \<Rightarrow>
     ((goerr + string) \<times> auth_call list) option" where
  "fetchToken env ctx user pass hb hbs =
     (case te_netDial env of
        Some e \<Rightarrow> Some (Inl (Errorf ''credential dial: %w'' [] [e]), [ANetDial 1])
      | None \<Rightarrow>
          (let bnd = (if te_bounder env then Some credentialDisconnectBound else None);
               l1 = [ANetDial 1, ADial 1 bnd (dial_cfg user pass hb hbs)] in
           case te_Dial env of
             Some e \<Rightarrow> Some (Inl (Errorf ''credential connect: %w'' [] [e]), l1 @ [ACloseRwc 1])
           | None \<Rightarrow>
               (case token_body env ctx user pass of
                  None \<Rightarrow> None
                | Some (hasSub, res, ctxEnd, l2) \<Rightarrow>
                    (case endCredentialConn hasSub ctxEnd (te_sched env) of
                       None \<Rightarrow> None
                     | Some (stepErr, ctxErr, t) \<Rightarrow>
                         (case token_deferred stepErr ctxErr res of
                            (res', l4) \<Rightarrow> Some (res', l1 @ l2 @ map call_log (ec_calls t) @ l4))))))"

section \<open>The exchange\<close>

text \<open>\<open>ae_netDial\<close> and \<open>ae_Dial\<close> are the results of the second leg's calls.\<close>

definition Exchange ::
  "token_env \<Rightarrow> goerr option \<Rightarrow> goerr option \<Rightarrow> gocontext \<Rightarrow> string \<Rightarrow> string \<Rightarrow> duration \<Rightarrow>
     HeartBeatIntervals option \<Rightarrow> (goerr option \<times> auth_call list) option" where
  "Exchange env netDial2 dial2 ctx user pass hb hbs =
     (case fetchToken env ctx user pass hb hbs of
        None \<Rightarrow> None
      | Some (Inl e, l) \<Rightarrow> Some (Some (Errorf ''auth exchange: %w'' [] [e]), l)
      | Some (Inr token, l) \<Rightarrow>
          (case netDial2 of
             Some e \<Rightarrow> Some (Some (Errorf ''auth exchange second dial: %w'' [] [e]), l @ [ANetDial 2])
           | None \<Rightarrow>
               (let l1 = l @ [ANetDial 2, ADial 2 None (dial_cfg token [] hb hbs)] in
                case dial2 of
                  Some e \<Rightarrow> Some (Some (Errorf ''auth exchange second connect: %w'' [] [e]), l1 @ [ACloseRwc 2])
                | None \<Rightarrow> Some (None, l1))))"

section \<open>Properties\<close>

lemma endCredentialConn_reach:
  assumes "endCredentialConn hasSub ctxEnd sched = Some (s, c, t)"
  shows "reach ecc_step (ecc_start hasSub ctxEnd) t" "ec_main t = MRet s c"
  using assms by (auto simp: endCredentialConn_def split: option.splits mpc.splits intro: run_reach)

text \<open>What \<open>fetchToken\<close> did when it got past its dial.\<close>

lemma fetchToken_dialed:
  assumes "fetchToken env ctx user pass hb hbs = Some (out, l)" "te_netDial env = None" "te_Dial env = None"
  shows "\<exists>hasSub res ctxEnd l2 s c t l4. token_body env ctx user pass = Some (hasSub, res, ctxEnd, l2)
    \<and> endCredentialConn hasSub ctxEnd (te_sched env) = Some (s, c, t) \<and> token_deferred s c res = (out, l4)
    \<and> l = [ANetDial 1, ADial 1 (if te_bounder env then Some credentialDisconnectBound else None)
            (dial_cfg user pass hb hbs)] @ l2 @ map call_log (ec_calls t) @ l4"
  using assms by (auto simp: fetchToken_def split: option.splits prod.splits)

lemma fetchToken_ok_dialed:
  "fetchToken env ctx user pass hb hbs = Some (Inr tok, l) \<Longrightarrow> te_netDial env = None \<and> te_Dial env = None"
  by (auto simp: fetchToken_def Let_def split: option.splits)

lemma token_deferred_ok:
  "token_deferred s c res = (Inr tok, l4) \<Longrightarrow> c = None \<and> res = Inr tok \<and>
     l4 = (case s of None \<Rightarrow> [] | Some e \<Rightarrow> [ACloseRwc 1, ALog True e])"
  by (auto simp: token_deferred_def Let_def split: option.splits sum.splits)

lemma token_body_ok:
  "token_body env ctx user pass = Some (hasSub, Inr tok, ctxEnd, l2) \<Longrightarrow>
     \<exists>nonce msg. te_rand env = Inr nonce \<and> te_wait env = Some (GotMsg msg) \<and> Err msg = None
       \<and> tok = TrimSpace (Body msg) \<and> tok \<noteq> [] \<and> hasSub \<and> ctxEnd = None
       \<and> l2 = [ASubscribe (WithoutCancel ctx) (''/queue/'' @ replyDest user nonce),
              ASend TokenTopic ''text/plain'' (token_payload user pass) [HeaderReplyTo \<mapsto> replyDest user nonce]]"
  by (auto simp: token_body_def token_result_def Let_def split: sum.splits option.splits select_result.splits if_splits)

lemma fetchToken_ok:
  assumes "fetchToken env ctx user pass hb hbs = Some (Inr tok, l)"
  shows "\<exists>nonce msg l4. te_rand env = Inr nonce \<and> te_wait env = Some (GotMsg msg) \<and> Err msg = None
    \<and> tok = TrimSpace (Body msg) \<and> tok \<noteq> []
    \<and> l = [ANetDial 1, ADial 1 (if te_bounder env then Some credentialDisconnectBound else None)
            (dial_cfg user pass hb hbs),
           ASubscribe (WithoutCancel ctx) (''/queue/'' @ replyDest user nonce),
           ASend TokenTopic ''text/plain'' (token_payload user pass) [HeaderReplyTo \<mapsto> replyDest user nonce],
           AUnsubscribe, ADisconnect] @ l4
    \<and> (l4 = [] \<or> (\<exists>e. l4 = [ACloseRwc 1, ALog True e]))"
proof -
  from fetchToken_ok_dialed [OF assms] have "te_netDial env = None" "te_Dial env = None" by simp_all
  from fetchToken_dialed [OF assms this] obtain hasSub res ctxEnd l2 s c t l4 where
    body: "token_body env ctx user pass = Some (hasSub, res, ctxEnd, l2)"
    and fin: "endCredentialConn hasSub ctxEnd (te_sched env) = Some (s, c, t)"
    and def: "token_deferred s c res = (Inr tok, l4)"
    and l: "l = [ANetDial 1, ADial 1 (if te_bounder env then Some credentialDisconnectBound else None)
            (dial_cfg user pass hb hbs)] @ l2 @ map call_log (ec_calls t) @ l4" by blast
  note D = token_deferred_ok [OF def]
  with token_body_ok body obtain nonce msg where B: "te_rand env = Inr nonce" "te_wait env = Some (GotMsg msg)"
    "Err msg = None" "tok = TrimSpace (Body msg)" "tok \<noteq> []" "hasSub"
    "l2 = [ASubscribe (WithoutCancel ctx) (''/queue/'' @ replyDest user nonce),
      ASend TokenTopic ''text/plain'' (token_payload user pass) [HeaderReplyTo \<mapsto> replyDest user nonce]]" by blast
  from teardown_full endCredentialConn_reach [OF fin] D B(6) obtain d where
    "ec_calls t = [TCallUnsubscribe, TCallDisconnect d]" by fastforce
  with B l D show ?thesis by (auto split: option.splits)
qed

text \<open>
  C8: A token that \<open>fetchToken\<close> returns is the trimmed, non-empty body of an error-free message, and it
  came from one exact sequence of calls: dial, connect with the user's credentials (with the
  disconnect bound when the dialer takes one), subscribe to the reply queue with a context that is
  never cancelled, send the base64 credentials to the token topic with the bare reply name, then
  unsubscribe and disconnect; a failed teardown step only closes the transport and is logged.
\<close>

theorem fetchToken_token:
  assumes "fetchToken env ctx user pass hb hbs = Some (Inr tok, l)"
  shows "\<exists>nonce msg l4. te_rand env = Inr nonce \<and> te_wait env = Some (GotMsg msg) \<and> Err msg = None
    \<and> tok = TrimSpace (Body msg) \<and> tok \<noteq> []
    \<and> l = [ANetDial 1, ADial 1 (if te_bounder env then Some credentialDisconnectBound else None)
            (dial_cfg user pass hb hbs),
           ASubscribe (WithoutCancel ctx) (''/queue/'' @ replyDest user nonce),
           ASend TokenTopic ''text/plain'' (token_payload user pass) [HeaderReplyTo \<mapsto> replyDest user nonce],
           AUnsubscribe, ADisconnect] @ l4
    \<and> (l4 = [] \<or> (\<exists>e. l4 = [ACloseRwc 1, ALog True e]))"
  by (rule fetchToken_ok [OF assms])

text \<open>A run in which everything succeeds.\<close>

definition good_env :: token_env where
  "good_env = \<lparr>te_netDial = None, te_bounder = True, te_Dial = None, te_rand = Inr ''abcdefgh'',
     te_Subscribe = None, te_Send = None,
     te_wait = Some (GotMsg \<lparr>Body = '' tok '', Destination = [], Err = None\<rparr>),
     te_sched = quiet_teardown None\<rparr>"

lemma TrimSpace_tok: "TrimSpace '' tok '' = ''tok''"
  by (simp add: TrimSpace_def trim_left.simps trim_right.simps DecodeRune_ascii DecodeLastRune_def IsSpace_def)

lemma good_fetch: "\<exists>l. fetchToken good_env (CallerCtx None) ''u'' ''p'' 0 None = Some (Inr ''tok'', l)"
  by (simp add: fetchToken_def good_env_def token_body_def token_result_def TrimSpace_tok endCredentialConn_def
    quiet_teardown_def ecc_eval token_deferred_def)

theorem fetchToken_token_witness:
  "\<exists>l. fetchToken good_env (CallerCtx None) ''u'' ''p'' 0 None = Some (Inr ''tok'', l)
     \<and> l ! 5 = ADisconnect"
proof -
  from good_fetch obtain l where l: "fetchToken good_env (CallerCtx None) ''u'' ''p'' 0 None = Some (Inr ''tok'', l)" ..
  from fetchToken_token [OF l] l show ?thesis by auto
qed

text \<open>
  What counts as a token: the body of an error-free reply, of any bytes, is taken for a token unless it
  is nothing but encodings of white-space characters; the token is that body without the white space at
  its ends and with nothing else removed, is not empty, and neither begins nor ends with white space.
\<close>

lemma token_trimmed:
  assumes "Err msg = None"
  shows "case token_result (GotMsg msg) of
      Inr tok \<Rightarrow> tok \<noteq> [] \<and> \<not> IsSpace (fst (DecodeRune tok)) \<and> \<not> IsSpace (fst (DecodeLastRune tok))
        \<and> (\<exists>ls rs. (\<forall>r \<in> set (ls @ rs). IsSpace r) \<and> Body msg = concat (map utf8_encode ls) @ tok @ concat (map utf8_encode rs))
    | Inl e \<Rightarrow> \<exists>ls. (\<forall>r \<in> set ls. IsSpace r) \<and> Body msg = concat (map utf8_encode ls)"
proof -
  from TrimSpace_exact [of "Body msg"] obtain ls rs where T: "\<forall>r \<in> set (ls @ rs). IsSpace r"
    "Body msg = concat (map utf8_encode ls) @ TrimSpace (Body msg) @ concat (map utf8_encode rs)"
    "TrimSpace (Body msg) = [] \<or> \<not> IsSpace (fst (DecodeRune (TrimSpace (Body msg)))) \<and> \<not> IsSpace (fst (DecodeLastRune (TrimSpace (Body msg))))"
    by blast
  show ?thesis
  proof (cases "TrimSpace (Body msg) = []")
    case True
    with T have "Body msg = concat (map utf8_encode (ls @ rs))" by simp
    with True T(1) assms show ?thesis by (auto simp: token_result_def intro!: exI [of _ "ls @ rs"])
  next
    case False
    with T assms show ?thesis by (auto simp: token_result_def Let_def)
  qed
qed

text \<open>
  The credential connection is always ended: when \<open>fetchToken\<close> returns after its network dial
  succeeded, a failed STOMP connect has closed the transport, and otherwise Disconnect has returned,
  or the context has ended and its callback has closed the transport or been started to close it.
\<close>

lemma credential_leg_ended:
  assumes "fetchToken env ctx user pass hb hbs = Some (out, l)" "te_netDial env = None"
  shows "(te_Dial env \<noteq> None \<longrightarrow> last l = ACloseRwc 1)
    \<and> (te_Dial env = None \<longrightarrow> ADisconnect \<in> set l
        \<or> (\<exists>hasSub ctxEnd s e t. endCredentialConn hasSub ctxEnd (te_sched env) = Some (s, Some e, t)
            \<and> (ec_running t \<or> ec_rwc_closed t)))"
proof (intro conjI impI)
  assume "te_Dial env \<noteq> None"
  with assms show "last l = ACloseRwc 1" by (auto simp: fetchToken_def Let_def)
next
  assume "te_Dial env = None"
  from fetchToken_dialed [OF assms this] obtain hasSub ctxEnd l1 l2 s c t l4 where
    fin: "endCredentialConn hasSub ctxEnd (te_sched env) = Some (s, c, t)"
    and l: "l = l1 @ l2 @ map call_log (ec_calls t) @ l4" by blast
  note R = endCredentialConn_reach [OF fin]
  have full: "ADisconnect \<in> set l" if "ec_calls t = us @ [TCallDisconnect d]" for us d
    using that l by simp
  show "ADisconnect \<in> set l
        \<or> (\<exists>hasSub ctxEnd s e t. endCredentialConn hasSub ctxEnd (te_sched env) = Some (s, Some e, t)
            \<and> (ec_running t \<or> ec_rwc_closed t))"
  proof (cases c)
    case None
    with teardown_full R full show ?thesis by blast
  next
    case (Some e)
    with teardown_cut [of hasSub ctxEnd t s e] R full fin show ?thesis by blast
  qed
qed

text \<open>
  C9: A successful exchange ends the credential leg before it begins the durable one: its log is that of
  a successful token fetch, which contains the Disconnect of the credential connection, followed by the
  second dial and a CONNECT with exactly the fetched token as login, an empty passcode and the same
  heart-beat settings, and the durable transport is not closed.
\<close>

theorem exchange_order:
  assumes "Exchange env nd2 d2 ctx user pass hb hbs = Some (None, l)"
  shows "\<exists>tok l1. fetchToken env ctx user pass hb hbs = Some (Inr tok, l1) \<and> ADisconnect \<in> set l1
    \<and> l = l1 @ [ANetDial 2, ADial 2 None \<lparr>Login = tok, Passcode = [], HeartBeat = hb, HeartBeats = hbs\<rparr>]
    \<and> ACloseRwc 2 \<notin> set l"
proof -
  from assms obtain tok l1 where f: "fetchToken env ctx user pass hb hbs = Some (Inr tok, l1)"
    and l: "l = l1 @ [ANetDial 2, ADial 2 None (dial_cfg tok [] hb hbs)]"
    by (auto simp: Exchange_def Let_def split: option.splits sum.splits)
  from fetchToken_ok [OF f] have "ADisconnect \<in> set l1 \<and> ACloseRwc 2 \<notin> set l1" by auto
  with f l show ?thesis by (auto simp: dial_cfg_def)
qed

theorem exchange_order_witness:
  "\<exists>l. Exchange good_env None None (CallerCtx None) ''u'' ''p'' 0 None = Some (None, l)
     \<and> last l = ADial 2 None \<lparr>Login = ''tok'', Passcode = [], HeartBeat = 0, HeartBeats = None\<rparr>"
proof -
  from good_fetch obtain l1 where l1: "fetchToken good_env (CallerCtx None) ''u'' ''p'' 0 None = Some (Inr ''tok'', l1)" ..
  then obtain l where l: "Exchange good_env None None (CallerCtx None) ''u'' ''p'' 0 None = Some (None, l)"
    by (simp add: Exchange_def)
  from exchange_order [OF l] l l1 show ?thesis by auto
qed

lemma token_body_calls:
  "token_body env ctx user pass = Some (hasSub, res, ctxEnd, l2) \<Longrightarrow> ADial n b cfg \<notin> set l2 \<and> ANetDial n \<notin> set l2"
  by (auto simp: token_body_def Let_def split: sum.splits option.splits)

lemma fetchToken_leg:
  assumes "fetchToken env ctx user pass hb hbs = Some (out, l)" "ADial n b cfg \<in> set l \<or> ANetDial n \<in> set l"
  shows "n = 1"
proof (cases "te_netDial env = None \<and> te_Dial env = None")
  case True
  then have nd: "te_netDial env = None" "te_Dial env = None" by simp_all
  from fetchToken_dialed [OF assms(1) nd] obtain hasSub res ctxEnd l2 s c l4 and t :: ecc where
    body: "token_body env ctx user pass = Some (hasSub, res, ctxEnd, l2)"
    and def: "token_deferred s c res = (out, l4)"
    and l: "l = [ANetDial 1, ADial 1 (if te_bounder env then Some credentialDisconnectBound else None)
            (dial_cfg user pass hb hbs)] @ l2 @ map call_log (ec_calls t) @ l4" by blast
  have "call_log x \<noteq> ADial n b cfg \<and> call_log x \<noteq> ANetDial n" for x by (cases x) simp_all
  then have "ADial n b cfg \<notin> set (map call_log (ec_calls t)) \<and> ANetDial n \<notin> set (map call_log (ec_calls t))"
    by (metis ex_map_conv)
  moreover have "ADial n b cfg \<notin> set l4 \<and> ANetDial n \<notin> set l4"
    using def by (auto simp: token_deferred_def Let_def split: option.splits sum.splits if_splits)
  ultimately show ?thesis using token_body_calls [OF body, of n b cfg] assms(2) l by (auto simp del: set_map)
qed (use assms in \<open>auto simp: fetchToken_def Let_def split: option.splits\<close>)

text \<open>
  A failed exchange leaves no durable connection: without a token the second leg is never dialled,
  and a second leg whose CONNECT failed has had its transport closed, as the last call of all.
\<close>

lemma exchange_failure:
  assumes "Exchange env nd2 d2 ctx user pass hb hbs = Some (Some e, l)"
  shows "(ANetDial 2 \<in> set l \<longrightarrow> (\<exists>tok l1. fetchToken env ctx user pass hb hbs = Some (Inr tok, l1)))
    \<and> (\<forall>b cfg. ADial 2 b cfg \<in> set l \<longrightarrow> last l = ACloseRwc 2)"
proof -
  from assms obtain out l1 where f: "fetchToken env ctx user pass hb hbs = Some (out, l1)"
    by (auto simp: Exchange_def split: option.splits)
  have leg: "ADial 2 b cfg \<notin> set l1" "ANetDial 2 \<notin> set l1" for b cfg
    using fetchToken_leg [OF f, of 2] by auto
  show ?thesis
  proof (cases out)
    case (Inl x)
    with assms f leg show ?thesis by (simp add: Exchange_def)
  next
    case (Inr tok)
    with assms f leg show ?thesis by (auto simp: Exchange_def Let_def split: option.splits)
  qed
qed

lemma split_at_colon:
  "CHR '':'' \<notin> set u1 \<Longrightarrow> CHR '':'' \<notin> set u2 \<Longrightarrow> u1 @ '':'' @ p1 = u2 @ '':'' @ p2 \<longleftrightarrow> u1 = u2 \<and> p1 = p2"
proof (induction u1 arbitrary: u2)
  case Nil
  then show ?case by (cases u2) auto
next
  case (Cons c u1)
  then show ?case by (cases u2) auto
qed

text \<open>
  The token request carries the credentials and the reply route. The payload decodes to user, colon and
  password, and it determines both when the user name has no colon; two requests share a reply queue only if
  user and nonce are the same, whatever characters the user names contain; and the reply name of the header
  normalises to the queue that was subscribed to.
\<close>

lemma token_request:
  assumes "length n1 = 8" "length n2 = 8" "CHR '':'' \<notin> set u1" "CHR '':'' \<notin> set u2"
  shows "b64_DecodeString (token_payload u1 p1) = Some (u1 @ '':'' @ p1)
    \<and> (token_payload u1 p1 = token_payload u2 p2 \<longleftrightarrow> u1 = u2 \<and> p1 = p2)
    \<and> (replyDest v1 n1 = replyDest v2 n2 \<longleftrightarrow> v1 = v2 \<and> n1 = n2)
    \<and> NormalizeDestination (replyDest v1 n1) = ''/queue/'' @ replyDest v1 n1"
proof -
  have len: "length (hex_EncodeToString n1) = length (hex_EncodeToString n2)" using assms by simp
  have "replyDest v1 n1 = replyDest v2 n2 \<longleftrightarrow>
    (v1 @ ''-'') @ hex_EncodeToString n1 = (v2 @ ''-'') @ hex_EncodeToString n2"
    by (simp add: replyDest_def)
  also have "\<dots> \<longleftrightarrow> v1 @ ''-'' = v2 @ ''-'' \<and> hex_EncodeToString n1 = hex_EncodeToString n2"
    by (rule append_eq_append_conv) (rule disjI2 [OF len])
  finally have "replyDest v1 n1 = replyDest v2 n2 \<longleftrightarrow> v1 = v2 \<and> n1 = n2" by (simp add: hex.encode_inj)
  moreover have "NormalizeDestination (replyDest v1 n1) = ''/queue/'' @ replyDest v1 n1"
    by (simp add: NormalizeDestination_def HasPrefix_def replyDest_def replyDestPrefix_def)
  moreover have "token_payload u1 p1 = token_payload u2 p2 \<longleftrightarrow> u1 = u2 \<and> p1 = p2"
    using split_at_colon [OF assms(3,4), of p1 p2] by (simp add: token_payload_def b64.encode_inj)
  ultimately show ?thesis by (simp add: token_payload_def b64.decode_encode)
qed

end
