(* ===== verification/AuthConn.thy ===== *)
theory AuthConn
  imports Auth Session
begin

text \<open>
  The token exchange over a connection: \<open>fetchToken\<close> makes its calls through the table of methods of
  \<open>Conn\<close>, its teardown calls Unsubscribe and Disconnect on the same connection while bridge, drain
  goroutine and go-stomp go on working, and over internal/stomp both legs are dialled with that
  package's dialer. Every such run is a run of the exchange of theory Auth; what it leaves behind on
  the connection is shown from the promises of the interface.
\<close>

text \<open>The one frame of the credential leg.\<close>

definition token_frame :: "string \<Rightarrow> string \<Rightarrow> bytes \<Rightarrow> send_frame" where
  "token_frame user pass nonce =
     \<lparr>sf_dest = TokenTopic, sf_ctype = ''text/plain'', sf_body = token_payload user pass,
      sf_headers = [HeaderReplyTo \<mapsto> replyDest user nonce]\<rparr>"

section \<open>The body of fetchToken over a table of methods\<close>

text \<open>The subscription made, the result, the error of the context if the \<open>select\<close> saw its end.\<close>

definition token_over ::
  "('w, 's) Conn \<Rightarrow> (goerr + bytes) \<Rightarrow> gocontext \<Rightarrow> string \<Rightarrow> string \<Rightarrow> 'w \<Rightarrow>
     ('s option \<times> (goerr + string) \<times> goerr option \<times> 'w) option" where
  "token_over ops rnd ctx user pass w =
     (case rnd of
        Inl e \<Rightarrow> Some (None, Inl (Errorf ''generating reply-queue nonce: %w'' [] [e]), None, w)
      | Inr nonce \<Rightarrow>
          (let queueDest = ''/queue/'' @ replyDest user nonce in
           case conn_Subscribe ops (WithoutCancel ctx) queueDest w of
             (Inl e, w1) \<Rightarrow> Some (None, Inl (Errorf ''token subscribe %q: %w'' [StrArg queueDest] [e]), None, w1)
           | (Inr s, w1) \<Rightarrow>
               (case conn_Send ops ctx TokenTopic ''text/plain'' (token_payload user pass)
                       [HeaderReplyTo \<mapsto> replyDest user nonce] w1 of
                  (Some e, w2) \<Rightarrow> Some (Some s, Inl (Errorf ''token send: %w'' [] [e]), None, w2)
                | (None, w2) \<Rightarrow>
                    (case wait_reply ops ctx s w2 of
                       None \<Rightarrow> None
                     | Some (res, w3) \<Rightarrow>
                         Some (Some s, token_result res, (case res of GotCtxDone e \<Rightarrow> Some e | _ \<Rightarrow> None), w3)))))"

section \<open>The teardown over a table of methods\<close>

text \<open>
  Beside the steps of caller, goroutine, context and callback, \<open>CrEnv\<close> is whatever else happens on the
  connection to the subscription. \<open>sub\<close> is nil, here \<open>None\<close>, before a subscription is made.
\<close>

datatype 'e cred_action =
    CrCtxEnds goerr
  | CrCallback
  | CrTeardown
  | CrCaller bool
  | CrEnv 'e

definition cred_teardown :: "('w, 's) Conn \<Rightarrow> 's option \<Rightarrow> ecc \<times> 'w \<Rightarrow> (ecc \<times> 'w) option" where
  "cred_teardown ops sub p =
     (case p of (t, w) \<Rightarrow>
        (case ec_pc t of
           TUnsub \<Rightarrow>
             (case sub of
                None \<Rightarrow> None
              | Some s \<Rightarrow>
                  (case sub_Unsubscribe ops s w of
                     (r, w') \<Rightarrow> map_option (\<lambda>t'. (t', w')) (teardown_step r None t)))
         | TDisc u \<Rightarrow>
             (case conn_Disconnect ops w of
                None \<Rightarrow> None
              | Some (e, w') \<Rightarrow> map_option (\<lambda>t'. (t', w')) (teardown_step (Ret None) e t))
         | _ \<Rightarrow> map_option (\<lambda>t'. (t', w)) (teardown_step (Ret None) None t)))"

fun cred_step ::
  "('w, 's) Conn \<Rightarrow> ('s \<Rightarrow> 'e \<Rightarrow> 'w \<Rightarrow> 'w) \<Rightarrow> ('w \<Rightarrow> 'w) \<Rightarrow> 's option \<Rightarrow> 'e cred_action \<Rightarrow> ecc \<times> 'w \<Rightarrow> (ecc \<times> 'w) option" where
  "cred_step ops env closeRwc sub (CrCtxEnds e) (t, w) = map_option (\<lambda>t'. (t', w)) (ecc_step (CtxEnds e) t)"
| "cred_step ops env closeRwc sub CrCallback (t, w) =
     map_option (\<lambda>t'. (t', closeRwc w)) (ecc_step CallbackRuns t)"
| "cred_step ops env closeRwc sub CrTeardown (t, w) = cred_teardown ops sub (t, w)"
| "cred_step ops env closeRwc sub (CrCaller pick) (t, w) = map_option (\<lambda>t'. (t', w)) (ecc_step (Caller pick) t)"
| "cred_step ops env closeRwc sub (CrEnv e) (t, w) =
     (case sub of None \<Rightarrow> None | Some s \<Rightarrow> Some (t, env s e w))"

text \<open>
  The body with the deferred function: the result, the context error of the teardown, the log of what
  the deferred function did.
\<close>

definition cred_leg ::
  "('w, 's) Conn \<Rightarrow> ('s \<Rightarrow> 'e \<Rightarrow> 'w \<Rightarrow> 'w) \<Rightarrow> ('w \<Rightarrow> 'w) \<Rightarrow> (goerr + bytes) \<Rightarrow> 'e cred_action list \<Rightarrow>
     gocontext \<Rightarrow> string \<Rightarrow> string \<Rightarrow> 'w \<Rightarrow> ((goerr + string) \<times> goerr option \<times> auth_call list \<times> 'w) option" where
  "cred_leg ops env closeRwc rnd sched ctx user pass w =
     (case token_over ops rnd ctx user pass w of
        None \<Rightarrow> None
      | Some (sub, res, ctxEnd, w1) \<Rightarrow>
          (case run_actions (cred_step ops env closeRwc sub) sched (ecc_start (sub \<noteq> None) ctxEnd, w1) of
             None \<Rightarrow> None
           | Some (t, w2) \<Rightarrow>
               (case ec_main t of
                  MRet stepErr ctxErr \<Rightarrow>
                    (case token_deferred stepErr ctxErr res of
                       (res', l) \<Rightarrow> Some (res', ctxErr, l, if ACloseRwc 1 \<in> set l then closeRwc w2 else w2))
                | _ \<Rightarrow> None)))"

section \<open>It is the exchange of theory Auth\<close>

lemma cred_step_ecc:
  "cred_step ops env closeRwc sub act (t, w) = Some (t', w') \<Longrightarrow> t' = t \<or> (\<exists>a. ecc_step a t = Some t')"
proof (cases act)
  case CrTeardown
  assume "cred_step ops env closeRwc sub act (t, w) = Some (t', w')"
  with CrTeardown have "\<exists>r d. teardown_step r d t = Some t'"
    by (auto simp: cred_teardown_def split: tpc.splits option.splits prod.splits)
  then show ?thesis by (metis ecc_step.simps(3))
qed (auto simp: split: option.splits intro: exI [of _ "CtxEnds e" for e] exI [of _ CallbackRuns] exI [of _ "Caller b" for b])

lemma cred_run_ecc:
  "run_actions (cred_step ops env closeRwc sub) sched (t, w) = Some (t', w') \<Longrightarrow>
     \<exists>as. run_actions ecc_step as t = Some t'"
proof (induction sched arbitrary: t w)
  case Nil
  then show ?case by (intro exI [of _ "[]"]) simp
next
  case (Cons act sched)
  from Cons.prems obtain t1 w1 where st: "cred_step ops env closeRwc sub act (t, w) = Some (t1, w1)"
    "run_actions (cred_step ops env closeRwc sub) sched (t1, w1) = Some (t', w')" by (auto split: Option.bind_splits)
  from Cons.IH [OF st(2)] obtain as where as: "run_actions ecc_step as t1 = Some t'" ..
  from cred_step_ecc [OF st(1)] show ?case
  proof
    assume "t1 = t"
    with as show ?thesis by blast
  next
    assume "\<exists>a. ecc_step a t = Some t1"
    then obtain a where "ecc_step a t = Some t1" ..
    with as show ?thesis by (intro exI [of _ "a # as"]) simp
  qed
qed

text \<open>The results of the calls as inputs of a run of \<open>fetchToken\<close>.\<close>

definition calls_env ::
  "('w, 's) Conn \<Rightarrow> (goerr + bytes) \<Rightarrow> gocontext \<Rightarrow> string \<Rightarrow> string \<Rightarrow> 'w \<Rightarrow> ecc_action list \<Rightarrow> token_env" where
  "calls_env ops rnd ctx user pass w as =
     (case rnd of
        Inl e \<Rightarrow> \<lparr>te_netDial = None, te_bounder = True, te_Dial = None, te_rand = rnd, te_Subscribe = None,
          te_Send = None, te_wait = None, te_sched = as\<rparr>
      | Inr nonce \<Rightarrow>
          (case conn_Subscribe ops (WithoutCancel ctx) (''/queue/'' @ replyDest user nonce) w of
             (Inl e, w1) \<Rightarrow> \<lparr>te_netDial = None, te_bounder = True, te_Dial = None, te_rand = rnd,
               te_Subscribe = Some e, te_Send = None, te_wait = None, te_sched = as\<rparr>
           | (Inr s, w1) \<Rightarrow>
               (case conn_Send ops ctx TokenTopic ''text/plain'' (token_payload user pass)
                       [HeaderReplyTo \<mapsto> replyDest user nonce] w1 of
                  (e, w2) \<Rightarrow> \<lparr>te_netDial = None, te_bounder = True, te_Dial = None, te_rand = rnd, te_Subscribe = None,
                    te_Send = e, te_wait = map_option fst (wait_reply ops ctx s w2), te_sched = as\<rparr>)))"

lemma calls_env_sel [simp]:
  "te_netDial (calls_env ops rnd ctx user pass w as) = None" "te_bounder (calls_env ops rnd ctx user pass w as)"
  "te_Dial (calls_env ops rnd ctx user pass w as) = None" "te_rand (calls_env ops rnd ctx user pass w as) = rnd"
  "te_sched (calls_env ops rnd ctx user pass w as) = as"
  by (auto simp: calls_env_def split: sum.splits prod.splits)

lemma token_over_body:
  assumes "token_over ops rnd ctx user pass w = Some (sub, res, ctxEnd, w1)"
  shows "\<exists>l. token_body (calls_env ops rnd ctx user pass w as) ctx user pass = Some (sub \<noteq> None, res, ctxEnd, l)"
  using assms
  by (auto simp: token_over_def token_body_def calls_env_def Let_def split: sum.splits prod.splits option.splits)

lemma cred_leg_fetch:
  assumes "cred_leg ops env closeRwc rnd sched ctx user pass w = Some (res, ctxErr, l4, w')"
  shows "\<exists>as l. fetchToken (calls_env ops rnd ctx user pass w as) ctx user pass hb hbs = Some (res, l)"
proof -
  from assms obtain sub res0 ctxEnd w1 t w2 stepErr where
    b: "token_over ops rnd ctx user pass w = Some (sub, res0, ctxEnd, w1)"
    and run: "run_actions (cred_step ops env closeRwc sub) sched (ecc_start (sub \<noteq> None) ctxEnd, w1) = Some (t, w2)"
    and m: "ec_main t = MRet stepErr ctxErr" and d: "token_deferred stepErr ctxErr res0 = (res, l4)"
    by (auto simp: cred_leg_def split: option.splits prod.splits mpc.splits)
  from cred_run_ecc [OF run] obtain as where as: "run_actions ecc_step as (ecc_start (sub \<noteq> None) ctxEnd) = Some t" ..
  from token_over_body [OF b, of as] obtain l where
    "token_body (calls_env ops rnd ctx user pass w as) ctx user pass = Some (sub \<noteq> None, res0, ctxEnd, l)" ..
  with as m d show ?thesis
    by (intro exI [of _ as]) (simp add: fetchToken_def endCredentialConn_def)
qed

section \<open>What the exchange needs of a connection\<close>

text \<open>
  Beyond \<open>transport_conn\<close>: what happens to a subscription in the background and the close of the
  transport leave frames and subscriptions alone and cancel at most that subscription, and a
  connection whose Disconnect returned is shut for good.
\<close>

locale credential_conn = transport_conn ops sent subscribed cancelled invar
  for ops :: "('w, 's) Conn" and sent :: "'w \<Rightarrow> send_frame list" and subscribed :: "'w \<Rightarrow> ('s \<times> string) list"
    and cancelled :: "'w \<Rightarrow> 's set" and invar :: "'w \<Rightarrow> bool" +
  fixes env :: "'s \<Rightarrow> 'e \<Rightarrow> 'w \<Rightarrow> 'w"
    and closeRwc :: "'w \<Rightarrow> 'w"
    and shut :: "'w \<Rightarrow> bool"
  assumes env_frame:
      "invar w \<Longrightarrow> s \<in> fst ` set (subscribed w) \<Longrightarrow>
         invar (env s e w) \<and> sent (env s e w) = sent w \<and> subscribed (env s e w) = subscribed w
         \<and> cancelled w \<subseteq> cancelled (env s e w) \<and> cancelled (env s e w) \<subseteq> insert s (cancelled w)
         \<and> (shut w \<longrightarrow> shut (env s e w))"
    and close_frame:
      "invar w \<Longrightarrow> invar (closeRwc w) \<and> sent (closeRwc w) = sent w \<and> subscribed (closeRwc w) = subscribed w
         \<and> cancelled (closeRwc w) = cancelled w \<and> (shut w \<longrightarrow> shut (closeRwc w))"
    and disconnect_shut: "invar w \<Longrightarrow> conn_Disconnect ops w = Some (err, w') \<Longrightarrow> shut w'"
begin

text \<open>
  The state of a teardown that started in \<open>w0\<close>: frames and subscriptions as they were, the subscription
  cancelled once its Unsubscribe returned, the connection shut once its Disconnect returned.
\<close>

definition cred_ok :: "'s option \<Rightarrow> 'w \<Rightarrow> ecc \<times> 'w \<Rightarrow> bool" where
  "cred_ok sub w0 p \<longleftrightarrow>
     (case p of (t, w) \<Rightarrow>
        invar w \<and> sent w = sent w0 \<and> subscribed w = subscribed w0
        \<and> cancelled w0 \<subseteq> cancelled w \<and> cancelled w \<subseteq> set_option sub \<union> cancelled w0
        \<and> (TCallUnsubscribe \<in> set (ec_calls t) \<and> ec_pc t \<noteq> TUnsub \<longrightarrow> set_option sub \<subseteq> cancelled w)
        \<and> ((\<exists>d. TCallDisconnect d \<in> set (ec_calls t)) \<longrightarrow> shut w))"

lemma cred_ok_teardown:
  assumes "cred_ok sub w0 (t, w)" "calls_ok t" "\<And>s. sub = Some s \<Longrightarrow> s \<in> fst ` set (subscribed w0)"
    "cred_teardown ops sub (t, w) = Some (t', w')"
  shows "cred_ok sub w0 (t', w')"
proof (cases "ec_pc t")
  case TUnsub
  with assms(4) obtain s r where s: "sub = Some s" and u: "sub_Unsubscribe ops s w = (r, w')"
    and t': "teardown_step r None t = Some t'"
    by (auto simp: cred_teardown_def split: option.splits prod.splits)
  have "s \<in> fst ` set (subscribed w)" using assms(1,3) s by (simp add: cred_ok_def)
  with unsubscribe_any [OF _ this u] assms(1) have
    w': "invar w'" "sent w' = sent w0" "subscribed w' = subscribed w0" "cancelled w' = insert s (cancelled w)"
    by (simp_all add: cred_ok_def)
  have "ec_calls t' = ec_calls t" using t' TUnsub by (auto simp: teardown_step_def split: outcome.splits)
  moreover have "TCallDisconnect d \<notin> set (ec_calls t)" for d
    using assms(2) TUnsub by (simp add: calls_ok_def step_calls_def)
  ultimately show ?thesis using w' assms(1) s by (auto simp: cred_ok_def)
next
  case (TDisc u)
  with assms(4) obtain e where d: "conn_Disconnect ops w = Some (e, w')" and t': "teardown_step (Ret None) e t = Some t'"
    by (auto simp: cred_teardown_def split: option.splits)
  have "ec_calls t' = ec_calls t @ [TCallDisconnect e]" "ec_pc t' \<noteq> TUnsub" using t' TDisc by (auto simp: teardown_step_def)
  with assms(1) TDisc disconnect_frame [OF _ d] disconnect_shut [OF _ d] show ?thesis by (auto simp: cred_ok_def)
qed (use assms(1,4) in \<open>auto simp: cred_ok_def cred_teardown_def teardown_step_def split: if_splits\<close>)

lemma cred_ok_step:
  assumes "cred_ok sub w0 (t, w)" "ecc_inv t" "\<And>s. sub = Some s \<Longrightarrow> s \<in> fst ` set (subscribed w0)"
    "cred_step ops env closeRwc sub act (t, w) = Some (t', w')"
  shows "cred_ok sub w0 (t', w')"
proof (cases act)
  case CrTeardown
  with cred_ok_teardown [OF assms(1) _ assms(3)] assms(2,4) show ?thesis by (simp add: ecc_inv_def)
next
  case (CrEnv e)
  with assms(4) obtain s where s: "sub = Some s" "t' = t" "w' = env s e w" by (auto split: option.splits)
  with assms(1,3) env_frame [of w s e] show ?thesis by (auto simp: cred_ok_def)
next
  case CrCallback
  with assms(1,4) close_frame [of w] show ?thesis by (auto simp: cred_ok_def split: if_splits)
next
  case (CrCaller pick)
  with assms(1,4) have "w' = w" "ec_calls t' = ec_calls t" "ec_pc t' = ec_pc t"
    by (auto simp: caller_step_def Let_def split: mpc.splits if_splits)
  with assms(1) show ?thesis by (simp add: cred_ok_def)
qed (use assms in \<open>auto simp: cred_ok_def split: if_splits\<close>)

lemma cred_ok_run:
  assumes "\<And>s. sub = Some s \<Longrightarrow> s \<in> fst ` set (subscribed w0)"
  shows "cred_ok sub w0 (t, w) \<Longrightarrow> ecc_inv t \<Longrightarrow>
    run_actions (cred_step ops env closeRwc sub) sched (t, w) = Some (t', w') \<Longrightarrow> cred_ok sub w0 (t', w')"
proof (induction sched arbitrary: t w)
  case (Cons act sched)
  from Cons.prems(3) obtain t1 w1 where st: "cred_step ops env closeRwc sub act (t, w) = Some (t1, w1)"
    "run_actions (cred_step ops env closeRwc sub) sched (t1, w1) = Some (t', w')" by (auto split: Option.bind_splits)
  have "ecc_inv t1" using cred_step_ecc [OF st(1)] Cons.prems(2) td.inv_step by blast
  from Cons.IH [OF cred_ok_step [OF Cons.prems(1,2) assms st(1)] this st(2)] show ?case .
qed simp

text \<open>The body: no subscription and no frame, or one subscription and at most the one request.\<close>

lemma token_over_effect:
  assumes "invar w" "token_over ops rnd ctx user pass w = Some (sub, res, ctxEnd, w1)"
  shows "invar w1 \<and>
    (case sub of
       None \<Rightarrow> (\<exists>e. res = Inl e) \<and> sent w1 = sent w \<and> subscribed w1 = subscribed w \<and> cancelled w1 = cancelled w
     | Some s \<Rightarrow> \<exists>nonce fs. rnd = Inr nonce \<and> s \<notin> fst ` set (subscribed w)
         \<and> subscribed w1 = subscribed w @ [(s, ''/queue/'' @ replyDest user nonce)]
         \<and> cancelled w \<subseteq> cancelled w1 \<and> cancelled w1 \<subseteq> insert s (cancelled w)
         \<and> sent w1 = sent w @ fs \<and> (fs = [] \<and> (\<exists>e. res = Inl e) \<or> fs = [token_frame user pass nonce]))"
proof (cases rnd)
  case (Inl e)
  with assms show ?thesis by (auto simp: token_over_def)
next
  case rnd: (Inr nonce)
  let ?q = "''/queue/'' @ replyDest user nonce"
  let ?hs = "[HeaderReplyTo \<mapsto> replyDest user nonce]"
  obtain r wa where sb: "conn_Subscribe ops (WithoutCancel ctx) ?q w = (r, wa)" by fastforce
  show ?thesis
  proof (cases r)
    case (Inl e)
    with subscribe_err [OF assms(1)] sb rnd assms(2) show ?thesis by (auto simp: token_over_def Let_def)
  next
    case (Inr s)
    note S = subscribe_ok [OF assms(1) sb [unfolded Inr]]
    obtain e wb where sd: "conn_Send ops ctx TokenTopic ''text/plain'' (token_payload user pass) ?hs wa = (e, wb)" by fastforce
    show ?thesis
    proof (cases e)
      case (Some err)
      note E = send_err [OF _ sd [unfolded Some]]
      with S sb Inr sd Some rnd assms(2) show ?thesis by (auto simp: token_over_def Let_def)
    next
      case None
      note E = send_ok [OF _ sd [unfolded None]]
      from rnd sb Inr sd None assms(2) obtain rr where
        wt: "wait_reply ops ctx s wb = Some (rr, w1)" and sub: "sub = Some s"
        by (auto simp: token_over_def Let_def split: option.splits)
      have "s \<in> fst ` set (subscribed wb)" using S E by (auto simp: image_iff)
      from wait_frame [OF _ this wt] S E rnd sub show ?thesis by (auto simp: token_frame_def)
    qed
  qed
qed

text \<open>What a leg leaves on its connection, whatever it returns.\<close>

lemma cred_leg_effect:
  assumes "invar w" "cred_leg ops env closeRwc rnd sched ctx user pass w = Some (res, ctxErr, l, w')"
  shows "invar w' \<and> (\<exists>sub fs. sent w' = sent w @ fs \<and> cancelled w \<subseteq> cancelled w' \<and> cancelled w' \<subseteq> set_option sub \<union> cancelled w
    \<and> (case sub of
         None \<Rightarrow> subscribed w' = subscribed w \<and> fs = [] \<and> (\<exists>e. res = Inl e)
       | Some s \<Rightarrow> \<exists>nonce. rnd = Inr nonce \<and> s \<notin> fst ` set (subscribed w)
           \<and> subscribed w' = subscribed w @ [(s, ''/queue/'' @ replyDest user nonce)]
           \<and> (fs = [] \<and> (\<exists>e. res = Inl e) \<or> fs = [token_frame user pass nonce]))
    \<and> (ctxErr = None \<longrightarrow> set_option sub \<subseteq> cancelled w' \<and> shut w') \<and> (ctxErr \<noteq> None \<longrightarrow> (\<exists>e. res = Inl e)))"
proof -
  from assms(2) obtain sub res0 ctxEnd w1 t w2 stepErr where
    b: "token_over ops rnd ctx user pass w = Some (sub, res0, ctxEnd, w1)"
    and run: "run_actions (cred_step ops env closeRwc sub) sched (ecc_start (sub \<noteq> None) ctxEnd, w1) = Some (t, w2)"
    and m: "ec_main t = MRet stepErr ctxErr" and d: "token_deferred stepErr ctxErr res0 = (res, l)"
    and w': "w' = (if ACloseRwc 1 \<in> set l then closeRwc w2 else w2)"
    by (auto simp: cred_leg_def split: option.splits prod.splits mpc.splits)
  note B = token_over_effect [OF assms(1) b]
  have sub: "s \<in> fst ` set (subscribed w1)" if "sub = Some s" for s using B that by auto
  have "cred_ok sub w1 (ecc_start (sub \<noteq> None) ctxEnd, w1)" using B by (simp add: cred_ok_def ecc_start_def)
  from cred_ok_run [OF sub this td.inv_start run] have K: "cred_ok sub w1 (t, w2)" by simp
  have full: "set_option sub \<subseteq> cancelled w2 \<and> shut w2" if "ctxErr = None"
  proof -
    from cred_run_ecc [OF run] obtain as where "run_actions ecc_step as (ecc_start (sub \<noteq> None) ctxEnd) = Some t" ..
    note R = run_reach [OF this]
    from teardown_full [OF R] td.inv_reach [OF R] m that obtain d where
      "ec_calls t = (if sub \<noteq> None then [TCallUnsubscribe] else []) @ [TCallDisconnect d]" "ec_pc t = TDone"
      by (auto simp: ecc_inv_def caller_ok_def)
    with K show ?thesis by (auto simp: cred_ok_def split: if_splits)
  qed
  have w2: "invar w2" "sent w' = sent w1" "subscribed w' = subscribed w1" "cancelled w' = cancelled w2"
    "invar w'" "shut w2 \<longrightarrow> shut w'"
    using K close_frame [of w2] w' by (auto simp: cred_ok_def)
  have res: "(\<exists>e. res0 = Inl e) \<longrightarrow> (\<exists>e. res = Inl e)" "ctxErr \<noteq> None \<longrightarrow> (\<exists>e. res = Inl e)"
    using d by (auto simp: token_deferred_def Let_def split: option.splits sum.splits)
  show ?thesis
  proof (cases sub)
    case None
    with B K w2 full res show ?thesis by (intro conjI exI [of _ None] exI [of _ "[]"]) (auto simp: cred_ok_def)
  next
    case (Some s)
    with B obtain nonce fs where N: "rnd = Inr nonce" "s \<notin> fst ` set (subscribed w)"
      "subscribed w1 = subscribed w @ [(s, ''/queue/'' @ replyDest user nonce)]" "cancelled w \<subseteq> cancelled w1"
      "cancelled w1 \<subseteq> insert s (cancelled w)" "sent w1 = sent w @ fs"
      "fs = [] \<and> (\<exists>e. res0 = Inl e) \<or> fs = [token_frame user pass nonce]" by auto
    have c: "cancelled w \<subseteq> cancelled w'" "cancelled w' \<subseteq> set_option (Some s) \<union> cancelled w"
      using N(4,5) K w2(4) Some by (auto simp: cred_ok_def)
    have f: "fs = [] \<and> (\<exists>e. res = Inl e) \<or> fs = [token_frame user pass nonce]" using N(7) res(1) by blast
    show ?thesis
      by (intro conjI exI [of _ "Some s"] exI [of _ fs])
        (use N(1-3,6) w2(2-6) c f full res(2) Some in simp_all)
  qed
qed

end

section \<open>The exchange over STOMP\<close>

text \<open>The drain goroutine reads the channel of the subscription; the rest is what \<open>stomp_event\<close> lists.\<close>

datatype cred_event = CeConn stomp_event | CeDrain

fun stomp_env :: "'g gostomp \<Rightarrow> nat \<Rightarrow> cred_event \<Rightarrow> 'g sconn \<Rightarrow> 'g sconn" where
  "stomp_env gs i (CeConn ev) c = fst (stomp_event_step gs i ev (c, None))"
| "stomp_env gs i CeDrain c = sub_event_step i Take c"

definition stomp_closeRwc :: "'g sconn \<Rightarrow> 'g sconn" where
  "stomp_closeRwc c = c\<lparr>sc_rwc := (sc_rwc c)\<lparr>rw_closed := True\<rparr>\<rparr>"

lemma stomp_env_frame: "i < length (sc_subs c) \<Longrightarrow> sub_frame i c (stomp_env gs i ev c)"
  by (cases ev) (simp_all add: stomp_event_frame sub_event_frame)

interpretation cred: credential_conn "stomp_ops gs evs pick" sc_sent stomp_subscribed stomp_cancelled stomp_inv
  "stomp_env gs" stomp_closeRwc sc_closing for gs evs pick
proof (unfold_locales, goal_cases)
  case (1 w s e)
  then have s: "s < length (sc_subs w)" by simp
  note F = stomp_env_frame [OF s, of gs e]
  from sub_frame_cancelled [OF F s] sub_frame_dests [OF F] 1(1) F show ?case by (simp add: sub_frame_def)
next
  case (2 w)
  then show ?case
    by (simp add: stomp_closeRwc_def stomp_inv_def stomp_subscribed_def stomp_cancelled_def)
next
  case (3 w err w')
  then show ?case
    by (auto simp: stomp_ops_def stomp_Disconnect_def disconnect_go_def Let_def split: if_splits prod.splits option.splits)
qed

text \<open>
  The inputs of the credential leg: what \<open>netDial\<close> returns, the time, go-stomp's state for the new
  connection, the nonce, what happens while the token is awaited, and the schedule of the teardown.
\<close>

record 'g leg_env =
  le_netDial :: "goerr + rwc"
  le_now :: int
  le_g :: 'g
  le_rand :: "goerr + bytes"
  le_evs :: "stomp_event list"
  le_pick :: bool
  le_sched :: "cred_event cred_action list"

text \<open>What became of a leg: never opened, opened but not connected over STOMP, connected.\<close>

datatype 'g leg = NoLeg | Undialed rwc | Dialed "'g sconn"

text \<open>The dialer is a \<open>disconnectBounder\<close>, so the credential leg gets the bound of one second.\<close>

definition fetchToken_stomp ::
  "'g gostomp \<Rightarrow> Dialer \<Rightarrow> 'g leg_env \<Rightarrow> gocontext \<Rightarrow> string \<Rightarrow> string \<Rightarrow> duration \<Rightarrow> HeartBeatIntervals option \<Rightarrow>
     ((goerr + string) \<times> goerr option \<times> 'g leg) option" where
  "fetchToken_stomp gs d E ctx user pass hb hbs =
     (case le_netDial E of
        Inl e \<Rightarrow> Some (Inl (Errorf ''credential dial: %w'' [] [e]), None, NoLeg)
      | Inr rwc1 \<Rightarrow>
          (case Dial gs (WithDisconnectBound credentialDisconnectBound d) (le_now E) ctx (dial_cfg user pass hb hbs) (le_g E) rwc1 of
             (Inl e, rw) \<Rightarrow> Some (Inl (Errorf ''credential connect: %w'' [] [e]), None, Undialed (rw\<lparr>rw_closed := True\<rparr>))
           | (Inr credConn, rw) \<Rightarrow>
               (case cred_leg (stomp_ops gs (le_evs E) (le_pick E)) (stomp_env gs) stomp_closeRwc (le_rand E) (le_sched E)
                       ctx user pass credConn of
                  None \<Rightarrow> None
                | Some (res, ctxErr, l, c) \<Rightarrow> Some (res, ctxErr, Dialed c))))"

definition Exchange_stomp ::
  "'g gostomp \<Rightarrow> Dialer \<Rightarrow> 'g leg_env \<Rightarrow> (goerr + rwc) \<Rightarrow> int \<Rightarrow> 'g \<Rightarrow> gocontext \<Rightarrow> string \<Rightarrow> string \<Rightarrow> duration \<Rightarrow>
     HeartBeatIntervals option \<Rightarrow> ((goerr + 'g sconn) \<times> 'g leg \<times> 'g leg) option" where
  "Exchange_stomp gs d E nd2 now2 g2 ctx user pass hb hbs =
     (case fetchToken_stomp gs d E ctx user pass hb hbs of
        None \<Rightarrow> None
      | Some (Inl e, _, leg1) \<Rightarrow> Some (Inl (Errorf ''auth exchange: %w'' [] [e]), leg1, NoLeg)
      | Some (Inr token, _, leg1) \<Rightarrow>
          (case nd2 of
             Inl e \<Rightarrow> Some (Inl (Errorf ''auth exchange second dial: %w'' [] [e]), leg1, NoLeg)
           | Inr rwc2 \<Rightarrow>
               (case Dial gs d now2 ctx (dial_cfg token [] hb hbs) g2 rwc2 of
                  (Inl e, rw) \<Rightarrow>
                    Some (Inl (Errorf ''auth exchange second connect: %w'' [] [e]), leg1, Undialed (rw\<lparr>rw_closed := True\<rparr>))
                | (Inr conn2, rw) \<Rightarrow> Some (Inr conn2, leg1, Dialed conn2))))"

text \<open>The inputs of the exchange of theory Auth that go with such a run.\<close>

definition left_of :: "'a + 'b \<Rightarrow> 'a option" where
  "left_of x = (case x of Inl a \<Rightarrow> Some a | Inr b \<Rightarrow> None)"

lemma fetchToken_stomp_refines:
  assumes "fetchToken_stomp gs d E ctx user pass hb hbs = Some (res, ctxErr, leg1)"
  shows "\<exists>env l. fetchToken env ctx user pass hb hbs = Some (res, l) \<and> te_bounder env
    \<and> te_netDial env = left_of (le_netDial E) \<and> (te_netDial env = None \<and> te_Dial env = None \<longrightarrow> te_rand env = le_rand E)"
proof -
  let ?failed = "\<lambda>nd di. \<lparr>te_netDial = nd, te_bounder = True, te_Dial = di, te_rand = le_rand E, te_Subscribe = None,
     te_Send = None, te_wait = None, te_sched = []\<rparr>"
  show ?thesis
  proof (cases "le_netDial E")
    case (Inl e)
    with assms show ?thesis
      by (intro exI [of _ "?failed (Some e) None"]) (simp add: fetchToken_stomp_def fetchToken_def left_of_def)
  next
    case (Inr rw1)
    obtain r rw where D: "Dial gs (WithDisconnectBound credentialDisconnectBound d) (le_now E) ctx (dial_cfg user pass hb hbs)
      (le_g E) rw1 = (r, rw)" by fastforce
    show ?thesis
    proof (cases r)
      case (Inl e)
      with assms \<open>le_netDial E = Inr rw1\<close> D show ?thesis
        by (intro exI [of _ "?failed None (Some e)"]) (auto simp: fetchToken_stomp_def fetchToken_def left_of_def)
    next
      case c: (Inr c)
      with assms Inr D obtain l c' where
        "cred_leg (stomp_ops gs (le_evs E) (le_pick E)) (stomp_env gs) stomp_closeRwc (le_rand E) (le_sched E) ctx user pass c =
          Some (res, ctxErr, l, c')" by (auto simp: fetchToken_stomp_def split: option.splits)
      from cred_leg_fetch [OF this, of hb hbs] obtain as l' where
        "fetchToken (calls_env (stomp_ops gs (le_evs E) (le_pick E)) (le_rand E) ctx user pass c as) ctx user pass hb hbs =
          Some (res, l')" by blast
      with Inr show ?thesis by (intro exI conjI) (assumption, simp_all add: left_of_def)
    qed
  qed
qed

lemma dialed_obs [simp]:
  "sc_sent (dialed g rw b) = []" "stomp_subscribed (dialed g rw b) = []" "stomp_cancelled (dialed g rw b) = {}"
  "stomp_inv (dialed g rw b)"
  by (simp_all add: dialed_def stomp_subscribed_def stomp_cancelled_def stomp_inv_def)

lemma subscribed_one:
  "stomp_subscribed c = [(s, q)] \<Longrightarrow> s = 0 \<and> map ss_dest (sc_subs c) = [q]"
proof -
  assume a: "stomp_subscribed c = [(s, q)]"
  then have "map snd (stomp_subscribed c) = [q]" "map fst (stomp_subscribed c) = [s]" by simp_all
  then have q: "map ss_dest (sc_subs c) = [q]" and "[0..<length [q]] = [s]"
    unfolding stomp_subscribed_def map_snd_enumerate map_fst_enumerate by simp_all
  then show ?thesis by simp
qed

text \<open>What the credential leg leaves on its connection.\<close>

definition leg_clean :: "string \<Rightarrow> string \<Rightarrow> goerr + bytes \<Rightarrow> bool \<Rightarrow> 'g leg \<Rightarrow> bool" where
  "leg_clean user pass rnd ok L \<longleftrightarrow>
     (case L of
        NoLeg \<Rightarrow> \<not> ok
      | Undialed rw \<Rightarrow> \<not> ok \<and> rw_closed rw
      | Dialed c \<Rightarrow>
          (\<exists>nonce. rnd = Inr nonce \<and> map ss_dest (sc_subs c) = [''/queue/'' @ replyDest user nonce]
             \<and> (sc_sent c = [token_frame user pass nonce] \<or> \<not> ok \<and> sc_sent c = [])
             \<and> (ok \<longrightarrow> ss_stop (sc_subs c ! 0) \<and> sc_closing c))
          \<or> \<not> ok \<and> sc_subs c = [] \<and> sc_sent c = [])"

lemma fetchToken_stomp_clean:
  assumes "fetchToken_stomp gs d E ctx user pass hb hbs = Some (res, ctxErr, L)"
  shows "leg_clean user pass (le_rand E) (\<exists>tok. res = Inr tok) L
    \<and> (\<forall>c. L = Dialed c \<and> ctxErr = None \<longrightarrow> sc_closing c \<and> (\<forall>s \<in> set (sc_subs c). ss_stop s))"
proof (cases "\<exists>c. L = Dialed c")
  case False
  with assms show ?thesis
    by (auto simp: fetchToken_stomp_def leg_clean_def split: sum.splits prod.splits option.splits)
next
  case True
  then obtain c where L: "L = Dialed c" ..
  with assms obtain rw1 c0 rw l where
    "Dial gs (WithDisconnectBound credentialDisconnectBound d) (le_now E) ctx (dial_cfg user pass hb hbs) (le_g E) rw1 = (Inr c0, rw)"
    and leg: "cred_leg (stomp_ops gs (le_evs E) (le_pick E)) (stomp_env gs) stomp_closeRwc (le_rand E) (le_sched E)
      ctx user pass c0 = Some (res, ctxErr, l, c)"
    by (auto simp: fetchToken_stomp_def split: sum.splits prod.splits option.splits)
  from Dial_dialed [OF this(1)] obtain g' rw' where c0: "c0 = dialed g' rw' (disconnectBound (WithDisconnectBound credentialDisconnectBound d))"
    by blast
  have "stomp_inv c0" by (simp add: c0)
  from cred.cred_leg_effect [OF this leg, unfolded c0 dialed_obs append_Nil] obtain sub fs where
    F: "sc_sent c = fs"
    and S: "case sub of
         None \<Rightarrow> stomp_subscribed c = [] \<and> fs = [] \<and> (\<exists>e. res = Inl e)
       | Some s \<Rightarrow> \<exists>nonce. le_rand E = Inr nonce \<and> s \<notin> fst ` set ([] :: (nat \<times> string) list)
           \<and> stomp_subscribed c = [(s, ''/queue/'' @ replyDest user nonce)]
           \<and> (fs = [] \<and> (\<exists>e. res = Inl e) \<or> fs = [token_frame user pass nonce])"
    and X: "ctxErr = None \<longrightarrow> set_option sub \<subseteq> stomp_cancelled c \<and> sc_closing c" "ctxErr \<noteq> None \<longrightarrow> (\<exists>e. res = Inl e)"
    by (elim conjE exE) (rule that; assumption)
  show ?thesis
  proof (cases sub)
    case None
    with S F X L show ?thesis by (auto simp: leg_clean_def stomp_subscribed_def enumerate_eq_zip)
  next
    case (Some s)
    with S obtain nonce where N: "le_rand E = Inr nonce" "stomp_subscribed c = [(s, ''/queue/'' @ replyDest user nonce)]"
      "fs = [] \<and> (\<exists>e. res = Inl e) \<or> fs = [token_frame user pass nonce]" by auto
    from subscribed_one [OF N(2)] obtain sb where sb: "sc_subs c = [sb]" "s = 0"
      "ss_dest sb = ''/queue/'' @ replyDest user nonce" by auto
    have "ctxErr = None \<longrightarrow> ss_stop sb" using X(1) Some sb by (auto simp: stomp_cancelled_def)
    with N F X L sb show ?thesis by (auto simp: leg_clean_def)
  qed
qed

text \<open>A run over a go-stomp on which every call succeeds.\<close>

definition calm_leg :: "nat leg_env" where
  "calm_leg = \<lparr>le_netDial = Inr plain_rwc, le_now = 0, le_g = 0, le_rand = Inr nonce1,
     le_evs = [EvSrcPush gmsg1, EvBridge OnSrc, EvBridge OnOut], le_pick = True,
     le_sched = replicate 7 CrTeardown @ [CrCaller True]\<rparr>"

lemmas cred_eval =
  cred_leg_def token_over_def cred_teardown_def fetchToken_stomp_def Exchange_stomp_def Dial_def
  calm_leg_def token_result_def token_deferred_def stomp_Disconnect_def disconnect_go_def disconnect_error_def
  WithDisconnectBound_def plain_rwc_def

lemma TrimSpace_x: "TrimSpace ''x'' = ''x''"
  by (simp add: TrimSpace_def trim_left.simps trim_right.simps DecodeRune_ascii DecodeLastRune_def IsSpace_def)

abbreviation calm_exchange :: "((goerr + nat sconn) \<times> nat leg \<times> nat leg) option" where
  "calm_exchange \<equiv> Exchange_stomp calm_gostomp \<lparr>disconnectBound = 0\<rparr> calm_leg (Inr plain_rwc) 0 0 (CallerCtx None) ''u'' ''p'' 0 None"

lemma calm_exchange_run: "\<exists>c2 c1. calm_exchange = Some (Inr c2, Dialed c1, Dialed c2) \<and> sc_bound c1 = second \<and> sc_bound c2 = 0"
  by (simp add: cred_eval stomp_eval bridge_eval select_reply_def try_recv_def ecc_eval TrimSpace_x
    credentialDisconnectBound_def)

section \<open>Properties\<close>

text \<open>
  The exchange over STOMP connections implements the exchange: whatever go-stomp, the bridge, the
  drain goroutine, the context and its callback do, and however they interleave with the teardown, a
  run that returns is a run of \<open>Exchange\<close> with the same inputs that fetches the same token or error and
  returns the same error or success, so the order of calls, the end of the credential leg and the second login shown of it hold for the
  composed program.
\<close>

lemma exchange_refines:
  assumes "Exchange_stomp gs d E nd2 now2 g2 ctx user pass hb hbs = Some (res, leg1, leg2)"
  shows "\<exists>env dial2 l r ce l1. Exchange env (left_of nd2) dial2 ctx user pass hb hbs = Some (left_of res, l)
    \<and> fetchToken_stomp gs d E ctx user pass hb hbs = Some (r, ce, leg1) \<and> fetchToken env ctx user pass hb hbs = Some (r, l1)
    \<and> te_bounder env \<and> te_netDial env = left_of (le_netDial E)
    \<and> (te_netDial env = None \<and> te_Dial env = None \<longrightarrow> te_rand env = le_rand E)"
proof -
  from assms obtain r ce leg where f: "fetchToken_stomp gs d E ctx user pass hb hbs = Some (r, ce, leg)"
    by (auto simp: Exchange_stomp_def split: option.splits)
  from fetchToken_stomp_refines [OF f] obtain env l where
    env: "fetchToken env ctx user pass hb hbs = Some (r, l)" "te_bounder env" "te_netDial env = left_of (le_netDial E)"
      "te_netDial env = None \<and> te_Dial env = None \<longrightarrow> te_rand env = le_rand E" by blast
  let ?d2 = "case (r, nd2) of (Inr tok, Inr rw2) \<Rightarrow> left_of (fst (Dial gs d now2 ctx (dial_cfg tok [] hb hbs) g2 rw2)) | _ \<Rightarrow> None"
  have "leg = leg1" using assms f by (auto simp: Exchange_stomp_def split: sum.splits prod.splits)
  moreover have "\<exists>l'. Exchange env (left_of nd2) ?d2 ctx user pass hb hbs = Some (left_of res, l')"
    using assms f env(1) by (auto simp: Exchange_stomp_def Exchange_def left_of_def Let_def split: sum.splits prod.splits)
  ultimately show ?thesis using f env by blast
qed

text \<open>What both legs leave behind.\<close>

lemma Exchange_stomp_clean:
  assumes "Exchange_stomp gs d E nd2 now2 g2 ctx user pass hb hbs = Some (res, leg1, leg2)"
  shows "leg_clean user pass (le_rand E) (\<exists>c2. res = Inr c2) leg1
    \<and> (case res of
         Inl e \<Rightarrow> leg2 = NoLeg \<or> (\<exists>rw. leg2 = Undialed rw \<and> rw_closed rw)
       | Inr c2 \<Rightarrow> leg2 = Dialed c2 \<and> (\<exists>tok rw2 g' rw'. tok \<noteq> [] \<and> nd2 = Inr rw2
           \<and> fst (Dial gs d now2 ctx \<lparr>Login = tok, Passcode = [], HeartBeat = hb, HeartBeats = hbs\<rparr> g2 rw2) = Inr c2
           \<and> c2 = dialed g' rw' (disconnectBound d)))"
proof -
  from assms obtain r ce leg where f: "fetchToken_stomp gs d E ctx user pass hb hbs = Some (r, ce, leg)"
    by (auto simp: Exchange_stomp_def split: option.splits)
  note C = conjunct1 [OF fetchToken_stomp_clean [OF f]]
  have weaken: "leg_clean user pass (le_rand E) ok L \<Longrightarrow> leg_clean user pass (le_rand E) False L" for ok and L :: "'a leg"
    by (auto simp: leg_clean_def split: leg.splits)
  show ?thesis
  proof (cases r)
    case (Inl e)
    with assms f weaken [OF C] show ?thesis by (auto simp: Exchange_stomp_def)
  next
    case (Inr tok)
    have ok: "leg_clean user pass (le_rand E) True leg" using C Inr by simp
    obtain env l where "fetchToken env ctx user pass hb hbs = Some (Inr tok, l)"
      using fetchToken_stomp_refines [OF f] Inr by blast
    from fetchToken_ok [OF this] have tok: "tok \<noteq> []" by blast
    show ?thesis
    proof (cases nd2)
      case (Inl e)
      with assms f Inr weaken [OF ok] show ?thesis by (auto simp: Exchange_stomp_def)
    next
      case rw2: (Inr rw2)
      obtain dr rw where D: "Dial gs d now2 ctx (dial_cfg tok [] hb hbs) g2 rw2 = (dr, rw)" by fastforce
      show ?thesis
      proof (cases dr)
        case (Inl e)
        with assms f Inr rw2 D weaken [OF ok] show ?thesis by (auto simp: Exchange_stomp_def)
      next
        case c2: (Inr c2)
        with assms f Inr rw2 D have "res = Inr c2" "leg2 = Dialed c2" "leg1 = leg" by (auto simp: Exchange_stomp_def)
        moreover have "fst (Dial gs d now2 ctx \<lparr>Login = tok, Passcode = [], HeartBeat = hb, HeartBeats = hbs\<rparr> g2 rw2) = Inr c2"
          using D c2 by (simp add: dial_cfg_def)
        ultimately show ?thesis using Dial_dialed [OF D [unfolded c2]] ok tok rw2 by auto
      qed
    qed
  qed
qed



end
