(* ===== verification/Client.thy ===== *)
theory Client
  imports Auth Stomp
begin

text \<open>
  The package gridappsd: choosing and opening the transport, plain TCP or TLS, and \<open>Connect\<close>, which
  hands it to the token exchange over the STOMP dialer. The network itself, a TCP dial and a TLS
  handshake, answers as a function of what it is given.
\<close>

section \<open>Addresses\<close>

text \<open>The position of the last colon, and of the first occurrence of a character.\<close>

fun index_of :: "char \<Rightarrow> string \<Rightarrow> nat option" where
  "index_of c [] = None"
| "index_of c (x # xs) = (if x = c then Some 0 else map_option Suc (index_of c xs))"

definition last_index_of :: "char \<Rightarrow> string \<Rightarrow> nat option" where
  "last_index_of c s = map_option (\<lambda>i. length s - 1 - i) (index_of c (rev s))"

text \<open>\<open>net.SplitHostPort\<close>, with the reason of the address error.\<close>

definition SplitHostPort :: "string \<Rightarrow> goerr + string \<times> string" where
  "SplitHostPort hostport =
     (case last_index_of (CHR '':'') hostport of
        None \<Rightarrow> Inl (Foreign ''missing port in address'')
      | Some i \<Rightarrow>
          (let tail = (\<lambda>host j k.
                 if CHR ''['' \<in> set (drop j hostport) then Inl (Foreign (''unexpected '' @ [CHR 0x27, CHR ''['', CHR 0x27] @ '' in address''))
                 else if CHR '']'' \<in> set (drop k hostport) then Inl (Foreign (''unexpected '' @ [CHR 0x27, CHR '']'', CHR 0x27] @ '' in address''))
                 else Inr (host, drop (i + 1) hostport)) in
           if hostport ! 0 = CHR ''['' then
             (case index_of (CHR '']'') hostport of
                None \<Rightarrow> Inl (Foreign (''missing '' @ [CHR 0x27, CHR '']'', CHR 0x27] @ '' in address''))
              | Some e \<Rightarrow>
                  if e + 1 = length hostport then Inl (Foreign ''missing port in address'')
                  else if e + 1 = i then tail (take (e - 1) (drop 1 hostport)) 1 (e + 1)
                  else if hostport ! (e + 1) = CHR '':'' then Inl (Foreign ''too many colons in address'')
                  else Inl (Foreign ''missing port in address''))
           else
             (if CHR '':'' \<in> set (take i hostport) then Inl (Foreign ''too many colons in address'')
              else tail (take i hostport) 0 0)))"

section \<open>Configuration\<close>

definition DefaultAddress :: string where
  "DefaultAddress = ''localhost:61613''"

definition DefaultHandshakeTimeout :: duration where
  "DefaultHandshakeTimeout = 5 * second"

definition VersionTLS12 :: nat where
  "VersionTLS12 = 0x0303"

text \<open>A \<open>tls.Config\<close>, as far as the package reads or sets it.\<close>

record tls_config =
  ServerName :: string
  MinVersion :: nat
  InsecureSkipVerify :: bool

definition zero_tls :: tls_config where
  "zero_tls = \<lparr>ServerName = [], MinVersion = 0, InsecureSkipVerify = False\<rparr>"

record Config =
  cfg_Address :: string
  cfg_TLSConfig :: "tls_config option"
  cfg_AllowPlaintext :: bool
  cfg_User :: string
  cfg_Password :: string
  cfg_HeartBeat :: duration
  cfg_HeartBeats :: "HeartBeatIntervals option"

section \<open>Dialling\<close>

record net_env =
  ne_tcp :: "gocontext \<Rightarrow> string \<Rightarrow> goerr option"
  ne_handshake :: "gocontext \<Rightarrow> tls_config \<Rightarrow> goerr option"

datatype net_conn = PlainConn | TLSConn tls_config

datatype net_call = TcpDial gocontext string | TlsHandshake gocontext tls_config | CloseRaw

definition dialPlain :: "net_env \<Rightarrow> gocontext \<Rightarrow> string \<Rightarrow> (goerr + net_conn) \<times> net_call list" where
  "dialPlain net ctx addr =
     (case ne_tcp net ctx addr of
        Some e \<Rightarrow> (Inl (Errorf ''tcp dial %q: %w'' [StrArg addr] [e]), [TcpDial ctx addr])
      | None \<Rightarrow> (Inr PlainConn, [TcpDial ctx addr]))"

text \<open>The configuration in force: the caller's, or a clone with the missing fields filled in.\<close>

definition effective_tls :: "string \<Rightarrow> tls_config \<Rightarrow> tls_config" where
  "effective_tls host cfg =
     (if ServerName cfg = [] \<or> MinVersion cfg = 0 then
        (let clone = (if ServerName cfg = [] then cfg\<lparr>ServerName := host\<rparr> else cfg) in
         if MinVersion clone = 0 then clone\<lparr>MinVersion := VersionTLS12\<rparr> else clone)
      else cfg)"

definition handshake_ctx :: "gocontext \<Rightarrow> gocontext" where
  "handshake_ctx ctx =
     (case ctx_Deadline 0 ctx of None \<Rightarrow> WithTimeout ctx DefaultHandshakeTimeout | Some _ \<Rightarrow> ctx)"

definition dialTLS ::
  "net_env \<Rightarrow> gocontext \<Rightarrow> string \<Rightarrow> tls_config option \<Rightarrow> (goerr + net_conn) \<times> net_call list" where
  "dialTLS net ctx addr tlsCfg =
     (case tlsCfg of
        None \<Rightarrow> (Inl (Errorf ''tls dial %q: nil TLS config'' [StrArg addr] []), [])
      | Some tc \<Rightarrow>
          (case SplitHostPort addr of
             Inl e \<Rightarrow> (Inl (Errorf ''invalid address %q: %w'' [StrArg addr] [e]), [])
           | Inr (host, port) \<Rightarrow>
               (let cfg = effective_tls host tc;
                    l1 = [TcpDial ctx addr] in
                case ne_tcp net ctx addr of
                  Some e \<Rightarrow> (Inl (Errorf ''tls dial %q: tcp connect: %w'' [StrArg addr] [e]), l1)
                | None \<Rightarrow>
                    (let hsCtx = handshake_ctx ctx;
                         l2 = l1 @ [TlsHandshake hsCtx cfg] in
                     case ne_handshake net hsCtx cfg of
                       None \<Rightarrow> (Inr (TLSConn cfg), l2)
                     | Some e \<Rightarrow>
                         (if errors_Is e DeadlineExceeded
                          then (Inl (Errorf ''tls dial %q: %w: %w'' [StrArg addr] [ErrHandshakeTimeout, e]), l2 @ [CloseRaw])
                          else (Inl (Errorf ''tls dial %q: handshake: %w'' [StrArg addr] [e]), l2 @ [CloseRaw]))))))"

definition dial ::
  "net_env \<Rightarrow> gocontext \<Rightarrow> string \<Rightarrow> tls_config option \<Rightarrow> bool \<Rightarrow> (goerr + net_conn) \<times> net_call list" where
  "dial net ctx addr tlsCfg allowPlaintext =
     (case tlsCfg of
        None \<Rightarrow>
          if allowPlaintext then dialPlain net ctx addr else dialTLS net ctx addr (Some zero_tls)
      | Some tc \<Rightarrow> dialTLS net ctx addr (Some tc))"

section \<open>Connect\<close>

definition cfg_addr :: "Config \<Rightarrow> string" where
  "cfg_addr cfg = (if cfg_Address cfg = [] then DefaultAddress else cfg_Address cfg)"

definition netDial :: "net_env \<Rightarrow> gocontext \<Rightarrow> Config \<Rightarrow> (goerr + net_conn) \<times> net_call list" where
  "netDial net ctx cfg = dial net ctx (cfg_addr cfg) (cfg_TLSConfig cfg) (cfg_AllowPlaintext cfg)"

definition dial_err :: "(goerr + net_conn) \<times> net_call list \<Rightarrow> goerr option" where
  "dial_err r = (case fst r of Inl e \<Rightarrow> Some e | Inr _ \<Rightarrow> None)"

text \<open>
  \<open>Connect\<close>: the two network dials are answered by \<open>net1\<close> and \<open>net2\<close>, the other calls of the exchange
  by \<open>env\<close> and \<open>dial2\<close>. The STOMP dialer takes a disconnect bound.
\<close>

definition client_Connect ::
  "net_env \<Rightarrow> net_env \<Rightarrow> token_env \<Rightarrow> goerr option \<Rightarrow> gocontext \<Rightarrow> Config \<Rightarrow>
     (goerr option \<times> auth_call list) option" where
  "client_Connect net1 net2 env dial2 ctx cfg =
     (case Exchange (env\<lparr>te_netDial := dial_err (netDial net1 ctx cfg), te_bounder := True\<rparr>)
             (dial_err (netDial net2 ctx cfg)) dial2 ctx (cfg_User cfg) (cfg_Password cfg)
             (cfg_HeartBeat cfg) (cfg_HeartBeats cfg) of
        None \<Rightarrow> None
      | Some (Some e, l) \<Rightarrow> Some (Some (Errorf ''gridappsd connect to %s: %w'' [StrArg (cfg_addr cfg)] [e]), l)
      | Some (None, l) \<Rightarrow> Some (None, l))"

section \<open>Properties\<close>

lemma dialTLS_ok:
  "dialTLS net ctx addr (Some tc) = (Inr c, l) \<Longrightarrow>
     \<exists>host port. SplitHostPort addr = Inr (host, port) \<and> c = TLSConn (effective_tls host tc)
       \<and> ne_tcp net ctx addr = None \<and> ne_handshake net (handshake_ctx ctx) (effective_tls host tc) = None
       \<and> l = [TcpDial ctx addr, TlsHandshake (handshake_ctx ctx) (effective_tls host tc)]"
  by (auto simp: dialTLS_def Let_def split: sum.splits option.splits if_splits)

lemma effective_tls_fields:
  "MinVersion (effective_tls host tc) = (if MinVersion tc = 0 then VersionTLS12 else MinVersion tc)"
  "ServerName (effective_tls host tc) = (if ServerName tc = [] then host else ServerName tc)"
  "InsecureSkipVerify (effective_tls host tc) = InsecureSkipVerify tc"
  by (simp_all add: effective_tls_def Let_def)

text \<open>
  C11: The transport is chosen by the documented matrix and fails closed: a connection is plain TCP only
  when no TLS configuration was given and plaintext was explicitly allowed; every other connection is
  TLS, with the caller's server name or the host of the address, the caller's minimum version or TLS
  1.2, never less than what the caller set, and certificate checks skipped only if the caller's own
  configuration says so.
\<close>

theorem dial_matrix:
  assumes "dial net ctx addr tlsCfg allow = (Inr c, l)"
  shows "if tlsCfg = None \<and> allow then c = PlainConn
    else (\<exists>host port cfg. SplitHostPort addr = Inr (host, port) \<and> c = TLSConn cfg
      \<and> (let tc = (case tlsCfg of None \<Rightarrow> zero_tls | Some tc \<Rightarrow> tc) in
         MinVersion cfg = (if MinVersion tc = 0 then 0x0303 else MinVersion tc)
         \<and> ServerName cfg = (if ServerName tc = [] then host else ServerName tc)
         \<and> InsecureSkipVerify cfg = InsecureSkipVerify tc))"
proof (cases tlsCfg)
  case None
  with assms dialTLS_ok [of net ctx addr zero_tls c l] show ?thesis
    by (auto simp: dial_def dialPlain_def effective_tls_fields VersionTLS12_def zero_tls_def split: option.splits if_splits)
next
  case (Some tc)
  with assms dialTLS_ok [of net ctx addr tc c l] show ?thesis
    by (auto simp: dial_def effective_tls_fields VersionTLS12_def)
qed

definition open_net :: net_env where
  "open_net = \<lparr>ne_tcp = (\<lambda>ctx a. None), ne_handshake = (\<lambda>ctx cfg. None)\<rparr>"

lemma split_example: "SplitHostPort ''h:1'' = Inr (''h'', ''1'')"
  by (simp add: SplitHostPort_def last_index_of_def)

theorem dial_matrix_witness:
  "\<exists>cfg l. dial open_net (CallerCtx None) ''h:1'' None False = (Inr (TLSConn cfg), l)
     \<and> MinVersion cfg = 0x0303 \<and> ServerName cfg = ''h''"
proof -
  obtain c l where d: "dial open_net (CallerCtx None) ''h:1'' None False = (Inr c, l)"
    by (simp add: dial_def dialTLS_def split_example open_net_def Let_def)
  from dial_matrix [OF d] d show ?thesis by (auto simp: split_example zero_tls_def)
qed

text \<open>
  C33: A TLS handshake is always bounded: it runs under a context with a deadline, the caller's own when
  there is one and five seconds from its start otherwise; when it fails the TCP connection is closed,
  and the error matches ErrHandshakeTimeout exactly when it was a deadline that ended it, and then
  context.DeadlineExceeded as well.
\<close>

theorem handshake_bounded:
  assumes "dialTLS net ctx addr (Some tc) = (res, l)" "TlsHandshake hs cfg \<in> set l"
    and "\<not> errors_Is e ErrHandshakeTimeout" "ne_handshake net hs cfg = Some e"
  shows "ctx_Deadline now hs = (case ctx_Deadline now ctx of None \<Rightarrow> Some (now + 5 * second) | Some t \<Rightarrow> Some t)
    \<and> last l = CloseRaw
    \<and> (\<exists>e'. res = Inl e' \<and> (errors_Is e' ErrHandshakeTimeout \<longleftrightarrow> errors_Is e DeadlineExceeded)
         \<and> (errors_Is e' DeadlineExceeded \<longleftrightarrow> errors_Is e DeadlineExceeded))"
proof -
  have dl: "ctx_Deadline 0 c = None \<longleftrightarrow> ctx_Deadline now c = None" for c
    by (induction c) (auto split: option.splits)
  have dl_some: "ctx_Deadline now (handshake_ctx ctx) =
    (case ctx_Deadline now ctx of None \<Rightarrow> Some (now + 5 * second) | Some t \<Rightarrow> Some t)"
    using dl [of ctx] by (auto simp: handshake_ctx_def DefaultHandshakeTimeout_def split: option.splits)
  from assms(1,2) obtain host port where "SplitHostPort addr = Inr (host, port)" "ne_tcp net ctx addr = None"
    "hs = handshake_ctx ctx" "cfg = effective_tls host tc"
    by (auto simp: dialTLS_def Let_def split: sum.splits option.splits if_splits)
  with assms(1,3,4) dl_some show ?thesis
    by (auto simp: dialTLS_def Let_def err_simps(1) split: if_splits)
qed

definition mute_net :: net_env where
  "mute_net = \<lparr>ne_tcp = (\<lambda>ctx a. None), ne_handshake = (\<lambda>ctx cfg. Some DeadlineExceeded)\<rparr>"

theorem handshake_bounded_witness:
  "\<exists>e' l. dialTLS mute_net (CallerCtx None) ''h:1'' (Some zero_tls) = (Inl e', l)
     \<and> errors_Is e' ErrHandshakeTimeout \<and> last l = CloseRaw"
proof -
  let ?cfg = "effective_tls ''h'' zero_tls" and ?hs = "handshake_ctx (CallerCtx None)"
  obtain res l where d: "dialTLS mute_net (CallerCtx None) ''h:1'' (Some zero_tls) = (res, l)"
    "TlsHandshake ?hs ?cfg \<in> set l"
    by (simp add: dialTLS_def split_example mute_net_def Let_def)
  have "\<not> errors_Is DeadlineExceeded ErrHandshakeTimeout" "ne_handshake mute_net ?hs ?cfg = Some DeadlineExceeded"
    by (simp_all add: err_simps mute_net_def)
  from handshake_bounded [OF d this, of 0] d(1) show ?thesis by auto
qed

lemma dial_err_None: "dial_err r = None \<longleftrightarrow> (\<exists>c. fst r = Inr c)"
  by (auto simp: dial_err_def split: sum.splits)

lemma netDial_plain:
  assumes "netDial net ctx cfg = (Inr PlainConn, l)"
  shows "cfg_TLSConfig cfg = None \<and> cfg_AllowPlaintext cfg"
  using assms dialTLS_ok [of net ctx "cfg_addr cfg" _ PlainConn l]
  by (auto simp: netDial_def dial_def split: option.splits if_splits)

lemma fetch_sends_dialed:
  assumes "fetchToken env ctx user pass hb hbs = Some (out, l)" "ASend d ct b hs \<in> set l"
  shows "te_netDial env = None"
  using assms by (auto simp: fetchToken_def split: option.splits)

text \<open>
  Credentials never travel in the clear by default: if Connect sent the token request at all, or
  succeeded, the credential leg was a TLS connection unless the caller gave no TLS configuration and
  allowed plaintext; a successful Connect has opened its second leg the same way.
\<close>

lemma connect_confidential:
  assumes "client_Connect net1 net2 env dial2 ctx cfg = Some (err, l)"
    and "cfg_TLSConfig cfg \<noteq> None \<or> \<not> cfg_AllowPlaintext cfg"
  shows "(ASend d ct b hs \<in> set l \<or> err = None \<longrightarrow> (\<exists>tc. fst (netDial net1 ctx cfg) = Inr (TLSConn tc)))
    \<and> (err = None \<longrightarrow> (\<exists>tc. fst (netDial net2 ctx cfg) = Inr (TLSConn tc)))"
proof -
  have tls: "\<exists>tc. fst (netDial net ctx cfg) = Inr (TLSConn tc)" if "dial_err (netDial net ctx cfg) = None" for net
  proof -
    from that obtain c where c: "fst (netDial net ctx cfg) = Inr c" by (auto simp: dial_err_None)
    with netDial_plain [of net ctx cfg "snd (netDial net ctx cfg)"] assms(2) show ?thesis
      by (cases c; cases "netDial net ctx cfg") auto
  qed
  let ?env = "env\<lparr>te_netDial := dial_err (netDial net1 ctx cfg), te_bounder := True\<rparr>"
  from assms(1) obtain e where X: "Exchange ?env (dial_err (netDial net2 ctx cfg)) dial2 ctx (cfg_User cfg)
      (cfg_Password cfg) (cfg_HeartBeat cfg) (cfg_HeartBeats cfg) = Some (e, l)" "e = None \<longleftrightarrow> err = None"
    by (auto simp: client_Connect_def split: option.splits)
  then obtain out l1 where f: "fetchToken ?env ctx (cfg_User cfg) (cfg_Password cfg) (cfg_HeartBeat cfg)
      (cfg_HeartBeats cfg) = Some (out, l1)" by (auto simp: Exchange_def split: option.splits)
  have send: "ASend d ct b hs \<in> set l \<Longrightarrow> ASend d ct b hs \<in> set l1"
    using X(1) f by (auto simp: Exchange_def Let_def split: option.splits sum.splits)
  have ok: "err = None \<Longrightarrow> (\<exists>tok. out = Inr tok) \<and> dial_err (netDial net2 ctx cfg) = None"
    using X f by (auto simp: Exchange_def Let_def split: option.splits sum.splits)
  have "dial_err (netDial net1 ctx cfg) = None" if "ASend d ct b hs \<in> set l \<or> err = None"
    using that send ok f fetch_sends_dialed [OF f, of d ct b hs] fetchToken_ok_dialed [of ?env] by auto
  with tls ok show ?thesis by blast
qed

definition tls_only :: Config where
  "tls_only = \<lparr>cfg_Address = ''h:1'', cfg_TLSConfig = None, cfg_AllowPlaintext = False, cfg_User = ''u'',
     cfg_Password = ''p'', cfg_HeartBeat = 0, cfg_HeartBeats = None\<rparr>"

lemma tls_only_dial: "dial_err (netDial open_net (CallerCtx None) tls_only) = None"
  by (simp add: dial_err_def netDial_def tls_only_def cfg_addr_def dial_def dialTLS_def split_example open_net_def Let_def)

end
