(* ===== verification/Fieldbus.thy ===== *)
theory Fieldbus
  imports RouterClose Client
begin

text \<open>
  The package fieldbus: the message bus, a session that ties a connection and a router together. The
  error channel belongs to the bus and is lent to the router of each session, so it is the router's
  while there is one. The contract \<open>MessageBus\<close> is a locale; the bus is its provider. What the router
  does on its own between two calls, its readers, deliveries and closes, are actions of the bus as
  well.
\<close>

section \<open>State\<close>

record 'h bus =
  fb_cfg :: Config
  fb_conn :: bool
  fb_rtr :: "'h router option"
  fb_connected :: bool
  fb_subject :: string
  fb_errs :: "goerr chan"

definition bus_New :: "Config \<Rightarrow> 'h bus" where
  "bus_New cfg =
     \<lparr>fb_cfg = cfg, fb_conn = False, fb_rtr = None, fb_connected = False, fb_subject = [],
      fb_errs = make_chan ErrorChanBuffer\<rparr>"

definition bus_Errors :: "'h bus \<Rightarrow> goerr chan" where
  "bus_Errors b = (case fb_rtr b of None \<Rightarrow> fb_errs b | Some r \<Rightarrow> errs r)"

definition IsConnected :: "'h bus \<Rightarrow> bool" where
  "IsConnected b = fb_connected b"

section \<open>Operations\<close>

text \<open>\<open>Connect\<close>: \<open>res\<close> is the error of \<open>gridappsd.Connect\<close>, if it fails.\<close>

definition bus_Connect :: "goerr option \<Rightarrow> 'h bus \<Rightarrow> goerr option \<times> 'h bus" where
  "bus_Connect res b =
     (if fb_connected b then (None, b)
      else
        (case res of
           Some e \<Rightarrow> (Some (Errorf ''fieldbus connect: %w'' [] [e]), b)
         | None \<Rightarrow>
             (None, b\<lparr>fb_conn := True, fb_rtr := Some (NewWithErrorChan (Some (bus_Errors b))),
                      fb_subject := cfg_User (fb_cfg b), fb_connected := True\<rparr>)))"

text \<open>
  \<open>Disconnect\<close>: \<open>sched\<close> is what happens in the router from the start of its Close until that returns,
  \<open>derr\<close> the result of the connection's Disconnect. It is \<open>None\<close> where Close would not return.
\<close>

definition bus_Disconnect ::
  "'h action list \<Rightarrow> goerr option \<Rightarrow> 'h bus \<Rightarrow> (goerr option \<times> 'h bus) option" where
  "bus_Disconnect sched derr b =
     (let b1 = b\<lparr>fb_errs := bus_Errors b, fb_rtr := None, fb_conn := False, fb_connected := False\<rparr>;
          err = (if fb_conn b
                 then (case derr of None \<Rightarrow> None | Some e \<Rightarrow> Some (Errorf ''fieldbus disconnect: %w'' [] [e]))
                 else None) in
      case fb_rtr b of
        None \<Rightarrow> Some (err, b1)
      | Some r \<Rightarrow>
          (case run_actions router_step (DoClose # sched @ [DoCloseReturn]) r of
             None \<Rightarrow> None
           | Some r' \<Rightarrow> Some (err, b1\<lparr>fb_errs := errs r'\<rparr>)))"

definition bus_Subscribe ::
  "string \<Rightarrow> 'h \<Rightarrow> goerr option \<Rightarrow> nat \<Rightarrow> 'h bus \<Rightarrow> (goerr + token) \<times> 'h bus" where
  "bus_Subscribe destination h res n b =
     (case fb_rtr b of
        None \<Rightarrow> (Inl (Errorf ''fieldbus subscribe: not connected'' [] []), b)
      | Some r \<Rightarrow>
          (case router_Subscribe (NormalizeDestination destination) h res n r of
             (t, r') \<Rightarrow> (t, b\<lparr>fb_rtr := Some r'\<rparr>)))"

text \<open>\<open>Unsubscribe\<close>: \<open>uerr\<close> is the result of the transport's Unsubscribe, if the router calls it.\<close>

definition bus_Unsubscribe :: "string \<Rightarrow> token \<Rightarrow> goerr option \<Rightarrow> 'h bus \<Rightarrow> goerr option \<times> 'h bus" where
  "bus_Unsubscribe destination tok uerr b =
     (case fb_rtr b of
        None \<Rightarrow> (None, b)
      | Some r \<Rightarrow>
          (let dest = NormalizeDestination destination in
           case Unsubscribe_locked dest tok r of
             (None, r') \<Rightarrow> (None, b\<lparr>fb_rtr := Some r'\<rparr>)
           | (Some s, r') \<Rightarrow> (Unsubscribe_result dest uerr, b\<lparr>fb_rtr := Some (r'\<lparr>called := s # called r'\<rparr>)\<rparr>)))"

definition goss_headers :: "string \<Rightarrow> headers" where
  "goss_headers subject = [HeaderGossHasSubject \<mapsto> ''true'', HeaderGossSubject \<mapsto> subject]"

definition bus_Send ::
  "('w, 's) Conn \<Rightarrow> gocontext \<Rightarrow> string \<Rightarrow> string \<Rightarrow> bytes \<Rightarrow> 'h bus \<Rightarrow> 'w \<Rightarrow> goerr option \<times> 'w" where
  "bus_Send ops ctx destination contentType body b w =
     (if \<not> fb_conn b then (Some (Errorf ''fieldbus send: not connected'' [] []), w)
      else conn_Send ops ctx (NormalizeDestination destination) contentType body (goss_headers (fb_subject b)) w)"

definition bus_GetResponse ::
  "('w, 's) Conn \<Rightarrow> (goerr + bytes) \<Rightarrow> gocontext \<Rightarrow> string \<Rightarrow> string \<Rightarrow> bytes \<Rightarrow> 'h bus \<Rightarrow> 'w \<Rightarrow>
     ((goerr + bytes) outcome \<times> 'w) option" where
  "bus_GetResponse ops rnd ctx destination contentType body b w =
     (if \<not> fb_conn b then Some (Ret (Inl (Errorf ''fieldbus get_response: not connected'' [] [])), w)
      else GetResponse ops rnd ctx destination contentType body (goss_headers (fb_subject b)) w)"

section \<open>The contract of a message bus\<close>

text \<open>
  The methods of \<open>MessageBus\<close>. Each takes the results of the calls below it, as the operations above do;
  \<open>'w\<close> is the state of the connection that Send and GetResponse work on.
\<close>

record ('b, 'd, 'h, 't, 'w) MessageBus =
  mb_Connect :: "goerr option \<Rightarrow> 'b \<Rightarrow> goerr option \<times> 'b"
  mb_Disconnect :: "'d \<Rightarrow> goerr option \<Rightarrow> 'b \<Rightarrow> (goerr option \<times> 'b) option"
  mb_IsConnected :: "'b \<Rightarrow> bool"
  mb_Subscribe :: "string \<Rightarrow> 'h \<Rightarrow> goerr option \<Rightarrow> nat \<Rightarrow> 'b \<Rightarrow> (goerr + 't) \<times> 'b"
  mb_Unsubscribe :: "string \<Rightarrow> 't \<Rightarrow> goerr option \<Rightarrow> 'b \<Rightarrow> goerr option \<times> 'b"
  mb_Send :: "gocontext \<Rightarrow> string \<Rightarrow> string \<Rightarrow> bytes \<Rightarrow> 'b \<Rightarrow> 'w \<Rightarrow> goerr option \<times> 'w"
  mb_GetResponse :: "(goerr + bytes) \<Rightarrow> gocontext \<Rightarrow> string \<Rightarrow> string \<Rightarrow> bytes \<Rightarrow> 'b \<Rightarrow> 'w \<Rightarrow> ((goerr + bytes) outcome \<times> 'w) option"

text \<open>\<open>ErrorReporter\<close>, which a bus may implement beside it.\<close>

record 'b ErrorReporter =
  er_Errors :: "'b \<Rightarrow> goerr chan"

text \<open>The two interfaces that \<open>GridAPPSDMessageBus\<close> is declared to implement.\<close>

definition bus_ops :: "('w, 's) Conn \<Rightarrow> ('h bus, 'h action list, 'h, token, 'w) MessageBus" where
  "bus_ops ops =
     \<lparr>mb_Connect = bus_Connect, mb_Disconnect = bus_Disconnect, mb_IsConnected = IsConnected,
      mb_Subscribe = bus_Subscribe, mb_Unsubscribe = bus_Unsubscribe, mb_Send = bus_Send ops,
      mb_GetResponse = bus_GetResponse ops\<rparr>"

definition bus_reporter :: "'h bus ErrorReporter" where
  "bus_reporter = \<lparr>er_Errors = bus_Errors\<rparr>"

lemmas bus_ops_simps = bus_ops_def bus_reporter_def

text \<open>
  What \<open>MessageBus\<close> promises of the life of a session, whatever the results of the calls below it:
  Connect is idempotent and a failed one changes nothing, Disconnect ends the session, and without a
  session Subscribe, Send and GetResponse are refused, Unsubscribe does nothing and none changes the bus
  or a connection.
\<close>

locale message_bus =
  fixes mb :: "('b, 'd, 'h, 't, 'w) MessageBus"
    and invar :: "'b \<Rightarrow> bool"
  assumes connect_again: "mb_IsConnected mb b \<Longrightarrow> mb_Connect mb res b = (None, b)"
    and connect_ok: "invar b \<Longrightarrow> mb_Connect mb None b = (err, b') \<Longrightarrow> err = None \<and> mb_IsConnected mb b' \<and> invar b'"
    and connect_err: "\<not> mb_IsConnected mb b \<Longrightarrow> mb_Connect mb (Some e) b = (err, b') \<Longrightarrow> err \<noteq> None \<and> b' = b"
    and disconnect_ends: "invar b \<Longrightarrow> mb_Disconnect mb d derr b = Some (err, b') \<Longrightarrow> \<not> mb_IsConnected mb b' \<and> invar b'"
    and subscribe_refused: "invar b \<Longrightarrow> \<not> mb_IsConnected mb b \<Longrightarrow> \<exists>e. mb_Subscribe mb dest h res n b = (Inl e, b)"
    and unsubscribe_idle: "invar b \<Longrightarrow> \<not> mb_IsConnected mb b \<Longrightarrow> mb_Unsubscribe mb dest tok uerr b = (None, b)"
    and send_refused: "invar b \<Longrightarrow> \<not> mb_IsConnected mb b \<Longrightarrow> \<exists>e. mb_Send mb ctx dest ct body b w = (Some e, w)"
    and request_refused: "invar b \<Longrightarrow> \<not> mb_IsConnected mb b \<Longrightarrow> \<exists>e. mb_GetResponse mb rnd ctx dest ct body b w = Some (Ret (Inl e), w)"
begin

text \<open>After a Disconnect the bus stays as it is until a Connect succeeds.\<close>

lemma ended_session:
  assumes "invar b" "mb_Disconnect mb d derr b = Some (err, b')"
  shows "\<not> mb_IsConnected mb b' \<and> (\<exists>e. mb_Subscribe mb dest h res n b' = (Inl e, b')) \<and> mb_Unsubscribe mb dest tok uerr b' = (None, b')
    \<and> (\<exists>e. mb_Send mb ctx dest ct body b' w = (Some e, w)) \<and> (\<exists>e. mb_GetResponse mb rnd ctx dest ct body b' w = Some (Ret (Inl e), w))
    \<and> snd (mb_Connect mb (Some e) b') = b' \<and> mb_IsConnected mb (snd (mb_Connect mb None b')) \<and> invar (snd (mb_Connect mb None b'))"
proof -
  have b': "\<not> mb_IsConnected mb b'" "invar b'" using disconnect_ends [OF assms] by simp_all
  show ?thesis
    using b' subscribe_refused [OF b'(2,1)] unsubscribe_idle [OF b'(2,1)] send_refused [OF b'(2,1)] request_refused [OF b'(2,1)]
      connect_err [OF b'(1), of e] connect_ok [OF b'(2)]
    by (cases "mb_Connect mb (Some e) b'"; cases "mb_Connect mb None b'") auto
qed

end

text \<open>
  What \<open>ErrorReporter\<close> adds: one channel for the life of the bus, never closed, of a capacity that never
  changes, and Connect leaves in it what is in it.
\<close>

locale reporting_bus = message_bus +
  fixes er :: "'b ErrorReporter"
  assumes errors_open: "invar b \<Longrightarrow> \<not> ch_closed (er_Errors er b) \<and> chan_ok (er_Errors er b)"
    and errors_cap: "invar b \<Longrightarrow> ch_cap (er_Errors er b) = ErrorChanBuffer"
    and errors_connect: "invar b \<Longrightarrow> er_Errors er (snd (mb_Connect mb res b)) = er_Errors er b"
begin

lemma errors_across:
  assumes "invar b" "mb_Disconnect mb d derr b = Some (err, b')"
  shows "er_Errors er (snd (mb_Connect mb res b')) = er_Errors er b' \<and> \<not> ch_closed (er_Errors er b')
    \<and> ch_cap (er_Errors er b') = ch_cap (er_Errors er b)"
proof -
  have "invar b'" using disconnect_ends [OF assms] by simp
  with errors_open errors_cap errors_connect assms(1) show ?thesis by auto
qed

end

section \<open>The bus keeps the contract\<close>

definition bus_inv :: "'h bus \<Rightarrow> bool" where
  "bus_inv b \<longleftrightarrow>
     (fb_connected b \<longleftrightarrow> fb_rtr b \<noteq> None) \<and> (fb_conn b \<longleftrightarrow> fb_rtr b \<noteq> None)
     \<and> (fb_connected b \<longrightarrow> fb_subject b = cfg_User (fb_cfg b))
     \<and> chan_ok (bus_Errors b) \<and> \<not> ch_closed (bus_Errors b) \<and> ch_cap (bus_Errors b) = ErrorChanBuffer
     \<and> (\<forall>r. fb_rtr b = Some r \<longrightarrow> router_inv2 r \<and> closing r = [])"

lemma NewWithErrorChan_sel [simp]: "errs (NewWithErrorChan (Some c)) = c" "readers (NewWithErrorChan ec) = []"
  "closing (NewWithErrorChan ec) = []"
  by (simp_all add: NewWithErrorChan_def)

lemma bus_inv_New: "bus_inv (bus_New cfg)"
  by (simp add: bus_inv_def bus_New_def bus_Errors_def)

lemma bus_inv_Connect: "bus_inv b \<Longrightarrow> bus_inv (snd (bus_Connect res b))"
  using inv_New [of "bus_Errors b"]
  by (auto simp: bus_inv_def bus_Connect_def bus_Errors_def router_inv2_def split: option.splits)

lemma errs_run_cap: "run_actions router_step acts r = Some r' \<Longrightarrow> ch_cap (errs r') = ch_cap (errs r)"
  by (induction acts arbitrary: r) (auto split: Option.bind_splits dest: errs_cap_step)

lemma router_run_errs:
  assumes "router_inv2 r" "run_actions router_step acts r = Some r'"
  shows "router_inv2 r'" "chan_ok (errs r')" "\<not> ch_closed (errs r')"
proof -
  show I: "router_inv2 r'" by (rule rt2.inv_run [OF assms])
  then show "chan_ok (errs r')" "\<not> ch_closed (errs r')" by (simp_all add: router_inv2_def router_inv_def)
qed

lemma bus_inv_Disconnect:
  assumes "bus_inv b" "bus_Disconnect sched derr b = Some (err, b')"
  shows "bus_inv b' \<and> fb_rtr b' = None"
proof (cases "fb_rtr b")
  case None
  with assms show ?thesis by (auto simp: bus_inv_def bus_Disconnect_def bus_Errors_def Let_def)
next
  case (Some r)
  with assms(2) obtain r' where run: "run_actions router_step (DoClose # sched @ [DoCloseReturn]) r = Some r'"
    and b': "b' = b\<lparr>fb_errs := errs r', fb_rtr := None, fb_conn := False, fb_connected := False\<rparr>"
    by (auto simp: bus_Disconnect_def Let_def simp del: run_actions.simps split: option.splits)
  have "router_inv2 r" using assms(1) Some by (simp add: bus_inv_def)
  from router_run_errs [OF this run] errs_run_cap [OF run] assms(1) Some b' show ?thesis
    by (auto simp: bus_inv_def bus_Errors_def)
qed

lemma closing_step: "router_step act r = Some r' \<Longrightarrow> act \<noteq> DoClose \<Longrightarrow> closing r' = closing r"
  by (cases act) (auto simp: router_Subscribe_def Unsubscribe_locked_def Let_def readLoop_step_def
      split: option.splits if_splits list.splits rpc.splits send_result.splits recv_result.splits prod.splits)

lemma bus_inv_router:
  assumes "bus_inv b" "fb_rtr b = Some r" "router_inv2 r'" "ch_cap (errs r') = ch_cap (errs r)" "closing r' = closing r"
  shows "bus_inv (b\<lparr>fb_rtr := Some r'\<rparr>)"
  using assms by (auto simp: bus_inv_def bus_Errors_def router_inv2_def router_inv_def)

lemma bus_inv_Subscribe:
  assumes "bus_inv b"
  shows "bus_inv (snd (bus_Subscribe dest h res n b))"
proof (cases "fb_rtr b")
  case (Some r)
  then have I: "router_inv2 r" using assms by (simp add: bus_inv_def)
  let ?d = "NormalizeDestination dest"
  have st: "router_step (DoSubscribe ?d h res n) r = Some (snd (router_Subscribe ?d h res n r))" by simp
  from bus_inv_router [OF assms Some rt2.inv_step [OF I st] errs_cap_step [OF st] closing_step [OF st]] Some show ?thesis
    by (auto simp: bus_Subscribe_def split: prod.splits)
qed (use assms in \<open>simp add: bus_Subscribe_def\<close>)

lemma bus_inv_Unsubscribe:
  assumes "bus_inv b"
  shows "bus_inv (snd (bus_Unsubscribe dest tok uerr b))"
proof (cases "fb_rtr b")
  case (Some r)
  then have I: "router_inv2 r" using assms by (simp add: bus_inv_def)
  let ?d = "NormalizeDestination dest"
  obtain s r1 where u: "Unsubscribe_locked ?d tok r = (s, r1)" by fastforce
  show ?thesis
  proof (cases s)
    case None
    then have st: "router_step (DoUnsubscribe ?d tok) r = Some r1" using u by simp
    from bus_inv_router [OF assms Some rt2.inv_step [OF I st] errs_cap_step [OF st] closing_step [OF st]] Some u None show ?thesis
      by (simp add: bus_Unsubscribe_def)
  next
    case s: (Some a)
    let ?r2 = "r1\<lparr>pending := pending r1 @ [a]\<rparr>"
    let ?r3 = "?r2\<lparr>pending := remove1 a (pending r1 @ [a]), called := a # called r1\<rparr>"
    have st: "router_step (DoUnsubscribe ?d tok) r = Some ?r2" using u s by simp
    have st2: "router_step (DoCallUnsubscribe a) ?r2 = Some ?r3" by simp
    have I3: "router_inv2 ?r3" by (rule rt2.inv_step [OF rt2.inv_step [OF I st] st2])
    have "router_inv2 (r1\<lparr>called := a # called r1\<rparr>)"
      using I3 notin_set_remove1 by (auto simp: router_inv2_def router_inv_def cell_ok_def entry_ok_def)
    moreover have "ch_cap (errs r1) = ch_cap (errs r)" "closing r1 = closing r"
      using errs_cap_step [OF st] closing_step [OF st] by simp_all
    ultimately show ?thesis
      using bus_inv_router [OF assms Some, of "r1\<lparr>called := a # called r1\<rparr>"] Some u s
      by (simp add: bus_Unsubscribe_def Let_def)
  qed
qed (use assms in \<open>simp add: bus_Unsubscribe_def\<close>)

interpretation bus: reporting_bus "bus_ops ops" bus_inv bus_reporter for ops :: "('w, 's) Conn"
proof (unfold_locales, goal_cases)
  case (2 b err b')
  with bus_inv_Connect [OF 2(1), of None] show ?case
    by (auto simp: bus_ops_simps bus_Connect_def IsConnected_def split: if_splits)
next
  case (4 b d derr err b')
  then have "bus_Disconnect d derr b = Some (err, b')" by (simp add: bus_ops_def)
  with bus_inv_Disconnect [OF 4(1) this] show ?case by (auto simp: bus_ops_def IsConnected_def bus_inv_def)
qed (auto simp: bus_ops_simps bus_Connect_def IsConnected_def bus_inv_def bus_Subscribe_def bus_Unsubscribe_def
    bus_Send_def bus_GetResponse_def bus_Errors_def split: option.splits if_splits)

section \<open>The bus as a transition system\<close>

datatype 'h bus_action =
    BConnect "goerr option"
  | BDisconnect "'h action list" "goerr option"
  | BSubscribe string 'h "goerr option" nat
  | BUnsubscribe string token "goerr option"
  | BRouter "'h action"

text \<open>
  What the router does on its own: a step of a reader, a delivery or close by the transport, the
  consumer of \<open>Errors()\<close>.
\<close>

fun own_action :: "'h action \<Rightarrow> bool" where
  "own_action (DoReader hs a) = True"
| "own_action (DoDeliver s m) = True"
| "own_action (DoPeerClose s) = True"
| "own_action DoConsume = True"
| "own_action _ = False"

fun bus_step :: "'h bus_action \<Rightarrow> 'h bus \<Rightarrow> 'h bus option" where
  "bus_step (BConnect res) b = Some (snd (bus_Connect res b))"
| "bus_step (BDisconnect sched derr) b = map_option snd (bus_Disconnect sched derr b)"
| "bus_step (BSubscribe dest h res n) b = Some (snd (bus_Subscribe dest h res n b))"
| "bus_step (BUnsubscribe dest tok uerr) b = Some (snd (bus_Unsubscribe dest tok uerr b))"
| "bus_step (BRouter act) b =
     (case fb_rtr b of
        None \<Rightarrow> None
      | Some r \<Rightarrow> if own_action act then map_option (\<lambda>r'. b\<lparr>fb_rtr := Some r'\<rparr>) (router_step act r) else None)"

lemma bus_inv_step:
  assumes "bus_inv b" "bus_step act b = Some b'"
  shows "bus_inv b'"
proof (cases act)
  case (BRouter a)
  with assms(2) obtain r r' where r: "fb_rtr b = Some r" "router_step a r = Some r'" "b' = b\<lparr>fb_rtr := Some r'\<rparr>"
    "own_action a" by (auto split: option.splits if_splits)
  have "router_inv2 r" using assms(1) r(1) by (simp add: bus_inv_def)
  from bus_inv_router [OF assms(1) r(1) rt2.inv_step [OF this r(2)] errs_cap_step [OF r(2)] closing_step [OF r(2)]] r(3,4)
  show ?thesis by fastforce
qed (use assms bus_inv_Connect bus_inv_Disconnect bus_inv_Subscribe bus_inv_Unsubscribe in fastforce)+

interpretation bm: machine bus_step "bus_New cfg" bus_inv for cfg
proof unfold_locales
  show "bus_inv (bus_New cfg)" by (rule bus_inv_New)
qed (rule bus_inv_step)

section \<open>Properties\<close>

text \<open>
  A bus is connected exactly while it holds a connection and a router; then its subject is the
  configured user and its router satisfies the health contract; and its error channel is open, never
  over its capacity, and the one it had from the start, in every interleaving of Connect, Disconnect,
  Subscribe, Unsubscribe and the router's own steps.
\<close>

lemma bus_session:
  assumes "reach bus_step (bus_New cfg) b"
  shows "(IsConnected b \<longleftrightarrow> fb_rtr b \<noteq> None) \<and> (fb_conn b \<longleftrightarrow> fb_rtr b \<noteq> None)
    \<and> (IsConnected b \<longrightarrow> fb_subject b = cfg_User (fb_cfg b)) \<and> (\<forall>r. fb_rtr b = Some r \<longrightarrow> router_inv r)
    \<and> \<not> ch_closed (bus_Errors b) \<and> length (ch_buf (bus_Errors b)) \<le> 16"
  using bm.inv_reach [OF assms]
  by (auto simp: bus_inv_def IsConnected_def router_inv2_def chan_ok_def ErrorChanBuffer_def)

definition user_cfg :: Config where
  "user_cfg = tls_only\<lparr>cfg_User := ''alice''\<rparr>"

definition live_bus :: "nat bus" where
  "live_bus = snd (bus_Connect None (bus_New user_cfg))"

lemma live_bus_reach: "reach bus_step (bus_New user_cfg) live_bus"
  using run_reach [of bus_step "[BConnect None]" "bus_New user_cfg" live_bus] by (simp add: live_bus_def)

lemma live_bus_state: "fb_connected live_bus" "fb_rtr live_bus = Some New_router" "fb_conn live_bus"
  "cfg_User (fb_cfg live_bus) = ''alice''" "fb_subject live_bus = ''alice''"
  by (simp_all add: live_bus_def bus_Connect_def bus_New_def user_cfg_def New_router_eq bus_Errors_def)



text \<open>
  What the bus sends: on a connected bus Send makes one call, to the normalised destination, with
  exactly the two GOSS headers, the subject being the configured user, and GetResponse puts the same
  two headers and the reply name, and nothing else, on its request; on a bus that is not connected
  both fail and make no call.
\<close>

lemma bus_sends:
  assumes "reach bus_step (bus_New cfg) b"
    and "bus_Send (log_ops ops) ctx dest ct body b (w, []) = (err, w1, l1)"
    and "bus_GetResponse (log_ops ops) rnd ctx dest ct body b (w, []) = Some (out, w2, l2)"
  shows "if IsConnected b
    then l1 = [CallSend ctx (NormalizeDestination dest) ct body
        [HeaderGossHasSubject \<mapsto> ''true'', HeaderGossSubject \<mapsto> cfg_User (fb_cfg b)]]
      \<and> (\<forall>c d t x hs. CallSend c d t x hs \<in> set l2 \<longrightarrow> d = NormalizeDestination dest \<and>
          (\<exists>nonce. hs = [HeaderGossHasSubject \<mapsto> ''true'', HeaderGossSubject \<mapsto> cfg_User (fb_cfg b),
             HeaderReplyTo \<mapsto> bareReply nonce]))
    else err \<noteq> None \<and> (\<exists>e. out = Ret (Inl e)) \<and> l1 = [] \<and> l2 = []"
proof (cases "IsConnected b")
  case True
  have I: "bus_inv b" by (rule bm.inv_reach [OF assms(1)])
  with True have b: "fb_conn b" "fb_subject b = cfg_User (fb_cfg b)" by (simp_all add: bus_inv_def IsConnected_def)
  from b assms(2) have "l1 = [CallSend ctx (NormalizeDestination dest) ct body (goss_headers (cfg_User (fb_cfg b)))]"
    by (auto simp: bus_Send_def log_ops_def split: prod.splits)
  moreover have "d = NormalizeDestination dest \<and>
      (\<exists>nonce. hs = (goss_headers (cfg_User (fb_cfg b)))(HeaderReplyTo \<mapsto> bareReply nonce))"
    if "CallSend c d t x hs \<in> set l2" for c d t x hs
    using that b assms(3)
    by (auto simp: bus_GetResponse_def GetResponse_def deferred_unsubscribe_def log_ops_def Let_def
      simp del: fun_upd_apply split: sum.splits prod.splits option.splits outcome.splits)
  ultimately show ?thesis using True by (simp add: goss_headers_def del: fun_upd_apply)
next
  case False
  have "bus_inv b" by (rule bm.inv_reach [OF assms(1)])
  with False assms(2,3) show ?thesis
    by (auto simp: bus_inv_def IsConnected_def bus_Send_def bus_GetResponse_def)
qed


text \<open>
  A Subscribe that took the router before a Disconnect, and runs after that Disconnect's Close has
  returned, is accepted on a router nobody will close again; when the connection is then
  disconnected, its reader reports the bus's own teardown as a subscription closed by the peer.
\<close>

lemma subscribe_after_close:
  "\<exists>r e. run_actions router_step
       [DoClose, DoCloseReturn, DoSubscribe ''/queue/a'' (7::nat) None 2, DoPeerClose 0,
        DoReader [] 0, DoReader [] 0, DoReader [] 0, DoReader [] 0, DoReader [] 0] New_router = Some r
     \<and> ch_buf (router_Errors r) = [e] \<and> errors_Is e ErrSubscriptionClosed"
  by (simp add: router_eval router_Errors_def)

end
