(* ===== verification/ConnectSession.thy ===== *)
theory ConnectSession
  imports AuthConn Fieldbus
begin

text \<open>
  Connect from the top to the bottom: the bus dials through gridappsd.Connect, the exchange runs over the
  STOMP dialer on what the network returned, and the router of the new session is made on the durable
  connection. What comes out is a session in the sense of theory Session, so that what is shown there holds of a bus
  that has been connected.
\<close>

section \<open>The operations\<close>

text \<open>What \<open>netDial\<close> returns: \<open>rw\<close> is the stream that stands for a connection of the network.\<close>

definition opened :: "(net_conn \<Rightarrow> rwc) \<Rightarrow> (goerr + net_conn) \<times> net_call list \<Rightarrow> goerr + rwc" where
  "opened rw r = (case fst r of Inl e \<Rightarrow> Inl e | Inr c \<Rightarrow> Inr (rw c))"

text \<open>\<open>gridappsd.Connect\<close>; its dialer is the zero \<open>stomp.Dialer\<close>.\<close>

definition Connect_stomp ::
  "'g gostomp \<Rightarrow> (net_conn \<Rightarrow> rwc) \<Rightarrow> net_env \<Rightarrow> net_env \<Rightarrow> 'g leg_env \<Rightarrow> int \<Rightarrow> 'g \<Rightarrow> gocontext \<Rightarrow> Config \<Rightarrow>
     ((goerr + 'g sconn) \<times> 'g leg \<times> 'g leg) option" where
  "Connect_stomp gs rw net1 net2 E now2 g2 ctx cfg =
     (case Exchange_stomp gs \<lparr>disconnectBound = 0\<rparr> (E\<lparr>le_netDial := opened rw (netDial net1 ctx cfg)\<rparr>)
             (opened rw (netDial net2 ctx cfg)) now2 g2 ctx (cfg_User cfg) (cfg_Password cfg)
             (cfg_HeartBeat cfg) (cfg_HeartBeats cfg) of
        None \<Rightarrow> None
      | Some (Inl e, legs) \<Rightarrow> Some (Inl (Errorf ''gridappsd connect to %s: %w'' [StrArg (cfg_addr cfg)] [e]), legs)
      | Some (Inr conn, legs) \<Rightarrow> Some (Inr conn, legs))"

text \<open>\<open>Connect\<close> of the bus, with the session it starts.\<close>

definition Connect_session ::
  "'g gostomp \<Rightarrow> (net_conn \<Rightarrow> rwc) \<Rightarrow> net_env \<Rightarrow> net_env \<Rightarrow> 'g leg_env \<Rightarrow> int \<Rightarrow> 'g \<Rightarrow> gocontext \<Rightarrow> 'h bus \<Rightarrow>
     (goerr option \<times> 'h bus \<times> ('g, 'h) session option \<times> 'g leg \<times> 'g leg) option" where
  "Connect_session gs rw net1 net2 E now2 g2 ctx b =
     (if fb_connected b then Some (None, b, None, NoLeg, NoLeg)
      else
        (case Connect_stomp gs rw net1 net2 E now2 g2 ctx (fb_cfg b) of
           None \<Rightarrow> None
         | Some (Inl e, legs) \<Rightarrow> (case bus_Connect (Some e) b of (err, b') \<Rightarrow> Some (err, b', None, legs))
         | Some (Inr conn, legs) \<Rightarrow>
             (case bus_Connect None b of (err, b') \<Rightarrow> Some (err, b', Some (ses_start (bus_Errors b) conn), legs))))"

section \<open>Properties\<close>

lemma opened_secure:
  assumes "opened rw (netDial net ctx cfg) = Inr x" "cfg_TLSConfig cfg \<noteq> None \<or> \<not> cfg_AllowPlaintext cfg"
  shows "\<exists>tc. fst (netDial net ctx cfg) = Inr (TLSConn tc) \<and> x = rw (TLSConn tc)"
proof -
  from assms(1) obtain c where c: "fst (netDial net ctx cfg) = Inr c" "x = rw c" by (auto simp: opened_def split: sum.splits)
  with netDial_plain [of net ctx cfg "snd (netDial net ctx cfg)"] assms(2) show ?thesis
    by (cases c; cases "netDial net ctx cfg") auto
qed

lemma fetchToken_stomp_dialed:
  "fetchToken_stomp gs d E ctx user pass hb hbs = Some (Inr tok, ce, L) \<Longrightarrow> \<exists>x. le_netDial E = Inr x"
  by (auto simp: fetchToken_stomp_def split: sum.splits)

text \<open>
  C14: Connecting a bus. When it fails the bus is as before, the error names both layers and the durable
  transport, if it was opened, is closed. When it succeeds the bus is connected, on a router that publishes on the
  bus's own error channel, over the durable connection, which was logged in with a token and nothing else;
  both transports are TLS unless the configuration allows plaintext, and the credential connection is at its end with
  its one subscription and its one frame. From there on the router of the session, whatever the broker and
  go-stomp do, only reaches states of the router on its own.
\<close>

theorem connect_session:
  assumes "reach bus_step (bus_New cfg) b" "\<not> IsConnected b"
    and "Connect_session gs rw net1 net2 E now2 g2 ctx b = Some (err, b', ses, leg1, leg2)"
  shows "case ses of
      None \<Rightarrow> b' = b \<and> (leg2 = NoLeg \<or> (\<exists>x. leg2 = Undialed x \<and> rw_closed x))
        \<and> (\<exists>e. err = Some (Errorf ''fieldbus connect: %w'' [] [Errorf ''gridappsd connect to %s: %w'' [StrArg (cfg_addr (fb_cfg b))] [e]]))
    | Some S0 \<Rightarrow> err = None \<and> IsConnected b' \<and> fb_rtr b' = Some (ses_rtr S0) \<and> bus_Errors b' = bus_Errors b
        \<and> leg2 = Dialed (ses_conn S0) \<and> leg_clean (cfg_User (fb_cfg b)) (cfg_Password (fb_cfg b)) (le_rand E) True leg1
        \<and> (cfg_TLSConfig (fb_cfg b) = None \<and> cfg_AllowPlaintext (fb_cfg b)
           \<or> (\<forall>net \<in> {net1, net2}. \<exists>tc. fst (netDial net ctx (fb_cfg b)) = Inr (TLSConn tc)))
        \<and> (\<forall>S. reach (ses_step gs) S0 S \<longrightarrow> ses_inv S \<and> reach router_step (ses_rtr S0) (ses_rtr S))"
proof -
  have I: "bus_inv b" by (rule bm.inv_reach [OF assms(1)])
  have nc: "\<not> fb_connected b" using assms(2) by (simp add: IsConnected_def)
  let ?cfg = "fb_cfg b"
  let ?E = "E\<lparr>le_netDial := opened rw (netDial net1 ctx ?cfg)\<rparr>"
  from assms(3) nc obtain res where
    X: "Exchange_stomp gs \<lparr>disconnectBound = 0\<rparr> ?E (opened rw (netDial net2 ctx ?cfg)) now2 g2 ctx (cfg_User ?cfg) (cfg_Password ?cfg)
      (cfg_HeartBeat ?cfg) (cfg_HeartBeats ?cfg) = Some (res, leg1, leg2)"
    by (auto simp: Connect_session_def Connect_stomp_def split: option.splits sum.splits prod.splits)
  note C = Exchange_stomp_clean [OF X]
  show ?thesis
  proof (cases res)
    case (Inl e)
    with assms(3) nc X C show ?thesis
      by (auto simp: Connect_session_def Connect_stomp_def bus_Connect_def)
  next
    case (Inr c)
    from C Inr obtain x2 g' rw' where c: "opened rw (netDial net2 ctx ?cfg) = Inr x2" "c = dialed g' rw' 0" by auto
    from X Inr obtain tok ce L where "fetchToken_stomp gs \<lparr>disconnectBound = 0\<rparr> ?E ctx (cfg_User ?cfg) (cfg_Password ?cfg)
      (cfg_HeartBeat ?cfg) (cfg_HeartBeats ?cfg) = Some (Inr tok, ce, L)"
      by (auto simp: Exchange_stomp_def split: option.splits sum.splits)
    from fetchToken_stomp_dialed [OF this] obtain x1 where x1: "opened rw (netDial net1 ctx ?cfg) = Inr x1" by auto
    have tls: "cfg_TLSConfig ?cfg = None \<and> cfg_AllowPlaintext ?cfg
      \<or> (\<forall>net \<in> {net1, net2}. \<exists>tc. fst (netDial net ctx ?cfg) = Inr (TLSConn tc))"
      using opened_secure [OF x1] opened_secure [OF c(1)] by blast
    have ec: "chan_ok (bus_Errors b)" "\<not> ch_closed (bus_Errors b)" using I by (simp_all add: bus_inv_def)
    have "ses_inv S \<and> reach router_step (NewWithErrorChan (Some (bus_Errors b))) (ses_rtr S)"
      if "reach (ses_step gs) (ses_start (bus_Errors b) c) S" for S :: "('b, 'a) session"
      by (rule ses_reach_sim [OF ec that [unfolded c(2)]])
    with tls C Inr assms(3) nc X show ?thesis
      by (auto simp: Connect_session_def Connect_stomp_def bus_Connect_def IsConnected_def bus_Errors_def ses_start_def)
  qed
qed

theorem connect_session_witness:
  "\<exists>b' S0 legs tc. Connect_session calm_gostomp (\<lambda>_. plain_rwc) open_net open_net calm_leg 0 0 (CallerCtx None) (bus_New tls_only) =
       Some (None, b', Some S0, legs)
     \<and> IsConnected b' \<and> fb_rtr b' = Some (ses_rtr S0 :: nat router) \<and> fst (netDial open_net (CallerCtx None) tls_only) = Inr (TLSConn tc)"
proof -
  let ?b = "bus_New tls_only :: nat bus"
  have nd: "opened (\<lambda>_. plain_rwc) (netDial open_net (CallerCtx None) tls_only) = Inr plain_rwc"
    using tls_only_dial by (auto simp: dial_err_None opened_def)
  have E: "calm_leg\<lparr>le_netDial := Inr plain_rwc\<rparr> = calm_leg" by (simp add: calm_leg_def)
  have cfg: "cfg_User tls_only = ''u''" "cfg_Password tls_only = ''p''" "cfg_HeartBeat tls_only = 0" "cfg_HeartBeats tls_only = None"
    "fb_cfg ?b = tls_only" "\<not> fb_connected ?b" "cfg_TLSConfig tls_only = None" "\<not> cfg_AllowPlaintext tls_only"
    by (simp_all add: tls_only_def bus_New_def)
  obtain c1 c2 where run: "calm_exchange = Some (Inr c2, Dialed c1, Dialed c2)" using calm_exchange_run by blast
  then have "\<exists>b'. Connect_session calm_gostomp (\<lambda>_. plain_rwc) open_net open_net calm_leg 0 0 (CallerCtx None) ?b =
      Some (None, b', Some (ses_start (bus_Errors ?b) c2), Dialed c1, Dialed c2)"
    by (simp add: Connect_session_def Connect_stomp_def nd E cfg bus_Connect_def)
  then obtain b' where c: "Connect_session calm_gostomp (\<lambda>_. plain_rwc) open_net open_net calm_leg 0 0 (CallerCtx None) ?b =
      Some (None, b', Some (ses_start (bus_Errors ?b) c2), Dialed c1, Dialed c2)" by blast
  have "\<not> IsConnected ?b" using cfg(6) by (simp add: IsConnected_def)
  from connect_session [OF reach_start this c] c cfg show ?thesis by auto
qed

end
