(* ===== verification/RouterTerm.thy ===== *)
theory RouterTerm
  imports RouterClose
begin

text \<open>
  The package internal/router, fourth part: Close not only can return, it does. Once the registry is cleared
  and nobody subscribes, the work that is left is a number. Every step of a reader, every Unsubscribe
  call and every close of a channel lowers it, only a delivered message raises it, by an amount that is fixed
  when Close begins, and when no such step is left, Close returns.
\<close>

section \<open>The interface of a machine that runs down\<close>

text \<open>
  A machine with a measure of the work left: an action that \<open>works\<close> in a state lowers it, one that \<open>grows\<close> it
  may add the allowance of the state, which stays what it is, and no other one raises it. The number of
  working actions of a run:
\<close>

fun worked :: "('a \<Rightarrow> 's \<Rightarrow> 's option) \<Rightarrow> ('a \<Rightarrow> 's \<Rightarrow> bool) \<Rightarrow> 'a list \<Rightarrow> 's \<Rightarrow> nat" where
  "worked f w [] s = 0"
| "worked f w (a # as) s = (if w a s then 1 else 0) + (case f a s of None \<Rightarrow> 0 | Some t \<Rightarrow> worked f w as t)"

lemma worked_filter: "run_actions f as s = Some t \<Longrightarrow> worked f (\<lambda>a _. w a) as s = length (filter w as)"
  by (induction as arbitrary: s) (auto split: Option.bind_splits)

locale draining =
  fixes step :: "'a \<Rightarrow> 's \<Rightarrow> 's option"
    and ok :: "'s \<Rightarrow> bool"
    and allowed :: "'a \<Rightarrow> bool"
    and works :: "'a \<Rightarrow> 's \<Rightarrow> bool"
    and grows :: "'a \<Rightarrow> bool"
    and work :: "'s \<Rightarrow> nat"
    and allowance :: "'s \<Rightarrow> nat"
  assumes ok_step: "ok s \<Longrightarrow> allowed a \<Longrightarrow> step a s = Some t \<Longrightarrow> ok t"
    and allowance_step: "ok s \<Longrightarrow> allowed a \<Longrightarrow> step a s = Some t \<Longrightarrow> allowance t = allowance s"
    and work_step: "ok s \<Longrightarrow> allowed a \<Longrightarrow> step a s = Some t \<Longrightarrow>
      work t + (if works a s then 1 else 0) \<le> work s + (if grows a then allowance s else 0)"
begin

lemma run_ok: "ok s \<Longrightarrow> list_all allowed as \<Longrightarrow> run_actions step as s = Some t \<Longrightarrow> ok t"
  by (induction as arbitrary: s) (auto split: Option.bind_splits intro: ok_step)

lemma run_bound:
  assumes "ok s" "list_all allowed as" "run_actions step as s = Some t"
  shows "worked step works as s + work t \<le> work s + allowance s * length (filter grows as)"
  using assms
proof (induction as arbitrary: s)
  case (Cons a as)
  then obtain u where u: "step a s = Some u" "run_actions step as u = Some t" by (auto split: Option.bind_splits)
  have a: "allowed a" "list_all allowed as" using Cons.prems(2) by simp_all
  from Cons.IH [OF ok_step [OF Cons.prems(1) a(1) u(1)] a(2) u(2)] work_step [OF Cons.prems(1) a(1) u(1)]
    allowance_step [OF Cons.prems(1) a(1) u(1)] u(1)
  show ?case by (simp split: if_splits)
qed simp

text \<open>When nothing grows, there is no infinite run of working steps.\<close>

lemma wf_steps: "wf {(t, s). ok s \<and> (\<exists>a. allowed a \<and> works a s \<and> \<not> grows a \<and> step a s = Some t)}"
proof (rule wf_subset [OF wf_measure [of work]])
  show "{(t, s). ok s \<and> (\<exists>a. allowed a \<and> works a s \<and> \<not> grows a \<and> step a s = Some t)} \<subseteq> measure work"
    using work_step by fastforce
qed

end

section \<open>The work left after Close\<close>

abbreviation handlers_of :: "'h router \<Rightarrow> nat \<Rightarrow> nat" where
  "handlers_of r a \<equiv> length (ds_handlers (states r ! a))"

text \<open>
  The steps a reader takes from a point to its end, if its channel is drained and closed, at most; \<open>h\<close> is the
  number of its handlers. The 17 attempts of \<open>publishErr\<close> make two steps each.
\<close>

fun pc_left :: "nat \<Rightarrow> 'h rpc \<Rightarrow> nat" where
  "pc_left h ReadDone = 0"
| "pc_left h ReadFin = 1"
| "pc_left h (PubSend e i) = 2 * (ErrorChanBuffer + 1 - i) + 2"
| "pc_left h (PubDrain e i) = 2 * (ErrorChanBuffer - i) + 3"
| "pc_left h (ReadReport t u) = 2 * ErrorChanBuffer + 5"
| "pc_left h (ReadDereg t) = 2 * ErrorChanBuffer + 6"
| "pc_left h (ReadExit t) = 2 * ErrorChanBuffer + 7"
| "pc_left h ReadRecv = 2 * ErrorChanBuffer + 8"
| "pc_left h (ReadCall hl m) = 2 * ErrorChanBuffer + 9 + length hl"
| "pc_left h (ReadSnap m) = 2 * ErrorChanBuffer + 10 + h"

text \<open>A message costs its receive, its snapshot, the calls of the handlers and the way back.\<close>

definition reader_left :: "'h router \<Rightarrow> nat \<Rightarrow> nat" where
  "reader_left r a =
     pc_left (handlers_of r a) (pc_of r a) + (handlers_of r a + 3) * length (ch_buf (chans r ! a))
     + (if ch_closed (chans r ! a) then 0 else 1)"

definition close_work :: "'h router \<Rightarrow> nat" where
  "close_work r = (\<Sum>a < length (readers r). reader_left r a) + length (pending r)"

definition message_work :: "'h router \<Rightarrow> nat" where
  "message_work r = (\<Sum>a < length (readers r). handlers_of r a) + 3"

lemma sum_one:
  fixes f g :: "nat \<Rightarrow> nat"
  assumes "a < n" "\<And>b. b < n \<Longrightarrow> b \<noteq> a \<Longrightarrow> g b = f b"
  shows "(\<Sum>b < n. g b) + f a = (\<Sum>b < n. f b) + g a"
proof -
  have "(\<Sum>b \<in> {..<n} - {a}. g b) = (\<Sum>b \<in> {..<n} - {a}. f b)" using assms(2) by (intro sum.cong) auto
  with assms(1) sum.remove [of "{..<n}" a f] sum.remove [of "{..<n}" a g] show ?thesis by simp
qed

text \<open>What a reader's step leaves of another one, and what it takes off its own work.\<close>

lemma readLoop_frame:
  assumes "router_inv r" "readLoop_step hs a r = Some r'"
  shows "length (readers r') = length (readers r)" "handlers_of r' b = handlers_of r b" "pending r' = pending r"
    "dests r = [] \<Longrightarrow> dests r' = []"
    "b \<noteq> a \<Longrightarrow> readers r' ! b = readers r ! b" "b \<noteq> a \<Longrightarrow> chans r' ! b = chans r ! b"
proof -
  have a: "a < length (states r)" "ds_sub (states r ! a) = a"
    using router_invD(1,4) [OF assms(1)] assms(2) by (auto simp: readLoop_step_def cell_ok_def split: if_splits)
  note s = assms(2) [unfolded readLoop_step_def Let_def a(2)]
  note spl = if_splits rpc.splits option.splits list.splits recv_result.splits send_result.splits
  show "length (readers r') = length (readers r)" "pending r' = pending r" "dests r = [] \<Longrightarrow> dests r' = []"
    "b \<noteq> a \<Longrightarrow> readers r' ! b = readers r ! b" "b \<noteq> a \<Longrightarrow> chans r' ! b = chans r ! b"
    using s by (auto simp: set_pc_def split: spl)
  show "handlers_of r' b = handlers_of r b"
    using s a(1) by (cases "b = a") (auto simp: set_pc_def split: spl)
qed

lemma readLoop_left:
  assumes "router_inv r" "readLoop_step hs a r = Some r'"
  shows "reader_left r' a < reader_left r a"
proof -
  note I = router_invD [OF assms(1)]
  have a: "a < length (readers r)" "a < length (states r)" "a < length (chans r)" "ds_sub (states r ! a) = a"
    using I(1,2,4) assms(2) by (auto simp: readLoop_step_def cell_ok_def split: if_splits)
  note s = assms(2) [unfolded readLoop_step_def Let_def a(4)]
  show ?thesis
  proof (cases "pc_of r a")
    case ReadRecv
    with s a show ?thesis
      by (auto simp: reader_left_def set_pc_def chan_simps split: recv_result.splits option.splits)
  next
    case (ReadSnap m)
    with s a have hs: "mset hs = mset (map snd (ds_handlers (states r ! a)))" "r' = set_pc a (ReadCall hs m) r"
      by (simp_all split: if_splits)
    then have "length hs = handlers_of r a" by (metis length_map size_mset)
    with hs(2) ReadSnap a show ?thesis by (simp add: reader_left_def set_pc_def)
  next
    case (PubSend e i)
    with s a I(8) show ?thesis
      by (auto simp: reader_left_def set_pc_def ErrorChanBuffer_def split: if_splits send_result.splits)
  next
    case (PubDrain e i)
    with s a show ?thesis by (auto simp: reader_left_def set_pc_def split: recv_result.splits)
  qed (use s a in \<open>auto simp: reader_left_def set_pc_def split: list.splits option.splits if_splits\<close>)
qed

section \<open>Every step after Close\<close>

fun subscribes :: "'h action \<Rightarrow> bool" where
  "subscribes (DoSubscribe d h res n) = True"
| "subscribes _ = False"

fun tears_down :: "'h action \<Rightarrow> bool" where
  "tears_down (DoReader hs a) = True"
| "tears_down (DoCallUnsubscribe s) = True"
| "tears_down (DoPeerClose s) = True"
| "tears_down _ = False"

fun delivers :: "'h action \<Rightarrow> bool" where
  "delivers (DoDeliver s m) = True"
| "delivers _ = False"

text \<open>The list of a Close is worked off or still to be called.\<close>

definition closing_ok :: "'h router \<Rightarrow> bool" where
  "closing_ok r \<longleftrightarrow> set (closing r) \<subseteq> set (pending r) \<union> set (called r)"

lemma closing_ok_step:
  assumes "closing_ok r" "router_step act r = Some r'"
  shows "closing_ok r'"
proof (cases act)
  case (DoSubscribe d h res n)
  with assms show ?thesis by (auto simp: closing_ok_def router_Subscribe_def Let_def split: option.splits)
next
  case (DoUnsubscribe d tok)
  with assms show ?thesis by (auto simp: closing_ok_def Unsubscribe_locked_def Let_def split: option.splits if_splits)
next
  case (DoCallUnsubscribe s)
  then have "set (pending r) \<subseteq> insert s (set (remove1 s (pending r)))" by (metis in_set_remove1 insert_iff subsetI)
  with DoCallUnsubscribe assms show ?thesis by (auto simp: closing_ok_def split: if_splits)
next
  case (DoReader hs a)
  with assms(2) have "pending r' = pending r \<and> called r' = called r \<and> closing r' = closing r"
    by (auto simp: readLoop_step_def Let_def
      split: if_splits rpc.splits option.splits list.splits recv_result.splits send_result.splits)
  with assms(1) show ?thesis by (simp add: closing_ok_def)
qed (use assms in \<open>auto simp: closing_ok_def Close_locked_def split: if_splits send_result.splits recv_result.splits\<close>)

interpretation rc: machine router_step New_router "\<lambda>r. router_inv r \<and> closing_ok r"
proof unfold_locales
  show "router_inv New_router \<and> closing_ok New_router"
    using rt.inv_start by (simp add: closing_ok_def New_router_def NewWithErrorChan_def)
qed (blast intro: inv_router_step closing_ok_step)

definition torn :: "'h router \<Rightarrow> bool" where
  "torn r \<longleftrightarrow> router_inv r \<and> closing_ok r \<and> dests r = []"

lemma torn_step:
  assumes "torn r" "\<not> subscribes act" "router_step act r = Some r'"
  shows "torn r'"
proof -
  have "dests r' = []"
  proof (cases act)
    case (DoReader hs a)
    with assms readLoop_frame(4) show ?thesis by (auto simp: torn_def)
  qed (use assms in \<open>auto simp: torn_def Unsubscribe_locked_def Close_locked_def split: if_splits send_result.splits recv_result.splits\<close>)
  with assms rc.inv_step [of r act r'] show ?thesis by (auto simp: torn_def)
qed

lemma work_reader:
  assumes "router_inv r" "readLoop_step hs a r = Some r'"
  shows "close_work r' < close_work r"
proof -
  note F = readLoop_frame [OF assms]
  have a: "a < length (readers r)" using assms(2) by (simp add: readLoop_step_def split: if_splits)
  have "reader_left r' b = reader_left r b" if "b \<noteq> a" for b
    unfolding reader_left_def F(2) F(5) [OF that] F(6) [OF that] by simp
  from sum_one [OF a, of "reader_left r'" "reader_left r"] this readLoop_left [OF assms] show ?thesis
    by (simp add: close_work_def F(1,3))
qed

lemma work_chan:
  assumes "router_inv r" "s < length (chans r)"
  shows "close_work (r\<lparr>chans := (chans r)[s := c]\<rparr>) + reader_left r s
    = close_work r + reader_left (r\<lparr>chans := (chans r)[s := c]\<rparr>) s"
proof -
  let ?r = "r\<lparr>chans := (chans r)[s := c]\<rparr>"
  have "s < length (readers r)" using router_invD(1,2) [OF assms(1)] assms(2) by simp
  from sum_one [OF this, of "reader_left ?r" "reader_left r"] show ?thesis by (simp add: close_work_def reader_left_def)
qed

lemma work_deliver:
  assumes "router_inv r" "router_step (DoDeliver s m) r = Some r'"
  shows "close_work r' \<le> close_work r + message_work r"
proof -
  let ?c = "(chans r ! s)\<lparr>ch_buf := ch_buf (chans r ! s) @ [m]\<rparr>"
  from assms(2) have s: "s < length (chans r)" and r': "r' = r\<lparr>chans := (chans r)[s := ?c]\<rparr>"
    by (auto simp: chan_simps split: if_splits send_result.splits)
  have "handlers_of r s \<le> (\<Sum>a < length (readers r). handlers_of r a)"
    using s router_invD(1,2) [OF assms(1)] by (intro member_le_sum) auto
  with work_chan [OF assms(1) s, of ?c] s show ?thesis by (simp add: r' reader_left_def message_work_def)
qed

lemma work_router_step:
  assumes "torn r" "\<not> subscribes act" "router_step act r = Some r'"
  shows "close_work r' + (if tears_down act then 1 else 0) \<le> close_work r + (if delivers act then message_work r else 0)"
proof -
  have I: "router_inv r" and d: "dests r = []" using assms(1) by (simp_all add: torn_def)
  show ?thesis
  proof (cases act)
    case (DoReader hs a)
    with work_reader [OF I] assms(3) show ?thesis by (simp add: Suc_le_eq)
  next
    case (DoPeerClose s)
    then have s: "s < length (chans r)" "\<not> ch_closed (chans r ! s)" "r' = r\<lparr>chans := (chans r)[s := close_chan (chans r ! s)]\<rparr>"
      using assms(3) by (auto split: if_splits)
    with work_chan [OF I s(1), of "close_chan (chans r ! s)"] DoPeerClose show ?thesis by (simp add: reader_left_def)
  next
    case (DoDeliver s m)
    with work_deliver [OF I] assms(3) show ?thesis by simp
  next
    case (DoCallUnsubscribe s)
    then have s: "s \<in> set (pending r)" "r' = r\<lparr>pending := remove1 s (pending r), called := s # called r\<rparr>"
      using assms(3) by (auto split: if_splits)
    from s(1) have "Suc (length (remove1 s (pending r))) = length (pending r)" using length_pos_if_in_set [of s "pending r"] by (simp add: length_remove1)
    with DoCallUnsubscribe s(2) show ?thesis by (simp add: close_work_def reader_left_def)
  qed (use assms d in \<open>auto simp: close_work_def reader_left_def Unsubscribe_locked_def Close_locked_def
      split: recv_result.splits if_splits\<close>)
qed

lemma torn_handlers:
  assumes "torn r" "\<not> subscribes act" "router_step act r = Some r'"
  shows "length (readers r') = length (readers r) \<and> handlers_of r' b = handlers_of r b"
proof (cases act)
  case (DoReader hs a)
  with assms(3) have s: "readLoop_step hs a r = Some r'" by simp
  have "router_inv r" using assms(1) by (simp add: torn_def)
  from readLoop_frame(1,2) [OF this s] show ?thesis by simp
qed (use assms in \<open>auto simp: torn_def Unsubscribe_locked_def Close_locked_def
    split: if_splits send_result.splits recv_result.splits\<close>)

lemma message_work_step:
  assumes "torn r" "\<not> subscribes act" "router_step act r = Some r'"
  shows "message_work r' = message_work r"
  using torn_handlers [OF assms] by (simp add: message_work_def)

interpretation cl: draining router_step torn "\<lambda>act. \<not> subscribes act" "\<lambda>act _. tears_down act" delivers close_work message_work
  by unfold_locales (fact torn_step, fact message_work_step, fact work_router_step)

section \<open>Close returns\<close>

text \<open>A reader that cannot move waits on a channel that is open and empty, or has finished.\<close>

lemma reader_stuck:
  assumes "router_inv r" "a < length (readers r)" "\<And>hs. readLoop_step hs a r = None" "pc_of r a \<noteq> ReadDone"
  shows "pc_of r a = ReadRecv" "\<not> ch_closed (chans r ! a)"
proof -
  note I = router_invD [OF assms(1)]
  have sub: "ds_sub (states r ! a) = a" using I(1,4) assms(2) by (simp add: cell_ok_def)
  note s = assms(3) [unfolded readLoop_step_def Let_def if_P [OF assms(2)] sub]
  show pc: "pc_of r a = ReadRecv"
  proof (cases "pc_of r a")
    case (ReadSnap m)
    with s [of "map snd (ds_handlers (states r ! a))"] show ?thesis by simp
  next
    case (PubSend e i)
    with s [of "[]"] I(8) show ?thesis by (auto simp: try_send_def split: if_splits)
  qed (use s [of "[]"] assms(4) in \<open>auto split: list.splits option.splits if_splits recv_result.splits\<close>)
  show "\<not> ch_closed (chans r ! a)"
    using s [of "[]"] pc by (auto simp: try_recv_def split: list.splits option.splits if_splits)
qed

lemma stuck_close_returns:
  assumes "torn r" "\<And>act. tears_down act \<Longrightarrow> (\<And>s. act = DoPeerClose s \<Longrightarrow> s \<in> set (called r)) \<Longrightarrow> router_step act r = None"
  shows "router_step DoCloseReturn r = Some r"
proof -
  have I: "router_inv r" and c: "closing_ok r" and d: "dests r = []" using assms(1) by (simp_all add: torn_def)
  have p: "pending r = []"
  proof (rule ccontr)
    assume "pending r \<noteq> []"
    then obtain s where "s \<in> set (pending r)" by (meson list.set_sel(1))
    with assms(2) [of "DoCallUnsubscribe s"] show False by simp
  qed
  have "pc_of r a = ReadDone" if "a < length (readers r)" for a
  proof (rule ccontr)
    assume nd: "pc_of r a \<noteq> ReadDone"
    have "readLoop_step hs a r = None" for hs using assms(2) [of "DoReader hs a"] by simp
    from reader_stuck [OF I that this nd] have st: "pc_of r a = ReadRecv" "\<not> ch_closed (chans r ! a)" .
    then have "a \<in> set (called r)" using router_invD(1,4) [OF I] that d p by (auto simp: cell_ok_def)
    with assms(2) [of "DoPeerClose a"] st(2) that router_invD(1,2) [OF I] show False by simp
  qed
  then have "wg r = 0" using router_invD(6) [OF I] by (auto simp: live_readers_zero in_set_conv_nth)
  moreover have "list_all (\<lambda>s. s \<in> set (called r)) (closing r)" using c p by (auto simp: closing_ok_def list_all_iff)
  ultimately show ?thesis by simp
qed



end
