(* ===== verification/SessionTerm.thy ===== *)
theory SessionTerm
  imports Session RouterTerm
begin

text \<open>
  Close on a STOMP connection: the work that is left when the registry of a session's router is cleared counts
  the bridges too, each with what go-stomp has queued for it. Only go-stomp delivering another message raises
  it. Nothing that the broker does is needed for Close to return.
\<close>

section \<open>The work left in a session\<close>

abbreviation sub_of :: "('g, 'h) session \<Rightarrow> nat \<Rightarrow> ssub" where
  "sub_of S a \<equiv> sc_subs (ses_conn S) ! (ses_link S ! a)"

text \<open>
  A message that go-stomp has queued is received by the bridge, sent on and then costs the reader what a
  message costs it; \<open>h\<close> is the number of handlers.
\<close>

definition bridge_left :: "nat \<Rightarrow> ssub \<Rightarrow> nat" where
  "bridge_left h s = (case ss_pc s of BrLoop \<Rightarrow> 1 | BrSend m \<Rightarrow> h + 5 | BrExit \<Rightarrow> 0) + (h + 5) * length (ch_buf (ss_src s))"

definition ses_left :: "('g, 'h) session \<Rightarrow> nat \<Rightarrow> nat" where
  "ses_left S a = reader_left (ses_rtr S) a + bridge_left (handlers_of (ses_rtr S) a) (sub_of S a)"

definition session_work :: "('g, 'h) session \<Rightarrow> nat" where
  "session_work S = (\<Sum>a < length (readers (ses_rtr S)). ses_left S a) + length (pending (ses_rtr S))"

definition push_work :: "('g, 'h) session \<Rightarrow> nat" where
  "push_work S = message_work (ses_rtr S) + 2"

text \<open>Every case a bridge takes lowers what is left of its subscription.\<close>

abbreviation sub_left :: "nat \<Rightarrow> ssub \<Rightarrow> nat" where
  "sub_left h s \<equiv> bridge_left h s + (h + 3) * length (ch_buf (ss_ch s)) + (if ch_closed (ss_ch s) then 0 else 1)"

lemma bridge_lowers:
  assumes "bridge_inv s" "bridge_step ch s = Some (s', mark)"
  shows "sub_left h s' < sub_left h s"
proof -
  have out: "ss_out s = (\<not> ch_closed (ss_ch s))" and snd: "ss_pc s = BrSend m \<Longrightarrow> ss_out s" for m
    using assms(1) by (auto simp: bridge_inv_def)
  show ?thesis
    using assms(2) out snd
    by (cases "ss_pc s"; cases ch)
      (auto simp: bridge_steps bridge_left_def endOut_def chan_simps split: recv_result.splits send_result.splits if_splits)
qed

section \<open>What a step does to the work\<close>

lemma ses_left_eq:
  assumes "ses_inv S" "a < length (readers (ses_rtr S))"
  shows "ses_left S a = pc_left (handlers_of (ses_rtr S) a) (pc_of (ses_rtr S) a) + sub_left (handlers_of (ses_rtr S) a) (sub_of S a)"
proof -
  have "chans (ses_rtr S) ! a = ss_ch (sub_of S a)" using ses_invD(3,8) [OF assms(1)] assms(2) by simp
  then show ?thesis by (simp add: ses_left_def reader_left_def)
qed

text \<open>A step that moves no reader changes the work by what it does to the subscriptions.\<close>

definition same_readers :: "('g, 'h) session \<Rightarrow> ('g, 'h) session \<Rightarrow> bool" where
  "same_readers S S' \<longleftrightarrow> readers (ses_rtr S') = readers (ses_rtr S) \<and> states (ses_rtr S') = states (ses_rtr S)
     \<and> pending (ses_rtr S') = pending (ses_rtr S) \<and> ses_link S' = ses_link S"

lemma work_same:
  assumes "ses_inv S" "ses_inv S'" "same_readers S S'"
    and "\<And>a. a < length (ses_link S) \<Longrightarrow> sub_left (handlers_of (ses_rtr S) a) (sub_of S' a) = sub_left (handlers_of (ses_rtr S) a) (sub_of S a)"
  shows "session_work S' = session_work S"
proof -
  have "ses_left S' a = ses_left S a" if "a < length (readers (ses_rtr S))" for a
    using ses_left_eq [OF assms(1) that] ses_left_eq [OF assms(2), of a] assms(3) assms(4) [of a] that ses_invD(8) [OF assms(1)]
    by (simp add: same_readers_def)
  with assms(3) show ?thesis by (simp add: session_work_def same_readers_def)
qed

lemma work_one:
  assumes "ses_inv S" "ses_inv S'" "same_readers S S'" "a < length (ses_link S)"
    and "\<And>j. j < length (sc_subs (ses_conn S)) \<Longrightarrow> j \<noteq> ses_link S ! a \<Longrightarrow> sc_subs (ses_conn S') ! j = sc_subs (ses_conn S) ! j"
  shows "session_work S' + sub_left (handlers_of (ses_rtr S) a) (sub_of S a)
    = session_work S + sub_left (handlers_of (ses_rtr S) a) (sub_of S' a)"
proof -
  note D = ses_invD [OF assms(1)]
  note R = assms(3) [unfolded same_readers_def]
  have a: "a < length (readers (ses_rtr S))" using assms(4) D(8) by simp
  have "ses_left S' b = ses_left S b" if "b < length (readers (ses_rtr S))" "b \<noteq> a" for b
  proof -
    have "ses_link S ! b \<noteq> ses_link S ! a" using D(4,8) that assms(4) by (simp add: nth_eq_iff_index_eq)
    with assms(5) [of "ses_link S ! b"] D(5,8) that(1) have "sub_of S' b = sub_of S b" using R by simp
    with ses_left_eq [OF assms(1) that(1)] ses_left_eq [OF assms(2), of b] that(1) R show ?thesis by simp
  qed
  from sum_one [OF a, of "ses_left S'" "ses_left S"] this ses_left_eq [OF assms(1) a] ses_left_eq [OF assms(2), of a] a R
  show ?thesis by (simp add: session_work_def)
qed

text \<open>Unsubscribe does not touch what go-stomp has queued, the bridge or the channel.\<close>

definition quiet_sub :: "ssub \<Rightarrow> ssub \<Rightarrow> bool" where
  "quiet_sub s s' \<longleftrightarrow> ss_src s' = ss_src s \<and> ss_pc s' = ss_pc s \<and> ss_ch s' = ss_ch s"

lemma quiet_left: "quiet_sub s s' \<Longrightarrow> sub_left h s' = sub_left h s"
  by (simp add: quiet_sub_def bridge_left_def)

lemma Unsubscribe_quiet:
  assumes "i < length (sc_subs c)" "sub_Unsubscribe_stomp gs i c = (r, c')" "j < length (sc_subs c)"
  shows "quiet_sub (sc_subs c ! j) (sc_subs c' ! j)"
proof (cases "ss_once (sc_subs c ! i)")
  case True
  with assms(2) show ?thesis by (simp add: sub_Unsubscribe_stomp_def quiet_sub_def)
next
  case False
  let ?c1 = "update_sub i (\<lambda>s. s\<lparr>ss_once := True, ss_stop := True\<rparr>) c"
  obtain r2 c2 where u: "sub_unsubscribe gs i ?c1 = (r2, c2)" by fastforce
  have "sc_subs c2 = sc_subs ?c1" using sub_unsubscribe_frame [OF u] by simp
  with assms False u show ?thesis
    by (auto simp: sub_Unsubscribe_stomp_def quiet_sub_def update_sub_def nth_list_update split: outcome.splits if_splits)
qed

lemma event_left:
  assumes "stomp_inv c" "i < length (sc_subs c)" "c' = fst (stomp_event_step gs i ev (c, None))"
  shows "sub_left h (sc_subs c' ! i)
      + (if \<exists>ch. ev = EvBridge ch \<and> bridge_step ch (sc_subs c ! i) \<noteq> None then 1 else 0)
    \<le> sub_left h (sc_subs c ! i) + (if \<exists>m. ev = EvSrcPush m then h + 5 else 0)"
proof -
  have one: "sc_subs (sub_event_step i e c) ! i = (case sub_step e (sc_subs c ! i) of None \<Rightarrow> sc_subs c ! i | Some (s, _) \<Rightarrow> s)" for e
    using assms(2) by (simp add: sub_event_step_def Let_def markEnded_def split: option.split)
  show ?thesis
  proof (cases ev)
    case (EvBridge ch)
    with assms(3) one [of "Bridge ch"] bridge_lowers [OF stomp_inv_sub [OF assms(1,2)], of ch _ _ h] show ?thesis
      by (auto simp: Suc_le_eq split: option.splits)
  next
    case (EvSrcPush m)
    with assms(3) one [of "SrcPush m"] show ?thesis
      by (auto simp: bridge_left_def chan_simps algebra_simps split: send_result.splits)
  next
    case EvSpawned
    show ?thesis
    proof (cases "0 < ss_spawned (sc_subs c ! i)")
      case True
      let ?c1 = "update_sub i (\<lambda>s. s\<lparr>ss_spawned := ss_spawned s - 1\<rparr>) c"
      obtain r c2 where u: "sub_Unsubscribe_stomp gs i ?c1 = (r, c2)" by fastforce
      from Unsubscribe_quiet [OF _ u, of i] assms(2) have "quiet_sub (sc_subs c ! i) (sc_subs c2 ! i)"
        by (simp add: quiet_sub_def)
      from quiet_left [OF this, of h] u True EvSpawned assms(3) show ?thesis by simp
    qed (use EvSpawned assms(3) in simp)
  next
    case EvSrcClose
    with assms(3) one [of SrcClose] show ?thesis by (simp add: bridge_left_def)
  next
    case (EvCallerDone e)
    with assms(3) one [of CtxEnd] show ?thesis by (simp add: bridge_left_def)
  qed
qed

section \<open>Every step after Close\<close>

fun ses_subscribes :: "'h ses_action \<Rightarrow> bool" where
  "ses_subscribes (SSubscribe ctx d h) = True"
| "ses_subscribes _ = False"

text \<open>The steps of the client's own goroutines that Close waits for: they do something.\<close>

fun ses_works :: "'h ses_action \<Rightarrow> ('g, 'h) session \<Rightarrow> bool" where
  "ses_works (SReader hs a) S = True"
| "ses_works (SCallUnsubscribe s) S = True"
| "ses_works (SConn i (EvBridge ch)) S \<longleftrightarrow> i \<in> set (ses_link S) \<and> bridge_step ch (sc_subs (ses_conn S) ! i) \<noteq> None"
| "ses_works _ S = False"

fun ses_pushes :: "'h ses_action \<Rightarrow> bool" where
  "ses_pushes (SConn i (EvSrcPush m)) = True"
| "ses_pushes _ = False"

definition ses_torn :: "('g, 'h) session \<Rightarrow> bool" where
  "ses_torn S \<longleftrightarrow> ses_inv S \<and> torn (ses_rtr S)"

lemma ses_torn_frame:
  assumes "ses_torn S" "ses_step gs act S = Some S'" "dests (ses_rtr S') = dests (ses_rtr S)" "closing (ses_rtr S') = closing (ses_rtr S)"
    "pending (ses_rtr S') = pending (ses_rtr S)" "called (ses_rtr S') = called (ses_rtr S)"
  shows "ses_torn S'"
proof -
  have I: "ses_inv S'" using ses_step_sound [OF _ assms(2)] assms(1) by (simp add: ses_torn_def)
  then have "router_inv (ses_rtr S')" using ses_invD(1) [OF I] by (simp add: router_inv2_def)
  with I assms show ?thesis by (simp add: ses_torn_def torn_def closing_ok_def)
qed

text \<open>The steps that the router itself takes.\<close>

lemma ses_router_action:
  assumes "ses_step gs act S = Some S'" "\<not> ses_subscribes act"
  shows "(\<exists>ract. \<not> subscribes ract \<and> \<not> delivers ract \<and> router_step ract (ses_rtr S) = Some (ses_rtr S')
      \<and> (tears_down ract \<longleftrightarrow> ses_works act S) \<and> (\<forall>i ev. act \<noteq> SConn i ev))
    \<or> (\<exists>i ev. act = SConn i ev) \<or> ses_rtr S' = ses_rtr S \<and> \<not> ses_works act S"
proof (cases act)
  case (SUnsubscribe d tok)
  with assms show ?thesis by (intro disjI1 exI [of _ "DoUnsubscribe d tok"]) (auto simp: on_router_def split: prod.splits)
next
  case SClose
  with assms show ?thesis by (intro disjI1 exI [of _ DoClose]) (auto simp: on_router_def)
next
  case (SCallUnsubscribe s)
  with assms show ?thesis
    by (intro disjI1 exI [of _ "DoCallUnsubscribe s"])
      (auto simp: ses_CallUnsubscribe_def split: option.splits prod.splits outcome.splits if_splits)
next
  case SCloseReturn
  with assms show ?thesis by (intro disjI1 exI [of _ DoCloseReturn]) (auto simp: on_router_def split: if_splits)
next
  case (SReader hs a)
  with assms show ?thesis
    by (intro disjI1 exI [of _ "DoReader hs a"]) (auto simp: ses_readLoop_def split: option.splits)
next
  case SConsume
  with assms show ?thesis by (intro disjI1 exI [of _ DoConsume]) (auto simp: on_router_def split: recv_result.splits)
qed (use assms in \<open>auto split: if_splits outcome.splits prod.splits\<close>)

lemma ses_torn_step:
  assumes "ses_torn S" "\<not> ses_subscribes act" "ses_step gs act S = Some S'"
  shows "ses_torn S'"
proof -
  consider (r) ract where "\<not> subscribes ract" "router_step ract (ses_rtr S) = Some (ses_rtr S')"
    | (c) i ev where "act = SConn i ev" | (s) "ses_rtr S' = ses_rtr S"
    using ses_router_action [OF assms(3,2)] by blast
  then show ?thesis
  proof cases
    case r
    with torn_step assms(1) ses_step_sound [OF _ assms(3)] show ?thesis by (auto simp: ses_torn_def)
  next
    case c
    with assms(3) have "S' = sync (S\<lparr>ses_conn := fst (stomp_event_step gs i ev (ses_conn S, None))\<rparr>)" by (auto split: if_splits)
    then show ?thesis by (intro ses_torn_frame [OF assms(1,3)]) (simp_all add: sync_def)
  qed (simp add: ses_torn_frame [OF assms(1,3)])
qed

text \<open>Apart from the events of a subscription, no step touches what go-stomp has queued or where a bridge is.\<close>

lemma ses_bridges:
  assumes "ses_inv S" "ses_step gs act S = Some S'" "\<And>i ev. act \<noteq> SConn i ev" "\<not> ses_subscribes act" "a < length (ses_link S)"
  shows "ses_link S' = ses_link S \<and> bridge_left h (sub_of S' a) = bridge_left h (sub_of S a)"
proof -
  note D = ses_invD [OF assms(1)]
  have i: "ses_link S ! a < length (sc_subs (ses_conn S))" using D(5) assms(5) by simp
  have take: "bridge_left h (sc_subs (sub_event_step j Take c) ! k) = bridge_left h (sc_subs c ! k)" for j k and c :: "'a sconn"
    by (cases "j < length (sc_subs c)"; cases "k = j")
      (auto simp: sub_event_step_def update_sub_def bridge_left_def list_update_beyond split: option.splits recv_result.splits)
  have unsub: "bridge_left h (sc_subs c ! (ses_link S ! a)) = bridge_left h (sub_of S a)"
    if "sub_Unsubscribe_stomp gs j (ses_conn S) = (r, c)" "j < length (sc_subs (ses_conn S))" for j r c
    using Unsubscribe_quiet [OF that(2,1) i] by (simp add: quiet_sub_def bridge_left_def)
  show ?thesis
  proof (cases act)
    case (SCallUnsubscribe s)
    with assms(2) obtain e c where u: "sub_Unsubscribe_stomp gs (ses_link S ! s) (ses_conn S) = (Ret e, c)"
      "s \<in> set (pending (ses_rtr S))" "ses_conn S' = c" "ses_link S' = ses_link S"
      by (auto simp: ses_CallUnsubscribe_def split: option.splits prod.splits outcome.splits if_splits)
    with unsub [OF u(1)] D(5,7) show ?thesis by simp
  next
    case (SReader hs b)
    with assms(2) take show ?thesis by (auto simp: ses_readLoop_def split: option.splits)
  next
    case (SOtherSubscribe ctx d)
    obtain res c where c: "stomp_Subscribe gs ctx d (ses_conn S) = (res, c)" by fastforce
    from Subscribe_keeps [OF D(2) c] have "sc_subs c ! (ses_link S ! a) = sub_of S a"
      using i by (auto simp: nth_append split: sum.splits)
    with SOtherSubscribe c assms(2) show ?thesis by auto
  next
    case (SOtherUnsubscribe j)
    with assms(2) unsub show ?thesis by (auto simp: foreign_sub_def split: if_splits prod.splits outcome.splits)
  next
    case (SOtherTake j)
    with assms(2) take show ?thesis by (auto split: if_splits)
  next
    case (SSend d ct b hs)
    with assms(2) show ?thesis by (auto simp: stomp_Send_def split: prod.splits option.splits)
  qed (use assms in \<open>auto simp: on_router_def\<close>)
qed

lemma session_work_split:
  "session_work S = close_work (ses_rtr S) + (\<Sum>a < length (readers (ses_rtr S)). bridge_left (handlers_of (ses_rtr S) a) (sub_of S a))"
  by (simp add: session_work_def close_work_def ses_left_def sum.distrib)

lemma ses_work_others:
  assumes "ses_torn S" "ses_step gs act S = Some S'" "\<And>i ev. act \<noteq> SConn i ev" "\<not> ses_subscribes act"
  shows "session_work S' + (if ses_works act S then 1 else 0) \<le> session_work S \<and> push_work S' = push_work S"
proof -
  have I: "ses_inv S" and T: "torn (ses_rtr S)" using assms(1) by (simp_all add: ses_torn_def)
  have b: "bridge_left h (sub_of S' a) = bridge_left h (sub_of S a)" if "a < length (readers (ses_rtr S))" for a h
    using ses_bridges [OF I assms(2,3,4)] that ses_invD(8) [OF I] by metis
  from ses_router_action [OF assms(2,4)] assms(3) consider
    (r) ract where "\<not> subscribes ract" "\<not> delivers ract" "router_step ract (ses_rtr S) = Some (ses_rtr S')" "tears_down ract \<longleftrightarrow> ses_works act S"
    | (s) "ses_rtr S' = ses_rtr S" "\<not> ses_works act S" by metis
  then show ?thesis
  proof cases
    case r
    note h = torn_handlers [OF T r(1,3)]
    have "(\<Sum>a < length (readers (ses_rtr S')). bridge_left (handlers_of (ses_rtr S') a) (sub_of S' a))
      = (\<Sum>a < length (readers (ses_rtr S)). bridge_left (handlers_of (ses_rtr S) a) (sub_of S a))"
      by (rule sum.cong) (simp_all add: h b)
    with work_router_step [OF T r(1,3)] message_work_step [OF T r(1,3)] r(2,4) show ?thesis
      by (simp add: session_work_split push_work_def)
  next
    case s
    have "(\<Sum>a < length (readers (ses_rtr S)). bridge_left (handlers_of (ses_rtr S) a) (sub_of S' a))
      = (\<Sum>a < length (readers (ses_rtr S)). bridge_left (handlers_of (ses_rtr S) a) (sub_of S a))"
      by (rule sum.cong) (simp_all add: b)
    with s show ?thesis by (simp add: session_work_split push_work_def)
  qed
qed

lemma ses_work_conn:
  assumes "ses_torn S" "ses_step gs (SConn i ev) S = Some S'"
  shows "session_work S' + (if ses_works (SConn i ev) S then 1 else 0)
      \<le> session_work S + (if ses_pushes (SConn i ev :: 'h ses_action) then push_work S else 0) \<and> push_work S' = push_work (S :: ('g, 'h) session)"
proof -
  have I: "ses_inv S" using assms(1) by (simp add: ses_torn_def)
  note D = ses_invD [OF I]
  define c where "c = fst (stomp_event_step gs i ev (ses_conn S, None))"
  have i: "i < length (sc_subs (ses_conn S))" and S': "S' = sync (S\<lparr>ses_conn := c\<rparr>)"
    using assms(2) by (auto simp: c_def split: if_splits)
  have I': "ses_inv S'" and same: "same_readers S S'" and conn: "ses_conn S' = c"
    using ses_step_sound [OF I assms(2)] by (simp_all add: S' sync_def same_readers_def)
  have others: "sc_subs c ! j = sc_subs (ses_conn S) ! j" if "j < length (sc_subs (ses_conn S))" "j \<noteq> i" for j
    using stomp_event_frame [OF i, of gs ev None] that by (simp add: c_def sub_frame_def)
  have push: "push_work S' = push_work S" using same by (simp add: push_work_def message_work_def same_readers_def)
  show ?thesis
  proof (cases "i \<in> set (ses_link S)")
    case False
    have "session_work S' = session_work S"
    proof (rule work_same [OF I I' same])
      fix a
      assume "a < length (ses_link S)"
      with False D(5) others [of "ses_link S ! a"] conn same show "sub_left (handlers_of (ses_rtr S) a) (sub_of S' a)
        = sub_left (handlers_of (ses_rtr S) a) (sub_of S a)" by (simp add: same_readers_def) (metis nth_mem)
    qed
    with False push show ?thesis by (cases ev) auto
  next
    case True
    then obtain a where a: "a < length (ses_link S)" "ses_link S ! a = i" by (auto simp: in_set_conv_nth)
    let ?h = "handlers_of (ses_rtr S) a"
    have w: "session_work S' + sub_left ?h (sub_of S a) = session_work S + sub_left ?h (sub_of S' a)"
      by (rule work_one [OF I I' same a(1)]) (use others conn a(2) in auto)
    have "?h \<le> (\<Sum>b < length (readers (ses_rtr S)). handlers_of (ses_rtr S) b)"
      using a(1) D(8) by (intro member_le_sum) auto
    then have "?h + 5 \<le> push_work S" by (simp add: push_work_def message_work_def)
    moreover have "sub_of S a = sc_subs (ses_conn S) ! i" "sub_of S' a = sc_subs c ! i"
      using a(2) conn same by (simp_all add: same_readers_def)
    ultimately show ?thesis
      using w event_left [OF D(2) i c_def, of ?h] push True by (cases ev) (auto split: if_splits)
  qed
qed

lemma ses_work_step:
  assumes "ses_torn S" "\<not> ses_subscribes act" "ses_step gs act S = Some S'"
  shows "session_work S' + (if ses_works act S then 1 else 0) \<le> session_work S + (if ses_pushes act then push_work S else 0)"
    and "push_work S' = push_work S"
proof -
  have "session_work S' + (if ses_works act S then 1 else 0) \<le> session_work S + (if ses_pushes act then push_work S else 0)
    \<and> push_work S' = push_work S"
  proof (cases "\<exists>i ev. act = SConn i ev")
    case True
    with ses_work_conn [OF assms(1)] assms(3) show ?thesis by blast
  next
    case False
    with ses_work_others [OF assms(1,3) _ assms(2)] show ?thesis by (auto intro: le_SucI trans_le_add1)
  qed
  then show "session_work S' + (if ses_works act S then 1 else 0) \<le> session_work S + (if ses_pushes act then push_work S else 0)"
    and "push_work S' = push_work S" by blast+
qed

interpretation scl: draining "ses_step gs" ses_torn "\<lambda>act. \<not> ses_subscribes act" ses_works ses_pushes session_work push_work for gs
  by unfold_locales (fact ses_torn_step, fact ses_work_step(2), fact ses_work_step(1))

section \<open>Close returns\<close>

lemma bridge_can_stop: "bridge_inv s \<Longrightarrow> ss_stop s \<Longrightarrow> \<not> ch_closed (ss_ch s) \<Longrightarrow> bridge_step OnStop s \<noteq> None"
  by (cases "ss_pc s") (auto simp: bridge_inv_def bridge_steps)

lemma ses_stuck_returns:
  assumes "ses_torn S" "no_foreign_panic gs" "\<And>act. ses_works act S \<Longrightarrow> ses_step gs act S = None"
  shows "ses_step gs SCloseReturn S = Some S"
proof -
  have S: "ses_inv S" and T: "torn (ses_rtr S)" using assms(1) by (simp_all add: ses_torn_def)
  note D = ses_invD [OF S]
  have "router_step act (ses_rtr S) = None" if "tears_down act" "\<And>s. act = DoPeerClose s \<Longrightarrow> s \<in> set (called (ses_rtr S))" for act
  proof (cases act)
    case (DoReader hs a)
    with assms(3) [of "SReader hs a"] show ?thesis by (simp add: ses_readLoop_def split: option.splits)
  next
    case (DoCallUnsubscribe s)
    obtain e c where "sub_Unsubscribe_stomp gs (ses_link S ! s) (ses_conn S) = (Ret e, c)"
      using Unsubscribe_returns [OF assms(2)] by blast
    with assms(3) [of "SCallUnsubscribe s"] DoCallUnsubscribe show ?thesis by (simp add: ses_CallUnsubscribe_def split: option.splits if_splits)
  next
    case (DoPeerClose s)
    with that(2) D(7) have s: "s \<in> set (called (ses_rtr S))" "s < length (ses_link S)" by auto
    show ?thesis
    proof (rule ccontr)
      assume "router_step act (ses_rtr S) \<noteq> None"
      with DoPeerClose D(3) s(2) have "\<not> ch_closed (ss_ch (sub_of S s))" by (auto split: if_splits)
      moreover have "ss_stop (sub_of S s)" "bridge_inv (sub_of S s)"
        using D(6) [OF s(2)] s(1) stomp_inv_sub [OF D(2) D(5) [OF nth_mem [OF s(2)]]] by (simp_all add: linked_ok_def)
      ultimately have "ses_works (SConn (ses_link S ! s) (EvBridge OnStop)) S" using bridge_can_stop s(2) by simp
      from assms(3) [OF this] D(5) [OF nth_mem [OF s(2)]] show False by simp
    qed
  qed (use that(1) in simp_all)
  from stuck_close_returns [OF T this] show ?thesis by (simp add: on_router_def)
qed

lemma closing_ok_reach:
  assumes "reach router_step (NewWithErrorChan (Some ec)) r"
  shows "closing_ok r"
  using assms
proof (induction rule: reach.induct)
  case reach_start
  then show ?case by (simp add: closing_ok_def NewWithErrorChan_def)
qed (rule closing_ok_step)


definition session_teardown :: "nat ses_action list" where
  "session_teardown = [SCallUnsubscribe 0, SConn 0 (EvBridge OnStop), SReader [] 0, SReader [] 0, SReader [] 0, SReader [] 0, SReader [] 0]"

lemma teardown_run:
  "\<exists>S1 S2. ses_step calm_gostomp SClose ses1 = Some S1 \<and> session_work S1 = 43
     \<and> run_actions (ses_step calm_gostomp) session_teardown S1 = Some S2
     \<and> readers (ses_rtr S2) = [\<lparr>rd_dest = ''/queue/a'', rd_pc = ReadDone\<rparr>] \<and> pending (ses_rtr S2) = [] \<and> ses_link S2 = [0]
     \<and> ss_pc (sc_subs (ses_conn S2) ! 0) = BrLoop \<and> ch_buf (ss_src (sc_subs (ses_conn S2) ! 0)) = []
     \<and> \<not> ch_closed (ss_src (sc_subs (ses_conn S2) ! 0)) \<and> \<not> ss_out (sc_subs (ses_conn S2) ! 0)"
  by (simp add: ses_run_eval ses1_def session_teardown_def session_work_def ses_left_def reader_left_def bridge_left_def)


end
