(* ===== verification/BusCalls.thy ===== *)
theory BusCalls
  imports Fieldbus
begin

text \<open>
  The package fieldbus under concurrent calls. A method of the bus reads or changes the bus under its
  mutex and then works on the router and connection it found there, with the mutex released; so a
  call may still be using a session that a Disconnect has meanwhile taken from the bus, while a
  Connect has put the next one there. Sessions live on a heap, a list of routers indexed by the
  number of the session, which is also the number of its connection. All of them publish on the one
  error channel of the bus. A call in progress has the session it captured and the point it reached.
\<close>

section \<open>State\<close>

datatype 'h bcall =
    CSubscribe nat string 'h
  | CUnsubscribe nat string token
  | CSend nat string headers
  | CRequest nat string headers
  | CDisconnect "nat option" "nat option"
  | CCloseWait nat "nat option"
  | CConnDisconnect "nat option"
  | CReturned

text \<open>
  \<open>cb_closed\<close>, \<open>cb_disc\<close>, \<open>cb_sent\<close> and \<open>cb_asked\<close> record the routers whose Close has returned, the connections whose
  Disconnect was called, the Send calls and the requests made, each in order.
\<close>

record 'h cbus =
  cb_cfg :: Config
  cb_conn :: "nat option"
  cb_rtr :: "nat option"
  cb_connected :: bool
  cb_subject :: string
  cb_errs :: "goerr chan"
  cb_rtrs :: "'h router list"
  cb_calls :: "'h bcall list"
  cb_closed :: "nat list"
  cb_disc :: "nat list"
  cb_sent :: "(nat \<times> string \<times> headers) list"
  cb_asked :: "(nat \<times> string \<times> headers) list"

definition cbus_New :: "Config \<Rightarrow> 'h cbus" where
  "cbus_New cfg =
     \<lparr>cb_cfg = cfg, cb_conn = None, cb_rtr = None, cb_connected = False, cb_subject = [],
      cb_errs = make_chan ErrorChanBuffer, cb_rtrs = [], cb_calls = [], cb_closed = [], cb_disc = [], cb_sent = [], cb_asked = []\<rparr>"

text \<open>A router of the heap with the shared error channel, and what a step of it leaves behind.\<close>

definition rtr_at :: "'h cbus \<Rightarrow> nat \<Rightarrow> 'h router" where
  "rtr_at b i = (cb_rtrs b ! i)\<lparr>errs := cb_errs b\<rparr>"

definition put_rtr :: "nat \<Rightarrow> 'h router \<Rightarrow> 'h cbus \<Rightarrow> 'h cbus" where
  "put_rtr i r b = b\<lparr>cb_rtrs := (cb_rtrs b)[i := r], cb_errs := errs r\<rparr>"

definition on_rtr :: "nat \<Rightarrow> 'h action \<Rightarrow> 'h cbus \<Rightarrow> 'h cbus option" where
  "on_rtr i act b =
     (if i < length (cb_rtrs b) then map_option (\<lambda>r. put_rtr i r b) (router_step act (rtr_at b i)) else None)"

section \<open>The calls\<close>

text \<open>\<open>Connect\<close> holds the mutex throughout: one step.\<close>

definition cbus_Connect :: "goerr option \<Rightarrow> 'h cbus \<Rightarrow> goerr option \<times> 'h cbus" where
  "cbus_Connect res b =
     (if cb_connected b then (None, b)
      else
        (case res of
           Some e \<Rightarrow> (Some (Errorf ''fieldbus connect: %w'' [] [e]), b)
         | None \<Rightarrow>
             (let i = length (cb_rtrs b) in
              (None, b\<lparr>cb_conn := Some i, cb_rtr := Some i,
                       cb_rtrs := cb_rtrs b @ [NewWithErrorChan (Some (cb_errs b))],
                       cb_subject := cfg_User (cb_cfg b), cb_connected := True\<rparr>))))"

definition start_call :: "'h bcall \<Rightarrow> 'h cbus \<Rightarrow> 'h cbus" where
  "start_call c b = b\<lparr>cb_calls := cb_calls b @ [c]\<rparr>"

definition set_call :: "nat \<Rightarrow> 'h bcall \<Rightarrow> 'h cbus \<Rightarrow> 'h cbus" where
  "set_call k c b = b\<lparr>cb_calls := (cb_calls b)[k := c]\<rparr>"

text \<open>The part of each other method under the mutex: what it captures.\<close>

definition begin_Subscribe :: "string \<Rightarrow> 'h \<Rightarrow> 'h cbus \<Rightarrow> 'h cbus" where
  "begin_Subscribe destination h b =
     start_call (case cb_rtr b of None \<Rightarrow> CReturned | Some i \<Rightarrow> CSubscribe i (NormalizeDestination destination) h) b"

definition begin_Unsubscribe :: "string \<Rightarrow> token \<Rightarrow> 'h cbus \<Rightarrow> 'h cbus" where
  "begin_Unsubscribe destination tok b =
     start_call (case cb_rtr b of None \<Rightarrow> CReturned | Some i \<Rightarrow> CUnsubscribe i (NormalizeDestination destination) tok) b"

definition begin_Send :: "string \<Rightarrow> 'h cbus \<Rightarrow> 'h cbus" where
  "begin_Send destination b =
     start_call (case cb_conn b of
       None \<Rightarrow> CReturned
     | Some j \<Rightarrow> CSend j (NormalizeDestination destination) (goss_headers (cb_subject b))) b"

text \<open>\<open>GetResponse\<close> qualifies the destination itself, after it was given the connection.\<close>

definition begin_GetResponse :: "string \<Rightarrow> 'h cbus \<Rightarrow> 'h cbus" where
  "begin_GetResponse destination b =
     start_call (case cb_conn b of
       None \<Rightarrow> CReturned
     | Some j \<Rightarrow> CRequest j destination (goss_headers (cb_subject b))) b"

definition begin_Disconnect :: "'h cbus \<Rightarrow> 'h cbus" where
  "begin_Disconnect b =
     (start_call (CDisconnect (cb_rtr b) (cb_conn b)) b)\<lparr>cb_rtr := None, cb_conn := None, cb_connected := False\<rparr>"

section \<open>Steps\<close>

text \<open>
  \<open>BRun\<close> is the next step of a call in progress, \<open>BOwn\<close> what a router does on its own, its pending
  Unsubscribe calls included: the call of a subscription's Unsubscribe that a CUnsubscribe or a Close
  decided on is such a step. \<open>res\<close> and \<open>n\<close> are the results of the transport's Subscribe.
\<close>

datatype 'h cbus_action =
    BegConnect "goerr option"
  | BegSubscribe string 'h
  | BegUnsubscribe string token
  | BegSend string
  | BegGetResponse string
  | BegDisconnect
  | BRun nat "goerr option" nat
  | BOwn nat "'h action"

fun background :: "'h action \<Rightarrow> bool" where
  "background (DoCallUnsubscribe s) = True"
| "background act = own_action act"

definition run_call :: "nat \<Rightarrow> goerr option \<Rightarrow> nat \<Rightarrow> 'h cbus \<Rightarrow> 'h cbus option" where
  "run_call k res n b =
     (if k < length (cb_calls b) then
        (case cb_calls b ! k of
           CSubscribe i dest h \<Rightarrow> map_option (set_call k CReturned) (on_rtr i (DoSubscribe dest h res n) b)
         | CUnsubscribe i dest tok \<Rightarrow> map_option (set_call k CReturned) (on_rtr i (DoUnsubscribe dest tok) b)
         | CSend j dest hs \<Rightarrow> Some (set_call k CReturned (b\<lparr>cb_sent := cb_sent b @ [(j, dest, hs)]\<rparr>))
         | CRequest j dest hs \<Rightarrow> Some (set_call k CReturned (b\<lparr>cb_asked := cb_asked b @ [(j, dest, hs)]\<rparr>))
         | CDisconnect ro cn \<Rightarrow>
             (case ro of
                None \<Rightarrow> Some (set_call k (CConnDisconnect cn) b)
              | Some i \<Rightarrow> map_option (set_call k (CCloseWait i cn)) (on_rtr i DoClose b))
         | CCloseWait i cn \<Rightarrow>
             map_option (\<lambda>b'. set_call k (CConnDisconnect cn) (b'\<lparr>cb_closed := cb_closed b' @ [i]\<rparr>))
               (on_rtr i DoCloseReturn b)
         | CConnDisconnect cn \<Rightarrow>
             Some (set_call k CReturned (b\<lparr>cb_disc := cb_disc b @ (case cn of None \<Rightarrow> [] | Some j \<Rightarrow> [j])\<rparr>))
         | CReturned \<Rightarrow> None)
      else None)"

fun cbus_step :: "'h cbus_action \<Rightarrow> 'h cbus \<Rightarrow> 'h cbus option" where
  "cbus_step (BegConnect res) b = Some (snd (cbus_Connect res b))"
| "cbus_step (BegSubscribe dest h) b = Some (begin_Subscribe dest h b)"
| "cbus_step (BegUnsubscribe dest tok) b = Some (begin_Unsubscribe dest tok b)"
| "cbus_step (BegSend dest) b = Some (begin_Send dest b)"
| "cbus_step (BegGetResponse dest) b = Some (begin_GetResponse dest b)"
| "cbus_step BegDisconnect b = Some (begin_Disconnect b)"
| "cbus_step (BRun k res n) b = run_call k res n b"
| "cbus_step (BOwn i act) b =
     (if background act then on_rtr i act b else None)"

section \<open>The invariant\<close>

definition opt :: "nat option \<Rightarrow> nat list" where
  "opt x = (case x of None \<Rightarrow> [] | Some i \<Rightarrow> [i])"

text \<open>The session a Disconnect has taken from the bus and not yet ended.\<close>

fun holds :: "'h bcall \<Rightarrow> nat list" where
  "holds (CDisconnect ro cn) = opt cn"
| "holds (CCloseWait i cn) = opt cn"
| "holds (CConnDisconnect cn) = opt cn"
| "holds _ = []"

fun call_ok :: "'h cbus \<Rightarrow> 'h bcall \<Rightarrow> bool" where
  "call_ok b (CSubscribe i dest h) = (i < length (cb_rtrs b))"
| "call_ok b (CUnsubscribe i dest tok) = (i < length (cb_rtrs b))"
| "call_ok b (CSend j dest hs) = (j < length (cb_rtrs b) \<and> hs = goss_headers (cfg_User (cb_cfg b)))"
| "call_ok b (CRequest j dest hs) = (j < length (cb_rtrs b) \<and> hs = goss_headers (cfg_User (cb_cfg b)))"
| "call_ok b (CDisconnect ro cn) = (ro = cn \<and> (\<forall>i \<in> set (opt ro). i < length (cb_rtrs b) \<and> closing (cb_rtrs b ! i) = []))"
| "call_ok b (CCloseWait i cn) = (cn = Some i \<and> i < length (cb_rtrs b))"
| "call_ok b (CConnDisconnect cn) = (set (opt cn) \<subseteq> set (cb_closed b))"
| "call_ok b CReturned = True"

definition heap_ok :: "'h cbus \<Rightarrow> bool" where
  "heap_ok b \<longleftrightarrow>
     (\<forall>i < length (cb_rtrs b). router_inv2 (rtr_at b i))
     \<and> chan_ok (cb_errs b) \<and> \<not> ch_closed (cb_errs b) \<and> ch_cap (cb_errs b) = ErrorChanBuffer"

text \<open>
  The heart of it is the last but one clause: every session there has been is on the bus, or in the
  hands of exactly one Disconnect, or had its connection disconnected, and never two of these.
\<close>

definition cbus_inv :: "'h cbus \<Rightarrow> bool" where
  "cbus_inv b \<longleftrightarrow>
     (cb_connected b \<longleftrightarrow> cb_rtr b \<noteq> None) \<and> cb_conn b = cb_rtr b
     \<and> (cb_connected b \<longrightarrow> cb_subject b = cfg_User (cb_cfg b))
     \<and> heap_ok b
     \<and> (\<forall>i \<in> set (opt (cb_rtr b)). closing (cb_rtrs b ! i) = [])
     \<and> (\<forall>c \<in> set (cb_calls b). call_ok b c)
     \<and> mset (opt (cb_rtr b) @ concat (map holds (cb_calls b)) @ cb_disc b) = mset [0..<length (cb_rtrs b)]
     \<and> set (cb_disc b) \<subseteq> set (cb_closed b)"

lemma opt_simps [simp]: "opt None = []" "opt (Some i) = [i]"
  by (simp_all add: opt_def)

lemma router_inv2_errs: "router_inv2 r \<Longrightarrow> chan_ok c \<Longrightarrow> \<not> ch_closed c \<Longrightarrow> router_inv2 (r\<lparr>errs := c\<rparr>)"
  by (auto simp: router_inv2_def intro: inv_errs)

lemma heap_ok_append:
  assumes "heap_ok b" "cb_rtrs b' = cb_rtrs b @ [NewWithErrorChan (Some (cb_errs b))]" "cb_errs b' = cb_errs b"
  shows "heap_ok b'"
proof -
  have "router_inv2 ((NewWithErrorChan (Some (cb_errs b)))\<lparr>errs := cb_errs b\<rparr>)"
    using assms(1) inv_New [of "cb_errs b"] by (simp add: heap_ok_def router_inv2_def NewWithErrorChan_def)
  with assms show ?thesis by (auto simp: heap_ok_def rtr_at_def nth_append less_Suc_eq)
qed

lemma heap_ok_fields [simp]:
  "heap_ok (b\<lparr>cb_calls := cs\<rparr>) = heap_ok b" "heap_ok (b\<lparr>cb_closed := xs\<rparr>) = heap_ok b"
  "heap_ok (b\<lparr>cb_disc := xs\<rparr>) = heap_ok b" "heap_ok (b\<lparr>cb_sent := ys\<rparr>) = heap_ok b"
  "heap_ok (b\<lparr>cb_asked := ys\<rparr>) = heap_ok b"
  "heap_ok (b\<lparr>cb_rtr := o1\<rparr>) = heap_ok b" "heap_ok (b\<lparr>cb_conn := o1\<rparr>) = heap_ok b"
  "heap_ok (b\<lparr>cb_connected := p\<rparr>) = heap_ok b" "heap_ok (b\<lparr>cb_subject := s\<rparr>) = heap_ok b"
  by (simp_all add: heap_ok_def rtr_at_def)

text \<open>What a step of one router changes.\<close>

lemma on_rtr_Some:
  assumes "on_rtr i act b = Some b'"
  obtains r where "i < length (cb_rtrs b)" "router_step act (rtr_at b i) = Some r" "b' = put_rtr i r b"
  using assms by (auto simp: on_rtr_def split: if_splits)

lemma put_rtr_sel [simp]:
  "cb_cfg (put_rtr i r b) = cb_cfg b" "cb_conn (put_rtr i r b) = cb_conn b" "cb_rtr (put_rtr i r b) = cb_rtr b"
  "cb_connected (put_rtr i r b) = cb_connected b" "cb_subject (put_rtr i r b) = cb_subject b"
  "cb_errs (put_rtr i r b) = errs r" "cb_rtrs (put_rtr i r b) = (cb_rtrs b)[i := r]"
  "cb_calls (put_rtr i r b) = cb_calls b" "cb_closed (put_rtr i r b) = cb_closed b"
  "cb_disc (put_rtr i r b) = cb_disc b" "cb_sent (put_rtr i r b) = cb_sent b" "cb_asked (put_rtr i r b) = cb_asked b"
  by (simp_all add: put_rtr_def)

lemma heap_ok_put:
  assumes "heap_ok b" "router_step act (rtr_at b i) = Some r" "i < length (cb_rtrs b)"
  shows "heap_ok (put_rtr i r b)"
proof -
  have R: "router_inv2 r" using assms rt2.inv_step by (auto simp: heap_ok_def)
  then have e: "chan_ok (errs r)" "\<not> ch_closed (errs r)" by (simp_all add: router_inv2_def router_inv_def)
  have "ch_cap (errs r) = ch_cap (cb_errs b)" using errs_cap_step [OF assms(2)] by (simp add: rtr_at_def)
  moreover have "router_inv2 (rtr_at (put_rtr i r b) j)" if "j < length (cb_rtrs b)" for j
    using that assms(1,3) R e router_inv2_errs [of "rtr_at b j" "errs r"]
    by (cases "j = i") (simp_all add: rtr_at_def heap_ok_def)
  ultimately show ?thesis using assms(1) e by (simp add: heap_ok_def)
qed

lemma concat_once:
  "distinct (concat (map f cs)) \<Longrightarrow> j < length cs \<Longrightarrow> k < length cs \<Longrightarrow> x \<in> set (f (cs ! j)) \<Longrightarrow> x \<in> set (f (cs ! k)) \<Longrightarrow> j = k"
proof (induction cs arbitrary: j k)
  case (Cons c cs)
  have "\<And>i. i < length cs \<Longrightarrow> x \<in> set (f (cs ! i)) \<Longrightarrow> x \<notin> set (f c)"
    using Cons.prems(1) nth_mem by fastforce
  with Cons show ?case by (cases j; cases k) auto
qed simp

lemma concat_update:
  "k < length cs \<Longrightarrow> mset (concat (map f (cs[k := c]))) + mset (f (cs ! k)) = mset (concat (map f cs)) + mset (f c)"
proof (induction cs arbitrary: k)
  case (Cons c' cs)
  then show ?case by (cases k) (auto simp: ac_simps)
qed simp

lemma multiset_exchange: "x + h0 = x0 + h \<Longrightarrow> h + d' = h0 + d \<Longrightarrow> x + d' = x0 + (d :: 'm multiset)"
proof -
  assume "x + h0 = x0 + h" "h + d' = h0 + d"
  then have "(x + d') + h0 = (x0 + d) + h0" by (metis add.assoc add.commute)
  then show ?thesis by simp
qed

lemma call_ok_mono:
  assumes "call_ok b c" "cb_cfg b' = cb_cfg b" "length (cb_rtrs b) \<le> length (cb_rtrs b')" "set (cb_closed b) \<subseteq> set (cb_closed b')"
    "\<And>i. i < length (cb_rtrs b) \<Longrightarrow> i \<in> set (holds c) \<Longrightarrow> closing (cb_rtrs b' ! i) = closing (cb_rtrs b ! i)"
  shows "call_ok b' c"
  using assms by (cases c) (auto simp: opt_def split: option.splits)

lemma cbus_invD:
  assumes "cbus_inv b"
  shows "cb_connected b \<longleftrightarrow> cb_rtr b \<noteq> None" "cb_conn b = cb_rtr b" "cb_connected b \<Longrightarrow> cb_subject b = cfg_User (cb_cfg b)"
    "heap_ok b" "\<And>i. cb_rtr b = Some i \<Longrightarrow> closing (cb_rtrs b ! i) = []" "\<And>k. k < length (cb_calls b) \<Longrightarrow> call_ok b (cb_calls b ! k)"
    "mset (opt (cb_rtr b) @ concat (map holds (cb_calls b)) @ cb_disc b) = mset [0..<length (cb_rtrs b)]"
    "set (cb_disc b) \<subseteq> set (cb_closed b)"
    "distinct (opt (cb_rtr b) @ concat (map holds (cb_calls b)) @ cb_disc b)"
    "\<And>i. cb_rtr b = Some i \<Longrightarrow> i < length (cb_rtrs b)"
proof -
  show M: "mset (opt (cb_rtr b) @ concat (map holds (cb_calls b)) @ cb_disc b) = mset [0..<length (cb_rtrs b)]"
    using assms by (simp add: cbus_inv_def)
  from mset_eq_imp_distinct_iff [OF this] show "distinct (opt (cb_rtr b) @ concat (map holds (cb_calls b)) @ cb_disc b)" by simp
  show "i < length (cb_rtrs b)" if "cb_rtr b = Some i" for i
    using mset_eq_setD [OF M] that by (auto simp: set_eq_iff)
qed (use assms in \<open>auto simp: cbus_inv_def\<close>)

text \<open>A call moves on, and possibly a router with it; what it holds is unchanged or handed to the record of disconnects.\<close>

lemma cbus_inv_move:
  assumes I: "cbus_inv b" and k: "k < length (cb_calls b)" and h: "heap_ok b'"
    and same: "cb_cfg b' = cb_cfg b" "cb_conn b' = cb_conn b" "cb_rtr b' = cb_rtr b" "cb_connected b' = cb_connected b"
      "cb_subject b' = cb_subject b" "length (cb_rtrs b') = length (cb_rtrs b)" "cb_calls b' = (cb_calls b)[k := c]"
    and clo: "\<And>i. i < length (cb_rtrs b) \<Longrightarrow> i \<notin> set (holds (cb_calls b ! k)) \<Longrightarrow> closing (cb_rtrs b' ! i) = closing (cb_rtrs b ! i)"
    and closed: "set (cb_closed b) \<subseteq> set (cb_closed b')" "set (cb_disc b') \<subseteq> set (cb_closed b')"
    and c: "call_ok b' c" and m: "mset (holds c @ cb_disc b') = mset (holds (cb_calls b ! k) @ cb_disc b)"
  shows "cbus_inv b'"
proof -
  note D = cbus_invD [OF I]
  have once: "j = k" if "j < length (cb_calls b)" "i \<in> set (holds (cb_calls b ! j))" "i \<in> set (holds (cb_calls b ! k))" for i j
    using concat_once [of holds "cb_calls b" j k i] D(9) that k by simp
  have "call_ok b' ((cb_calls b)[k := c] ! j)" if j: "j < length (cb_calls b)" for j
  proof (cases "j = k")
    case False
    with j once have "\<And>i. i \<in> set (holds (cb_calls b ! j)) \<Longrightarrow> i \<notin> set (holds (cb_calls b ! k))" by blast
    with call_ok_mono [OF D(6) [OF j], of b'] same closed(1) clo False show ?thesis by simp
  qed (use c k in simp)
  then have calls: "\<forall>c' \<in> set (cb_calls b'). call_ok b' c'" by (auto simp: same(7) in_set_conv_nth)
  have "closing (cb_rtrs b' ! i) = []" if i: "cb_rtr b = Some i" for i
  proof -
    have "i \<notin> set (holds (cb_calls b ! k))" using D(9) i nth_mem [OF k] by auto
    with clo D(5,10) i show ?thesis by simp
  qed
  moreover have "mset (concat (map holds (cb_calls b'))) + mset (cb_disc b') = mset (concat (map holds (cb_calls b))) + mset (cb_disc b)"
    using multiset_exchange [OF concat_update [OF k, of holds c]] m by (simp add: same(7))
  then have "mset (opt (cb_rtr b') @ concat (map holds (cb_calls b')) @ cb_disc b') = mset [0..<length (cb_rtrs b')]"
    using D(7) by (simp add: same(3,6))
  ultimately show ?thesis using D(1-3,8) h calls closed same by (auto simp: cbus_inv_def opt_def split: option.splits)
qed

text \<open>A step of a router that is not the start of a Close, with or without a call that ends with it.\<close>

lemma cbus_inv_own:
  assumes "cbus_inv b" "on_rtr i act b = Some b'" "act \<noteq> DoClose"
  shows "cbus_inv b'"
proof -
  note D = cbus_invD [OF assms(1)]
  from assms(2) obtain r where r: "i < length (cb_rtrs b)" "router_step act (rtr_at b i) = Some r" "b' = put_rtr i r b"
    by (rule on_rtr_Some)
  have clo: "closing (cb_rtrs b' ! j) = closing (cb_rtrs b ! j)" for j
    using closing_step [OF r(2) assms(3)] r(1,3) by (cases "j = i") (simp_all add: rtr_at_def)
  have "call_ok b' c" if "c \<in> set (cb_calls b)" for c
    using call_ok_mono [of b c b'] assms(1) that r clo by (simp add: cbus_inv_def)
  with assms(1) heap_ok_put [OF D(4) r(2,1)] clo r(3) show ?thesis by (simp add: cbus_inv_def)
qed

lemma cbus_inv_return:
  assumes "cbus_inv b" "k < length (cb_calls b)" "holds (cb_calls b ! k) = []"
  shows "cbus_inv (set_call k CReturned b)"
  using assms cbus_invD [OF assms(1)] by (intro cbus_inv_move [OF assms(1,2), where c = CReturned]) (auto simp: set_call_def)

lemma on_rtr_frame: "on_rtr i act b = Some b' \<Longrightarrow> cb_calls b' = cb_calls b \<and> length (cb_rtrs b') = length (cb_rtrs b)"
  by (auto elim: on_rtr_Some)

lemma cbus_inv_close:
  assumes "cbus_inv b" "k < length (cb_calls b)" "cb_calls b ! k = CDisconnect (Some i) cn" "on_rtr i DoClose b = Some b'"
  shows "cbus_inv (set_call k (CCloseWait i cn) b')"
proof -
  note D = cbus_invD [OF assms(1)]
  from assms(4) obtain r where r: "i < length (cb_rtrs b)" "router_step DoClose (rtr_at b i) = Some r" "b' = put_rtr i r b"
    by (rule on_rtr_Some)
  have cn: "cn = Some i" using D(6) [OF assms(2)] assms(3) by simp
  show ?thesis
    using r assms(3) cn D(8) heap_ok_put [OF D(4) r(2,1)]
    by (intro cbus_inv_move [OF assms(1,2), where c = "CCloseWait i cn"]) (auto simp: set_call_def)
qed

lemma cbus_inv_run:
  assumes I: "cbus_inv b" and st: "run_call k res n b = Some b'"
  shows "cbus_inv b'"
proof -
  note D = cbus_invD [OF I]
  have k: "k < length (cb_calls b)" using st by (auto simp: run_call_def split: if_splits)
  note K = D(6) [OF k]
  have ret: "cbus_inv (set_call k CReturned b1)" if "on_rtr i act b = Some b1" "act \<noteq> DoClose" "holds (cb_calls b ! k) = []" for i act b1
    using cbus_inv_return [OF cbus_inv_own [OF I that(1,2)], of k] on_rtr_frame [OF that(1)] that k by simp
  show ?thesis
  proof (cases "cb_calls b ! k")
    case (CSubscribe i dest h)
    with st k show ?thesis by (auto simp: run_call_def intro: ret)
  next
    case (CUnsubscribe i dest tok)
    with st k show ?thesis by (auto simp: run_call_def intro: ret)
  next
    case (CSend j dest hs)
    with st k have "b' = set_call k CReturned (b\<lparr>cb_sent := cb_sent b @ [(j, dest, hs)]\<rparr>)" by (simp add: run_call_def)
    with CSend D(4,8) k show ?thesis
      by (intro cbus_inv_move [OF I k, where c = CReturned]) (auto simp: set_call_def)
  next
    case (CRequest j dest hs)
    with st k have "b' = set_call k CReturned (b\<lparr>cb_asked := cb_asked b @ [(j, dest, hs)]\<rparr>)" by (simp add: run_call_def)
    with CRequest D(4,8) k show ?thesis
      by (intro cbus_inv_move [OF I k, where c = CReturned]) (auto simp: set_call_def)
  next
    case (CDisconnect ro cn)
    show ?thesis
    proof (cases ro)
      case None
      with CDisconnect K st k have "b' = set_call k (CConnDisconnect None) b" by (auto simp: run_call_def)
      with CDisconnect None K D(4,8) show ?thesis
        by (intro cbus_inv_move [OF I k, where c = "CConnDisconnect None"]) (auto simp: set_call_def)
    next
      case (Some i)
      with CDisconnect st k cbus_inv_close [OF I k] show ?thesis by (auto simp: run_call_def)
    qed
  next
    case (CCloseWait i cn)
    with st k obtain b1 where b1: "on_rtr i DoCloseReturn b = Some b1"
      "b' = set_call k (CConnDisconnect cn) (b1\<lparr>cb_closed := cb_closed b1 @ [i]\<rparr>)" by (auto simp: run_call_def)
    have I1: "cbus_inv b1" using cbus_inv_own [OF I b1(1)] by simp
    note D1 = cbus_invD [OF I1]
    from on_rtr_frame [OF b1(1)] CCloseWait k have k1: "k < length (cb_calls b1)" "cb_calls b1 ! k = CCloseWait i cn" by simp_all
    with D1(4,8) K CCloseWait show ?thesis
      by (intro cbus_inv_move [OF I1 k1(1), where c = "CConnDisconnect cn"]) (auto simp: set_call_def b1(2))
  next
    case (CConnDisconnect cn)
    with st k have "b' = set_call k CReturned (b\<lparr>cb_disc := cb_disc b @ opt cn\<rparr>)" by (simp add: run_call_def opt_def)
    with CConnDisconnect D(4,8) K show ?thesis
      by (intro cbus_inv_move [OF I k, where c = CReturned]) (auto simp: set_call_def)
  next
    case CReturned
    with st k show ?thesis by (simp add: run_call_def)
  qed
qed

text \<open>A new call captures the current session, and a Disconnect takes it away.\<close>

lemma cbus_inv_start:
  assumes "cbus_inv b" "call_ok b c" "holds c = []"
  shows "cbus_inv (start_call c b)"
proof -
  have "call_ok (start_call c b) c'" if "call_ok b c'" for c'
    using call_ok_mono [OF that] by (simp add: start_call_def)
  with assms show ?thesis by (auto simp: cbus_inv_def start_call_def)
qed

lemma cbus_inv_Disconnect:
  assumes "cbus_inv b"
  shows "cbus_inv (begin_Disconnect b)"
proof -
  note D = cbus_invD [OF assms]
  let ?c = "CDisconnect (cb_rtr b) (cb_conn b)"
  have "call_ok b ?c" using D(2,5,10) by (auto simp: opt_def split: option.splits)
  moreover have "call_ok (begin_Disconnect b) c'" if "call_ok b c'" for c'
    using call_ok_mono [OF that] by (simp add: begin_Disconnect_def start_call_def)
  ultimately show ?thesis
    using assms D(2,7) by (auto simp: cbus_inv_def begin_Disconnect_def start_call_def ac_simps)
qed

lemma cbus_inv_Connect:
  assumes "cbus_inv b"
  shows "cbus_inv (snd (cbus_Connect res b))"
proof (cases "cb_connected b \<or> res \<noteq> None")
  case True
  with assms show ?thesis by (auto simp: cbus_Connect_def)
next
  case False
  note D = cbus_invD [OF assms]
  let ?b = "snd (cbus_Connect res b)"
  have b: "cb_cfg ?b = cb_cfg b" "cb_calls ?b = cb_calls b" "cb_disc ?b = cb_disc b" "cb_closed ?b = cb_closed b"
    "cb_rtrs ?b = cb_rtrs b @ [NewWithErrorChan (Some (cb_errs b))]" "cb_rtr ?b = Some (length (cb_rtrs b))"
    "cb_conn ?b = Some (length (cb_rtrs b))" "cb_connected ?b" "cb_subject ?b = cfg_User (cb_cfg b)"
    using False by (auto simp: cbus_Connect_def Let_def)
  have "call_ok ?b c" if "c \<in> set (cb_calls b)" for c
    using call_ok_mono [of b c ?b] assms that b by (simp add: cbus_inv_def nth_append)
  moreover have "heap_ok ?b"
    using b(5) False by (intro heap_ok_append [OF D(4)]) (auto simp: cbus_Connect_def Let_def)
  moreover have "cb_rtr b = None" using False D(1) by simp
  ultimately show ?thesis using D(7,8) b by (simp add: cbus_inv_def)
qed

lemma cbus_inv_step:
  assumes "cbus_inv b" "cbus_step act b = Some b'"
  shows "cbus_inv b'"
proof (cases act)
  case (BegSend dest)
  have "call_ok b (case cb_conn b of None \<Rightarrow> CReturned | Some j \<Rightarrow> CSend j (NormalizeDestination dest) (goss_headers (cb_subject b)))"
    using cbus_invD(1-3,10) [OF assms(1)] by (auto split: option.splits)
  with BegSend assms cbus_inv_start [OF assms(1)] show ?thesis by (auto simp: begin_Send_def split: option.splits)
next
  case (BegGetResponse dest)
  have "call_ok b (case cb_conn b of None \<Rightarrow> CReturned | Some j \<Rightarrow> CRequest j dest (goss_headers (cb_subject b)))"
    using cbus_invD(1-3,10) [OF assms(1)] by (auto split: option.splits)
  with BegGetResponse assms cbus_inv_start [OF assms(1)] show ?thesis by (auto simp: begin_GetResponse_def split: option.splits)
next
  case (BOwn i a)
  with assms(2) have "on_rtr i a b = Some b'" "a \<noteq> DoClose" by (auto split: if_splits)
  with cbus_inv_own [OF assms(1)] show ?thesis by blast
qed (use assms cbus_inv_Connect cbus_inv_Disconnect cbus_inv_run cbus_inv_start [OF assms(1)] cbus_invD(10) [OF assms(1)] in
    \<open>auto simp: begin_Subscribe_def begin_Unsubscribe_def split: option.splits\<close>)

interpretation cm: machine cbus_step "cbus_New cfg" cbus_inv for cfg
proof unfold_locales
  show "cbus_inv (cbus_New cfg)" by (simp add: cbus_inv_def cbus_New_def heap_ok_def)
qed (rule cbus_inv_step)

section \<open>A Disconnect in progress\<close>

text \<open>A run of one router is a run of the bus.\<close>

lemma own_run:
  "i < length (cb_rtrs b) \<Longrightarrow> list_all background acts \<Longrightarrow>
     (case run_actions router_step acts (rtr_at b i) of
        None \<Rightarrow> run_actions cbus_step (map (BOwn i) acts) b = None
      | Some r \<Rightarrow> \<exists>b'. run_actions cbus_step (map (BOwn i) acts) b = Some b' \<and> rtr_at b' i = r \<and> cb_errs b' = errs r
          \<and> length (cb_rtrs b') = length (cb_rtrs b) \<and> cb_calls b' = cb_calls b \<and> cb_rtr b' = cb_rtr b \<and> cb_conn b' = cb_conn b
          \<and> cb_connected b' = cb_connected b \<and> cb_subject b' = cb_subject b \<and> cb_cfg b' = cb_cfg b)"
proof (induction acts arbitrary: b)
  case (Cons act acts)
  show ?case
  proof (cases "router_step act (rtr_at b i)")
    case (Some r1)
    let ?b = "put_rtr i r1 b"
    have b1: "cbus_step (BOwn i act) b = Some ?b" "rtr_at ?b i = r1"
      using Cons.prems Some by (simp_all add: on_rtr_def rtr_at_def)
    with Cons.IH [of ?b] Cons.prems Some show ?thesis by (auto split: option.splits)
  qed (use Cons.prems in \<open>simp add: on_rtr_def\<close>)
qed (simp add: rtr_at_def)

lemma told_close_background: "told_close C acts \<Longrightarrow> list_all background acts"
  by (induction C acts rule: told_close.induct) auto

text \<open>The steps that finish a Disconnect: its own and those its Close waits for.\<close>

fun closing_action :: "nat \<Rightarrow> nat \<Rightarrow> 'h cbus_action \<Rightarrow> bool" where
  "closing_action k i (BRun j res n) = (j = k)"
| "closing_action k i (BOwn j act) = (j = i \<and> background act)"
| "closing_action k i _ = False"

lemma run_Disconnect:
  assumes "cbus_inv b" "k < length (cb_calls b)" "cb_calls b ! k = CDisconnect (Some i) cn"
  shows "\<exists>acts b'. run_actions cbus_step acts b = Some b' \<and> cb_calls b' ! k = CReturned \<and> list_all (closing_action k i) acts
    \<and> k < length (cb_calls b')"
proof -
  note D = cbus_invD [OF assms(1)]
  from D(6) [OF assms(2)] assms(3) have i: "i < length (cb_rtrs b)" "closing (cb_rtrs b ! i) = []" by simp_all
  have "router_inv2 (rtr_at b i)" "closing (rtr_at b i) = []" using D(4) i by (simp_all add: heap_ok_def rtr_at_def)
  from close_returns [OF this] obtain sched r' where
    run: "run_actions router_step (DoClose # sched @ [DoCloseReturn]) (rtr_at b i) = Some r'"
    and told: "told_close (set (called (rtr_at b i))) sched" by blast
  then obtain r1 r2 where r1: "router_step DoClose (rtr_at b i) = Some r1" "run_actions router_step sched r1 = Some r2"
    "router_step DoCloseReturn r2 = Some r'" by (auto simp: run_actions_append split: Option.bind_splits)
  let ?b1 = "set_call k (CCloseWait i cn) (put_rtr i r1 b)"
  have b1: "run_call k None 0 b = Some ?b1" "rtr_at ?b1 i = r1" "i < length (cb_rtrs ?b1)"
    using assms(2,3) i(1) r1(1) by (simp_all add: run_call_def on_rtr_def set_call_def rtr_at_def)
  from own_run [OF b1(3) told_close_background [OF told]] r1(2) b1(2) obtain b2 where
    b2: "run_actions cbus_step (map (BOwn i) sched) ?b1 = Some b2" "rtr_at b2 i = r2" "length (cb_rtrs b2) = length (cb_rtrs ?b1)"
    "cb_calls b2 = cb_calls ?b1" by auto
  let ?b3 = "set_call k (CConnDisconnect cn) ((put_rtr i r' b2)\<lparr>cb_closed := cb_closed (put_rtr i r' b2) @ [i]\<rparr>)"
  have b3: "run_call k None 0 b2 = Some ?b3"
    using assms(2) b2 b1(3) r1(3) by (simp add: run_call_def on_rtr_def set_call_def)
  obtain b4 where b4: "run_call k None 0 ?b3 = Some b4" "cb_calls b4 ! k = CReturned" "k < length (cb_calls b4)"
    using assms(2) b2(4) by (simp add: run_call_def set_call_def)
  let ?acts = "BRun k None 0 # map (BOwn i) sched @ [BRun k None 0, BRun k None 0]"
  have "run_actions cbus_step ?acts b = Some b4"
    using b1(1) b2(1) b3 b4(1) by (simp add: run_actions_append)
  moreover have "list_all (closing_action k i) ?acts"
    using told_close_background [OF told] by (simp add: list_all_iff)
  ultimately show ?thesis using b4(2,3) by blast
qed

section \<open>A Subscribe that comes late\<close>

text \<open>The session a call works on as a router.\<close>

fun works_on :: "nat \<Rightarrow> 'h bcall \<Rightarrow> bool" where
  "works_on i (CSubscribe j dest h) = (j = i)"
| "works_on i (CUnsubscribe j dest tok) = (j = i)"
| "works_on i (CDisconnect ro cn) = (ro = Some i)"
| "works_on i (CCloseWait j cn) = (j = i)"
| "works_on i _ = False"

text \<open>A reader that nobody has told to stop.\<close>

definition reading :: "nat \<Rightarrow> 'h router \<Rightarrow> bool" where
  "reading s r \<longleftrightarrow>
     s < length (readers r) \<and> in_loop (pc_of r s) \<and> \<not> ch_closed (chans r ! s) \<and> (\<forall>m \<in> set (ch_buf (chans r ! s)). Err m = None)"

text \<open>What only the broker or the transport can do: end the subscription by a close or an error.\<close>

fun ends_sub :: "nat \<Rightarrow> nat \<Rightarrow> 'h cbus_action \<Rightarrow> bool" where
  "ends_sub i s (BOwn j (DoPeerClose s')) = (j = i \<and> s' = s)"
| "ends_sub i s (BOwn j (DoDeliver s' m)) = (j = i \<and> s' = s \<and> Err m \<noteq> None)"
| "ends_sub i s _ = False"

definition stuck :: "nat \<Rightarrow> nat \<Rightarrow> nat \<Rightarrow> 'h cbus \<Rightarrow> bool" where
  "stuck k i s b \<longleftrightarrow>
     k < length (cb_calls b) \<and> cb_calls b ! k = CCloseWait i (Some i) \<and> cb_rtr b \<noteq> Some i \<and> i < length (cb_rtrs b)
     \<and> (\<forall>j < length (cb_calls b). j \<noteq> k \<longrightarrow> \<not> works_on i (cb_calls b ! j)) \<and> reading s (cb_rtrs b ! i)"

lemma reading_step:
  assumes "router_inv r" "reading s r" "router_step act r = Some r'" "background act"
    "act \<noteq> DoPeerClose s" "\<And>m. act = DoDeliver s m \<Longrightarrow> Err m = None"
  shows "reading s r'"
proof -
  note R = assms(2) [unfolded reading_def]
  note I = router_invD [OF assms(1)]
  show ?thesis
  proof (cases act)
    case (DoReader hs b)
    then have st: "readLoop_step hs b r = Some r'" using assms(3) by simp
    then have b: "b < length (readers r)" "ds_sub (states r ! b) = b" "b < length (chans r)"
      using I(1,2,4) by (auto simp: readLoop_step_def cell_ok_def split: if_splits)
    show ?thesis
    proof (cases "b = s")
      case True
      with st R b show ?thesis
        by (cases "pc_of r s") (auto simp: readLoop_step_def reading_def Let_def try_recv_def
          split: if_splits option.splits list.splits)
    next
      case False
      with st R b show ?thesis
        by (auto simp: readLoop_step_def reading_def Let_def
          split: if_splits rpc.splits option.splits list.splits recv_result.splits send_result.splits)
    qed
  next
    case (DoDeliver s' m)
    with R assms(3,6) show ?thesis
      by (cases "s' = s") (auto simp: reading_def chan_simps split: if_splits send_result.splits)
  next
    case (DoPeerClose s')
    with R assms(3,5) show ?thesis by (auto simp: reading_def split: if_splits)
  qed (use R assms(3,4) in \<open>auto simp: reading_def split: if_splits recv_result.splits\<close>)
qed

lemma reading_blocks_close:
  assumes "router_inv r" "reading s r"
  shows "router_step DoCloseReturn r = None"
proof -
  have "readers r ! s \<in> set (readers r)" "pc_of r s \<noteq> ReadDone" using assms(2) by (auto simp: reading_def)
  then have "live_readers (readers r) \<noteq> 0" by (auto simp: live_readers_zero)
  then show ?thesis using router_invD(6) [OF assms(1)] by simp
qed

lemma reading_errs [simp]: "reading s (r\<lparr>errs := c\<rparr>) = reading s r"
  by (simp add: reading_def)

lemma stuck_put:
  assumes "stuck k i s b" "j \<noteq> i"
  shows "stuck k i s (put_rtr j r b)"
  using assms by (simp add: stuck_def)

lemma stuck_call:
  assumes "stuck k i s b" "\<not> works_on i c" "j \<noteq> k"
  shows "stuck k i s (set_call j c b)" "stuck k i s (start_call c b)"
proof -
  have "(cb_calls b)[j := c] ! j' = c \<or> (cb_calls b)[j := c] ! j' = cb_calls b ! j'" for j'
    by (cases "j < length (cb_calls b)") (auto simp: nth_list_update list_update_beyond)
  with assms show "stuck k i s (set_call j c b)" by (auto simp: stuck_def set_call_def) metis
  from assms show "stuck k i s (start_call c b)" by (auto simp: stuck_def start_call_def nth_append less_Suc_eq)
qed

lemma stuck_fields [simp]:
  "stuck k i s (b\<lparr>cb_sent := xs\<rparr>) = stuck k i s b" "stuck k i s (b\<lparr>cb_disc := ys\<rparr>) = stuck k i s b"
  "stuck k i s (b\<lparr>cb_closed := zs\<rparr>) = stuck k i s b" "stuck k i s (b\<lparr>cb_asked := xs\<rparr>) = stuck k i s b"
  by (simp_all add: stuck_def)

lemma stuck_other:
  assumes "stuck k i s b" "on_rtr j act b = Some b'" "j \<noteq> i"
  shows "stuck k i s b'"
  using assms(2) by (rule on_rtr_Some) (simp add: stuck_put [OF assms(1,3)])

lemma stuck_run:
  assumes I: "cbus_inv b" and t: "stuck k i s b" and st: "run_call j res n b = Some b'"
  shows "stuck k i s b'"
proof -
  note T = t [unfolded stuck_def]
  have ri: "router_inv (rtr_at b i)" using cbus_invD(4) [OF I] T by (simp add: heap_ok_def router_inv2_def)
  have "on_rtr i DoCloseReturn b = None"
    using reading_blocks_close [OF ri, of s] T by (simp add: on_rtr_def rtr_at_def)
  then have j: "j \<noteq> k" "j < length (cb_calls b)" using st T by (auto simp: run_call_def split: if_splits)
  then have nw: "\<not> works_on i (cb_calls b ! j)" using T by blast
  show ?thesis
    using st j(2) nw t
    by (auto simp: run_call_def split: bcall.splits option.splits intro!: stuck_call(1) [OF _ _ j(1)] intro: stuck_other [OF t])
qed

lemma stuck_step:
  assumes I: "cbus_inv b" and t: "stuck k i s b" and st: "cbus_step act b = Some b'" and e: "\<not> ends_sub i s act"
  shows "stuck k i s b'"
proof -
  note T = t [unfolded stuck_def]
  have new: "stuck k i s (start_call c b)" if "\<not> works_on i c" for c
    by (rule stuck_call(2) [OF t that, of "Suc k"]) simp
  show ?thesis
  proof (cases act)
    case (BOwn j a)
    then have a: "background a" "on_rtr j a b = Some b'" using st by (auto split: if_splits)
    show ?thesis
    proof (cases "j = i")
      case False
      with stuck_other [OF t a(2)] show ?thesis by simp
    next
      case True
      with a(2) obtain r where r: "i < length (cb_rtrs b)" "router_step a (rtr_at b i) = Some r" "b' = put_rtr i r b"
        by (auto elim: on_rtr_Some)
      have "router_inv (rtr_at b i)" using cbus_invD(4) [OF I] r(1) by (simp add: heap_ok_def router_inv2_def)
      from reading_step [OF this _ r(2) a(1), of s] T e BOwn True have "reading s r"
        by (cases a) (auto simp: rtr_at_def)
      with T r show ?thesis by (simp add: stuck_def)
    qed
  next
    case (BRun j res n)
    with st stuck_run [OF I t] show ?thesis by simp
  next
    case (BegConnect res)
    with st T show ?thesis
      by (cases "cb_connected b"; cases res) (auto simp: cbus_Connect_def Let_def stuck_def nth_append)
  next
    case BegDisconnect
    with new [of "CDisconnect (cb_rtr b) (cb_conn b)"] st T show ?thesis
      by (auto simp: begin_Disconnect_def stuck_def)
  qed (use st T in \<open>auto simp: begin_Subscribe_def begin_Unsubscribe_def begin_Send_def begin_GetResponse_def split: option.splits intro!: new\<close>)
qed

lemma stuck_forever:
  "cbus_inv b \<Longrightarrow> stuck k i s b \<Longrightarrow> run_actions cbus_step acts b = Some b' \<Longrightarrow> list_all (\<lambda>a. \<not> ends_sub i s a) acts \<Longrightarrow>
     cb_calls b' ! k = CCloseWait i (Some i)"
proof (induction acts arbitrary: b)
  case (Cons a acts)
  then obtain b1 where b1: "cbus_step a b = Some b1" "run_actions cbus_step acts b1 = Some b'"
    by (auto split: Option.bind_splits)
  from Cons.IH [OF cbus_inv_step [OF Cons.prems(1) b1(1)] stuck_step [OF Cons.prems(1,2) b1(1)] b1(2)] Cons.prems(4)
  show ?case by simp
qed (simp add: stuck_def)

section \<open>Calls that do not overlap\<close>

text \<open>What the atomic model of the bus and this one have in common.\<close>

definition bus_view :: "'h bus \<Rightarrow> bool \<times> 'h router option \<times> bool \<times> string \<times> goerr chan" where
  "bus_view c = (fb_conn c, fb_rtr c, fb_connected c, fb_subject c, bus_Errors c)"

definition cbus_view :: "'h cbus \<Rightarrow> bool \<times> 'h router option \<times> bool \<times> string \<times> goerr chan" where
  "cbus_view b = (cb_conn b \<noteq> None, map_option (rtr_at b) (cb_rtr b), cb_connected b, cb_subject b, cb_errs b)"

definition same_bus :: "'h bus \<Rightarrow> 'h cbus \<Rightarrow> bool" where
  "same_bus c b \<longleftrightarrow> fb_cfg c = cb_cfg b \<and> bus_view c = cbus_view b"

lemma same_busD:
  assumes "same_bus c b" "cbus_inv b"
  shows "fb_cfg c = cb_cfg b" "fb_conn c = (cb_rtr b \<noteq> None)" "fb_rtr c = map_option (rtr_at b) (cb_rtr b)"
    "fb_connected c = cb_connected b" "fb_subject c = cb_subject b" "bus_Errors c = cb_errs b"
  using assms cbus_invD(2) [OF assms(2)] by (simp_all add: same_bus_def bus_view_def cbus_view_def)

lemma rtr_at_put [simp]: "i < length (cb_rtrs b) \<Longrightarrow> rtr_at (put_rtr i r b) i = r"
  by (simp add: rtr_at_def)

lemma rtr_at_calls [simp]:
  "rtr_at (b\<lparr>cb_calls := cs\<rparr>) i = rtr_at b i" "rtr_at (b\<lparr>cb_closed := xs\<rparr>) i = rtr_at b i"
  "rtr_at (b\<lparr>cb_rtr := o1\<rparr>) i = rtr_at b i" "rtr_at (b\<lparr>cb_conn := o1\<rparr>) i = rtr_at b i"
  "rtr_at (b\<lparr>cb_connected := p\<rparr>) i = rtr_at b i"
  by (simp_all add: rtr_at_def)

text \<open>The steps of one call, with nothing in between; \<open>k\<close> is its number.\<close>

definition whole_Subscribe :: "string \<Rightarrow> 'h \<Rightarrow> goerr option \<Rightarrow> nat \<Rightarrow> 'h cbus \<Rightarrow> 'h cbus option" where
  "whole_Subscribe dest h res n b =
     run_actions cbus_step (BegSubscribe dest h # (if cb_rtr b = None then [] else [BRun (length (cb_calls b)) res n])) b"

definition whole_Unsubscribe :: "string \<Rightarrow> token \<Rightarrow> 'h cbus \<Rightarrow> 'h cbus option" where
  "whole_Unsubscribe dest tok b =
     run_actions cbus_step (BegUnsubscribe dest tok #
       (case cb_rtr b of
          None \<Rightarrow> []
        | Some i \<Rightarrow> BRun (length (cb_calls b)) None 0 #
            (case fst (Unsubscribe_locked (NormalizeDestination dest) tok (rtr_at b i)) of
               None \<Rightarrow> []
             | Some s \<Rightarrow> [BOwn i (DoCallUnsubscribe s)]))) b"

definition whole_Disconnect :: "'h action list \<Rightarrow> 'h cbus \<Rightarrow> 'h cbus option" where
  "whole_Disconnect sched b =
     (let k = length (cb_calls b) in
      run_actions cbus_step (BegDisconnect # BRun k None 0 #
        (case cb_rtr b of None \<Rightarrow> [] | Some i \<Rightarrow> map (BOwn i) sched @ [BRun k None 0]) @ [BRun k None 0]) b)"

lemma same_Connect:
  assumes "cbus_inv b" "same_bus c b"
  shows "same_bus (snd (bus_Connect res c)) (snd (cbus_Connect res b))"
proof (cases "cb_connected b \<or> res \<noteq> None")
  case True
  with assms(2) same_busD(4) [OF assms(2,1)] show ?thesis by (auto simp: bus_Connect_def cbus_Connect_def)
next
  case False
  note S = same_busD [OF assms(2,1)]
  from False S show ?thesis
    by (auto simp: bus_Connect_def cbus_Connect_def Let_def same_bus_def bus_view_def cbus_view_def bus_Errors_def rtr_at_def
      NewWithErrorChan_def)
qed

lemma same_Subscribe:
  assumes "cbus_inv b" "same_bus c b"
  shows "\<exists>b'. whole_Subscribe dest h res n b = Some b' \<and> same_bus (snd (bus_Subscribe dest h res n c)) b'"
proof (cases "cb_rtr b")
  case None
  with assms(2) same_busD [OF assms(2,1)] show ?thesis
    by (auto simp: whole_Subscribe_def bus_Subscribe_def begin_Subscribe_def start_call_def same_bus_def bus_view_def cbus_view_def)
next
  case (Some i)
  note S = same_busD [OF assms(2,1)]
  have i: "i < length (cb_rtrs b)" by (rule cbus_invD(10) [OF assms(1) Some])
  obtain t r where r: "router_Subscribe (NormalizeDestination dest) h res n (rtr_at b i) = (t, r)" by fastforce
  with Some i S cbus_invD(2) [OF assms(1)] show ?thesis
    by (auto simp: whole_Subscribe_def bus_Subscribe_def begin_Subscribe_def start_call_def run_call_def on_rtr_def set_call_def
      same_bus_def bus_view_def cbus_view_def bus_Errors_def rtr_at_def put_rtr_def)
qed

lemma Unsubscribe_locked_pending: "Unsubscribe_locked dest tok r = (so, r') \<Longrightarrow> pending r' = pending r"
  by (auto simp: Unsubscribe_locked_def Let_def split: option.splits if_splits)

lemma same_Unsubscribe:
  assumes "cbus_inv b" "same_bus c b" "\<forall>i. cb_rtr b = Some i \<longrightarrow> pending (rtr_at b i) = []"
  shows "\<exists>b'. whole_Unsubscribe dest tok b = Some b' \<and> same_bus (snd (bus_Unsubscribe dest tok uerr c)) b'"
proof (cases "cb_rtr b")
  case None
  with assms(2) same_busD [OF assms(2,1)] show ?thesis
    by (auto simp: whole_Unsubscribe_def bus_Unsubscribe_def begin_Unsubscribe_def start_call_def same_bus_def bus_view_def cbus_view_def)
next
  case (Some i)
  note S = same_busD [OF assms(2,1)]
  have i: "i < length (cb_rtrs b)" by (rule cbus_invD(10) [OF assms(1) Some])
  obtain so r where r: "Unsubscribe_locked (NormalizeDestination dest) tok (rtr_at b i) = (so, r)" by fastforce
  from Unsubscribe_locked_pending [OF r] assms(3) Some have "pending r = []" by simp
  moreover from this have "r\<lparr>pending := []\<rparr> = r" by simp
  ultimately show ?thesis using r Some i S cbus_invD(2) [OF assms(1)]
    by (cases so) (auto simp: whole_Unsubscribe_def bus_Unsubscribe_def begin_Unsubscribe_def start_call_def run_call_def on_rtr_def
      set_call_def same_bus_def bus_view_def cbus_view_def bus_Errors_def rtr_at_def put_rtr_def Let_def)
qed

lemma same_Disconnect:
  assumes "cbus_inv b" "same_bus c b" "list_all background sched"
  shows "case bus_Disconnect sched derr c of
      None \<Rightarrow> whole_Disconnect sched b = None
    | Some (err, c') \<Rightarrow> \<exists>b'. whole_Disconnect sched b = Some b' \<and> same_bus c' b'"
proof (cases "cb_rtr b")
  case None
  with assms(2) same_busD [OF assms(2,1)] cbus_invD(2) [OF assms(1)] show ?thesis
    by (auto simp: whole_Disconnect_def bus_Disconnect_def begin_Disconnect_def start_call_def run_call_def set_call_def Let_def
      same_bus_def bus_view_def cbus_view_def bus_Errors_def)
next
  case (Some i)
  note S = same_busD [OF assms(2,1)]
  have i: "i < length (cb_rtrs b)" by (rule cbus_invD(10) [OF assms(1) Some])
  let ?k = "length (cb_calls b)"
  obtain r1 where r1: "router_step DoClose (rtr_at b i) = Some r1" by (simp add: Close_locked_def)
  let ?b1 = "set_call ?k (CCloseWait i (Some i)) (put_rtr i r1 (begin_Disconnect b))"
  have b1: "run_call ?k None 0 (begin_Disconnect b) = Some ?b1" "rtr_at ?b1 i = r1" "i < length (cb_rtrs ?b1)"
    "cb_rtr ?b1 = None" "cb_conn ?b1 = None" "\<not> cb_connected ?b1" "cb_subject ?b1 = cb_subject b" "cb_cfg ?b1 = cb_cfg b"
    using r1 i Some cbus_invD(2) [OF assms(1)]
    by (simp_all add: run_call_def begin_Disconnect_def start_call_def set_call_def on_rtr_def)
  note O = own_run [OF b1(3) assms(3), unfolded b1(2)]
  have W: "whole_Disconnect sched b = run_actions cbus_step (map (BOwn i) sched) ?b1 \<bind> run_actions cbus_step [BRun ?k None 0, BRun ?k None 0]"
    using Some b1(1) by (simp add: whole_Disconnect_def run_actions_append Let_def)
  have B: "run_actions router_step (DoClose # sched @ [DoCloseReturn]) (rtr_at b i) =
      run_actions router_step sched r1 \<bind> run_actions router_step [DoCloseReturn]"
    using r1 by (simp add: run_actions_append)
  show ?thesis
  proof (cases "run_actions router_step sched r1")
    case None
    with O W B S Some show ?thesis by (simp add: bus_Disconnect_def Let_def)
  next
    case r2: (Some r2)
    with O obtain b2 where b2: "run_actions cbus_step (map (BOwn i) sched) ?b1 = Some b2" "rtr_at b2 i = r2" "cb_errs b2 = errs r2"
      "length (cb_rtrs b2) = length (cb_rtrs ?b1)" "cb_calls b2 = cb_calls ?b1" "cb_rtr b2 = None" "cb_conn b2 = None"
      "\<not> cb_connected b2" "cb_subject b2 = cb_subject b" "cb_cfg b2 = cb_cfg b" using b1 by auto
    have k: "?k < length (cb_calls b2)" "cb_calls b2 ! ?k = CCloseWait i (Some i)"
      using b2(5) by (simp_all add: set_call_def begin_Disconnect_def start_call_def)
    from b2 k i S Some W B r2 b1(3) show ?thesis
      by (auto simp: bus_Disconnect_def Let_def run_call_def on_rtr_def set_call_def same_bus_def bus_view_def cbus_view_def
        bus_Errors_def split: if_splits)
  qed
qed

section \<open>Properties\<close>

text \<open>
  C16: Sessions are torn down once and none is lost, however Connect, Disconnect and the other calls
  overlap: each session a Connect has made is, exactly once, the one on the bus, or in the hands of a
  Disconnect in progress, or one whose connection was disconnected; its connection is disconnected only
  after Close of its router has returned; the bus is connected exactly while it holds a session; the
  error channel stays open; and what is sent or asked carries the configured user, also on a session that has
  been taken away meanwhile.
\<close>

theorem sessions_torn_down_once:
  assumes "reach cbus_step (cbus_New cfg) b"
  shows "mset (opt (cb_rtr b) @ concat (map holds (cb_calls b)) @ cb_disc b) = mset [0..<length (cb_rtrs b)]
    \<and> set (cb_disc b) \<subseteq> set (cb_closed b) \<and> cb_conn b = cb_rtr b \<and> (cb_connected b \<longleftrightarrow> cb_rtr b \<noteq> None)
    \<and> \<not> ch_closed (cb_errs b) \<and> (\<forall>i < length (cb_rtrs b). router_inv (rtr_at b i))
    \<and> (\<forall>j dest hs. CSend j dest hs \<in> set (cb_calls b) \<or> CRequest j dest hs \<in> set (cb_calls b) \<longrightarrow>
         hs = goss_headers (cfg_User (cb_cfg b)))"
proof -
  have I: "cbus_inv b" by (rule cm.inv_reach [OF assms])
  have "hs = goss_headers (cfg_User (cb_cfg b))"
    if "CSend j dest hs \<in> set (cb_calls b) \<or> CRequest j dest hs \<in> set (cb_calls b)" for j dest hs
    using I that unfolding cbus_inv_def by (metis call_ok.simps(3,4))
  with cbus_invD [OF I] show ?thesis by (auto simp: heap_ok_def router_inv2_def)
qed

text \<open>Two Disconnects on one session, and a Connect between them.\<close>

definition two_disc :: "nat cbus" where
  "two_disc = the (run_actions cbus_step [BegConnect None, BegDisconnect, BegConnect None, BegDisconnect] (cbus_New user_cfg))"

lemmas cbus_eval =
  cbus_New_def cbus_Connect_def begin_Disconnect_def begin_Subscribe_def begin_Unsubscribe_def start_call_def set_call_def
  run_call_def on_rtr_def rtr_at_def put_rtr_def NormalizeDestination_def HasPrefix_def

lemma two_disc_run:
  "run_actions cbus_step [BegConnect None, BegDisconnect, BegConnect None, BegDisconnect] (cbus_New user_cfg) = Some two_disc"
  by (simp add: two_disc_def)

lemma two_disc_state: "cb_calls two_disc = [CDisconnect (Some 0) (Some 0), CDisconnect (Some 1) (Some 1)]" "cb_rtr two_disc = None"
  by (simp_all add: two_disc_def cbus_eval Let_def)

theorem sessions_torn_down_once_witness:
  "cb_calls two_disc = [CDisconnect (Some 0) (Some 0), CDisconnect (Some 1) (Some 1)]
   \<and> mset ([0, 1] @ cb_disc two_disc) = mset [0..<length (cb_rtrs two_disc)]"
  using sessions_torn_down_once [OF run_reach [OF two_disc_run]] two_disc_state by simp

text \<open>
  A Disconnect that has just taken a session can always finish, whatever other calls are in progress
  on it: its own steps and steps of that session's router, none of them a close or a message from the
  broker for a subscription that was not unsubscribed, lead to its return.
\<close>

lemma disconnect_call_finishes:
  assumes "reach cbus_step (cbus_New cfg) b" "k < length (cb_calls b)" "cb_calls b ! k = CDisconnect (Some i) cn"
  shows "\<exists>acts b'. run_actions cbus_step acts b = Some b' \<and> cb_calls b' ! k = CReturned \<and> list_all (closing_action k i) acts"
  using run_Disconnect [OF cm.inv_reach [OF assms(1)] assms(2,3)] by blast

text \<open>
  C39: A Subscribe that overlaps a Disconnect can make it wait for good: it captured the router before the
  Disconnect did, and registers after Close has collected the subscriptions to unsubscribe but before
  Close's wait has ended. The new reader is one that Close waits for and nobody tells to stop, since
  Unsubscribe no longer finds the session on the bus and the connection is disconnected only after
  Close. Whatever else happens, the Disconnect does not return as long as the broker does not end that
  subscription.
\<close>

theorem disconnect_can_hang:
  "\<exists>b. run_actions cbus_step
       [BegConnect None, BegSubscribe ''/queue/a'' h, BegDisconnect, BRun 1 None 0, BRun 0 None 2] (cbus_New cfg) = Some b
     \<and> cb_calls b = [CReturned, CCloseWait 0 (Some 0)]
     \<and> (\<forall>acts b'. run_actions cbus_step acts b = Some b' \<and> list_all (\<lambda>a. \<not> ends_sub 0 0 a) acts \<longrightarrow>
          cb_calls b' ! 1 = CCloseWait 0 (Some 0))"
proof -
  obtain b where b: "run_actions cbus_step
       [BegConnect None, BegSubscribe ''/queue/a'' h, BegDisconnect, BRun 1 None 0, BRun 0 None 2] (cbus_New cfg) = Some b"
    "cb_calls b = [CReturned, CCloseWait 0 (Some 0)]" "stuck 1 0 0 b"
    by (simp add: cbus_eval router_eval stuck_def reading_def less_Suc_eq)
  have "cbus_inv b" by (rule cm.inv_reach [OF run_reach [OF b(1)]])
  from stuck_forever [OF this b(3)] b(1,2) show ?thesis by blast
qed

theorem disconnect_can_hang_witness:
  "\<exists>b b'. run_actions cbus_step
       [BegConnect None, BegSubscribe ''/queue/a'' (7::nat), BegDisconnect, BRun 1 None 0, BRun 0 None 2] (cbus_New user_cfg) = Some b
     \<and> run_actions cbus_step [BegUnsubscribe ''/queue/a'' 1, BegDisconnect, BRun 3 None 0, BRun 3 None 0] b = Some b'
     \<and> cb_calls b' ! 1 = CCloseWait 0 (Some 0)"
proof -
  let ?acts = "[BegUnsubscribe ''/queue/a'' 1, BegDisconnect, BRun 3 None 0, BRun 3 None 0] :: nat cbus_action list"
  from disconnect_can_hang [of "7::nat" user_cfg] obtain b where b: "run_actions cbus_step
       [BegConnect None, BegSubscribe ''/queue/a'' (7::nat), BegDisconnect, BRun 1 None 0, BRun 0 None 2] (cbus_New user_cfg) = Some b"
    and hang: "\<And>acts b'. run_actions cbus_step acts b = Some b' \<Longrightarrow> list_all (\<lambda>a. \<not> ends_sub 0 0 a) acts \<Longrightarrow>
      cb_calls b' ! 1 = CCloseWait 0 (Some 0)" by blast
  obtain b' where "run_actions cbus_step ?acts b = Some b'"
    using b by (auto simp: cbus_eval router_eval)
  with b hang [of ?acts b'] show ?thesis by (auto simp del: run_actions.simps cbus_step.simps)
qed



end
