(* ===== verification/BusTerm.thy ===== *)
theory BusTerm
  imports BusCalls RouterTerm
begin

text \<open>
  Disconnect of the bus always finishes, unless a Subscribe that captured the session before is still under way:
  then no step can give the session's router a new subscription, and the work that is left for its Close only
  goes down, whatever other calls and other sessions do meanwhile.
\<close>

section \<open>A session that is being ended\<close>

fun uses_session :: "nat \<Rightarrow> 'h bcall \<Rightarrow> bool" where
  "uses_session i (CSubscribe j d h) \<longleftrightarrow> j = i"
| "uses_session i _ \<longleftrightarrow> False"

text \<open>The call \<open>k\<close> is a Disconnect that has begun to close the router of session \<open>i\<close>.\<close>

fun ending_call :: "nat \<Rightarrow> 'h bcall \<Rightarrow> bool" where
  "ending_call i (CCloseWait j cn) \<longleftrightarrow> j = i"
| "ending_call i (CConnDisconnect cn) \<longleftrightarrow> True"
| "ending_call i CReturned \<longleftrightarrow> True"
| "ending_call i _ \<longleftrightarrow> False"

definition ending :: "nat \<Rightarrow> nat \<Rightarrow> 'h cbus \<Rightarrow> bool" where
  "ending k i b \<longleftrightarrow>
     cbus_inv b \<and> i < length (cb_rtrs b) \<and> cb_rtr b \<noteq> Some i \<and> torn (rtr_at b i)
     \<and> (\<forall>c \<in> set (cb_calls b). \<not> uses_session i c) \<and> k < length (cb_calls b) \<and> ending_call i (cb_calls b ! k)"

fun ends_session :: "nat \<Rightarrow> 'h cbus_action \<Rightarrow> bool" where
  "ends_session i (BOwn j act) \<longleftrightarrow> j = i \<and> tears_down act"
| "ends_session i _ \<longleftrightarrow> False"

fun feeds_session :: "nat \<Rightarrow> 'h cbus_action \<Rightarrow> bool" where
  "feeds_session i (BOwn j act) \<longleftrightarrow> j = i \<and> delivers act"
| "feeds_session i _ \<longleftrightarrow> False"

section \<open>What a step does to the session\<close>

text \<open>The router of the session takes a step of its own, or sees only the shared error channel change.\<close>

definition session_moves :: "nat \<Rightarrow> 'h cbus_action \<Rightarrow> 'h cbus \<Rightarrow> 'h cbus \<Rightarrow> bool" where
  "session_moves i act b b' \<longleftrightarrow>
     (\<exists>ract. \<not> subscribes ract \<and> router_step ract (rtr_at b i) = Some (rtr_at b' i)
        \<and> (ends_session i act \<longleftrightarrow> tears_down ract) \<and> (feeds_session i act \<longleftrightarrow> delivers ract))
     \<or> (\<exists>ec. rtr_at b' i = (rtr_at b i)\<lparr>errs := ec\<rparr>) \<and> \<not> ends_session i act \<and> \<not> feeds_session i act"

lemma rtr_at_other: "j \<noteq> i \<Longrightarrow> rtr_at (put_rtr j r b) i = (rtr_at b i)\<lparr>errs := errs r\<rparr>"
  by (simp add: rtr_at_def)

lemma rtr_at_errs: "cb_rtrs b' ! i = cb_rtrs b ! i \<Longrightarrow> rtr_at b' i = (rtr_at b i)\<lparr>errs := cb_errs b'\<rparr>"
  by (simp add: rtr_at_def)

lemma on_rtr_moves:
  assumes "on_rtr j ract b = Some b1" "cb_rtrs b' = cb_rtrs b1" "cb_errs b' = cb_errs b1"
    "j = i \<Longrightarrow> \<not> subscribes ract"
    "ends_session i act \<longleftrightarrow> j = i \<and> tears_down ract" "feeds_session i act \<longleftrightarrow> j = i \<and> delivers ract"
  shows "session_moves i act b b'"
proof -
  from assms(1) obtain r where r: "j < length (cb_rtrs b)" "router_step ract (rtr_at b j) = Some r" "b1 = put_rtr j r b"
    by (rule on_rtr_Some)
  have b': "rtr_at b' i = rtr_at b1 i" using assms(2,3) by (simp add: rtr_at_def)
  show ?thesis
  proof (cases "j = i")
    case True
    with r b' assms(4-) show ?thesis unfolding session_moves_def by (intro disjI1 exI [of _ ract]) simp
  next
    case False
    with r(3) b' rtr_at_other [OF False, of r b] assms(5,6) show ?thesis unfolding session_moves_def by auto
  qed
qed

lemma session_moves_step:
  assumes "ending k i b" "cbus_step act b = Some b'"
  shows "session_moves i act b b'"
proof -
  have still: "session_moves i act b b'" if "cb_rtrs b' ! i = cb_rtrs b ! i" "\<not> ends_session i act" "\<not> feeds_session i act"
    unfolding session_moves_def using that rtr_at_errs [OF that(1)] by blast
  show ?thesis
  proof (cases act)
    case (BOwn j ract)
    then have b: "background ract" "on_rtr j ract b = Some b'" using assms(2) by (auto split: if_splits)
    from b(1) have "\<not> subscribes ract" by (cases ract) simp_all
    with b(2) BOwn show ?thesis by (intro on_rtr_moves [of j ract b b']) auto
  next
    case (BRun j res n)
    then have st: "run_call j res n b = Some b'" "j < length (cb_calls b)"
      using assms(2) by (auto simp: run_call_def split: if_splits)
    have use: "\<not> uses_session i (cb_calls b ! j)" using assms(1) st(2) by (simp add: ending_def)
    show ?thesis
    proof (cases "\<exists>l ract b1. on_rtr l ract b = Some b1 \<and> cb_rtrs b' = cb_rtrs b1 \<and> cb_errs b' = cb_errs b1
        \<and> (l = i \<longrightarrow> \<not> subscribes ract) \<and> \<not> tears_down ract \<and> \<not> delivers ract")
      case True
      then obtain l ract b1 where "on_rtr l ract b = Some b1" "cb_rtrs b' = cb_rtrs b1" "cb_errs b' = cb_errs b1"
        "l = i \<longrightarrow> \<not> subscribes ract" "\<not> tears_down ract" "\<not> delivers ract" by blast
      with BRun show ?thesis by (intro on_rtr_moves [of l ract b b1]) auto
    next
      case False
      have "cb_rtrs b' = cb_rtrs b"
      proof (cases "cb_calls b ! j")
        case (CSubscribe l d h)
        with st use False show ?thesis by (fastforce simp: run_call_def set_call_def)
      next
        case (CUnsubscribe l d tok)
        with st False show ?thesis by (fastforce simp: run_call_def set_call_def)
      next
        case (CDisconnect ro cn)
        with st False show ?thesis by (cases ro) (fastforce simp: run_call_def set_call_def)+
      next
        case (CCloseWait l cn)
        with st False show ?thesis by (fastforce simp: run_call_def set_call_def)
      qed (use st in \<open>auto simp: run_call_def set_call_def\<close>)
      with BRun show ?thesis by (intro still) simp_all
    qed
  next
    case (BegConnect res)
    with assms have "cb_rtrs b' ! i = cb_rtrs b ! i"
      by (auto simp: cbus_Connect_def ending_def nth_append Let_def split: option.splits)
    with BegConnect show ?thesis by (intro still) simp_all
  qed (use assms still in \<open>auto simp: begin_Subscribe_def begin_Unsubscribe_def begin_Send_def begin_GetResponse_def
      begin_Disconnect_def start_call_def\<close>)
qed

lemma ending_calls:
  assumes "ending k i b" "cbus_step act b = Some b'"
  shows "i < length (cb_rtrs b') \<and> cb_rtr b' \<noteq> Some i
    \<and> (\<forall>c \<in> set (cb_calls b'). \<not> uses_session i c) \<and> k < length (cb_calls b') \<and> ending_call i (cb_calls b' ! k)"
proof -
  note E = assms(1) [unfolded ending_def]
  show ?thesis
  proof (cases act)
    case (BRun j res n)
    then have st: "run_call j res n b = Some b'" "j < length (cb_calls b)"
      using assms(2) by (auto simp: run_call_def split: if_splits)
    have "\<exists>c. cb_calls b' = (cb_calls b)[j := c] \<and> \<not> uses_session i c \<and> (ending_call i (cb_calls b ! j) \<longrightarrow> ending_call i c)
      \<and> length (cb_rtrs b') = length (cb_rtrs b) \<and> cb_rtr b' = cb_rtr b"
      using st by (auto simp: run_call_def set_call_def on_rtr_def split: bcall.splits option.splits if_splits intro!: exI)
    then obtain c where c: "cb_calls b' = (cb_calls b)[j := c]" "\<not> uses_session i c" "ending_call i (cb_calls b ! j) \<longrightarrow> ending_call i c"
      "length (cb_rtrs b') = length (cb_rtrs b)" "cb_rtr b' = cb_rtr b" by blast
    have "\<forall>c' \<in> set (cb_calls b'). \<not> uses_session i c'"
      using E c(1,2) by (auto dest!: set_update_subset_insert [THEN subsetD])
    with E c st(2) show ?thesis by (cases "j = k") simp_all
  next
    case (BOwn j ract)
    with assms(2) have "on_rtr j ract b = Some b'" by (auto split: if_splits)
    with E on_rtr_frame [OF this] show ?thesis by (auto elim: on_rtr_Some)
  next
    case (BegConnect res)
    with assms(2) have "b' = snd (cbus_Connect res b)" by simp
    with E show ?thesis by (cases res; cases "cb_connected b") (simp_all add: cbus_Connect_def Let_def)
  next
    case (BegSubscribe d h)
    with E assms(2) show ?thesis by (auto simp: begin_Subscribe_def start_call_def nth_append split: option.splits)
  next
    case (BegUnsubscribe d tok)
    with E assms(2) show ?thesis by (auto simp: begin_Unsubscribe_def start_call_def nth_append split: option.splits)
  next
    case (BegSend d)
    with E assms(2) show ?thesis by (auto simp: begin_Send_def start_call_def nth_append split: option.splits)
  next
    case (BegGetResponse d)
    with E assms(2) show ?thesis by (auto simp: begin_GetResponse_def start_call_def nth_append split: option.splits)
  next
    case BegDisconnect
    with E assms(2) show ?thesis by (auto simp: begin_Disconnect_def start_call_def nth_append)
  qed
qed

lemma ending_step:
  assumes "ending k i b" "cbus_step act b = Some b'"
  shows "ending k i b'"
proof -
  have I: "cbus_inv b'" using cbus_inv_step [OF _ assms(2)] assms(1) by (simp add: ending_def)
  note E = ending_calls [OF assms]
  have T: "torn (rtr_at b i)" using assms(1) by (simp add: ending_def)
  from session_moves_step [OF assms] have "torn (rtr_at b' i)"
    unfolding session_moves_def
  proof (elim disjE exE conjE)
    show "torn (rtr_at b' i)" if "\<not> subscribes ract" "router_step ract (rtr_at b i) = Some (rtr_at b' i)" for ract
      by (rule torn_step [OF T that])
    show "torn (rtr_at b' i)" if e: "rtr_at b' i = (rtr_at b i)\<lparr>errs := ec\<rparr>" for ec
    proof -
      have "router_inv (rtr_at b' i)" using cbus_invD(4) [OF I] E by (simp add: heap_ok_def router_inv2_def)
      with e T show ?thesis by (simp add: torn_def closing_ok_def)
    qed
  qed
  with I E show ?thesis by (simp add: ending_def)
qed

lemma work_errs [simp]: "close_work (r\<lparr>errs := ec\<rparr>) = close_work r" "message_work (r\<lparr>errs := ec\<rparr>) = message_work r"
  by (simp_all add: close_work_def reader_left_def message_work_def)

lemma ending_work:
  assumes "ending k i b" "cbus_step act b = Some b'"
  shows "close_work (rtr_at b' i) + (if ends_session i act then 1 else 0)
      \<le> close_work (rtr_at b i) + (if feeds_session i act then message_work (rtr_at b i) else 0)"
    and "message_work (rtr_at b' i) = message_work (rtr_at b i)"
proof -
  have T: "torn (rtr_at b i)" using assms(1) by (simp add: ending_def)
  have "close_work (rtr_at b' i) + (if ends_session i act then 1 else 0)
      \<le> close_work (rtr_at b i) + (if feeds_session i act then message_work (rtr_at b i) else 0)
    \<and> message_work (rtr_at b' i) = message_work (rtr_at b i)"
    using session_moves_step [OF assms, unfolded session_moves_def]
  proof (elim disjE exE conjE, goal_cases)
    case (1 ract)
    from work_router_step [OF T 1(1,2)] message_work_step [OF T 1(1,2)] 1(3,4) show ?case by simp
  qed simp
  then show "close_work (rtr_at b' i) + (if ends_session i act then 1 else 0)
      \<le> close_work (rtr_at b i) + (if feeds_session i act then message_work (rtr_at b i) else 0)"
    and "message_work (rtr_at b' i) = message_work (rtr_at b i)" by blast+
qed

interpretation dl: draining cbus_step "ending k i" "\<lambda>act. True" "\<lambda>act _. ends_session i act" "feeds_session i"
  "\<lambda>b. close_work (rtr_at b i)" "\<lambda>b. message_work (rtr_at b i)" for k i
  by unfold_locales (simp_all add: ending_step ending_work)

section \<open>Disconnect finishes\<close>

lemma ending_returns:
  assumes "ending k i b"
    and "\<And>ract. tears_down ract \<Longrightarrow> (\<And>s. ract = DoPeerClose s \<Longrightarrow> s \<in> set (called (rtr_at b i))) \<Longrightarrow> cbus_step (BOwn i ract) b = None"
  shows "\<exists>m b'. m \<le> 2 \<and> run_actions cbus_step (replicate m (BRun k None 0)) b = Some b' \<and> cb_calls b' ! k = CReturned"
proof -
  note E = assms(1) [unfolded ending_def]
  then have k: "k < length (cb_calls b)" by blast
  have last: "cbus_step (BRun k None 0) b1 = Some (set_call k CReturned (b1\<lparr>cb_disc := cb_disc b1 @ (case cn of None \<Rightarrow> [] | Some j \<Rightarrow> [j])\<rparr>))"
    if "k < length (cb_calls b1)" "cb_calls b1 ! k = CConnDisconnect cn" for b1 :: "'a cbus" and cn
    using that by (simp add: run_call_def)
  show ?thesis
  proof (cases "cb_calls b ! k")
    case (CCloseWait j cn)
    have "router_step ract (rtr_at b i) = None"
      if "tears_down ract" "\<And>s. ract = DoPeerClose s \<Longrightarrow> s \<in> set (called (rtr_at b i))" for ract
    proof -
      have "background ract" using that(1) by (cases ract) simp_all
      with assms(2) [OF that] E show ?thesis by (simp add: on_rtr_def)
    qed
    from stuck_close_returns [OF _ this] E have r: "router_step DoCloseReturn (rtr_at b i) = Some (rtr_at b i)" by simp
    let ?b1 = "set_call k (CConnDisconnect cn) ((put_rtr i (rtr_at b i) b)\<lparr>cb_closed := cb_closed b @ [i]\<rparr>)"
    have one: "cbus_step (BRun k None 0) b = Some ?b1"
      using CCloseWait E r by (simp add: run_call_def on_rtr_def del: router_step.simps)
    have "k < length (cb_calls ?b1)" "cb_calls ?b1 ! k = CConnDisconnect cn" using E by (simp_all add: set_call_def)
    from last [OF this] one have "run_actions cbus_step (replicate 2 (BRun k None 0)) b
      = Some (set_call k CReturned (?b1\<lparr>cb_disc := cb_disc ?b1 @ (case cn of None \<Rightarrow> [] | Some j \<Rightarrow> [j])\<rparr>))"
      by (simp add: numeral_2_eq_2 del: cbus_step.simps)
    moreover have "cb_calls (set_call k CReturned (?b1\<lparr>cb_disc := cb_disc ?b1 @ (case cn of None \<Rightarrow> [] | Some j \<Rightarrow> [j])\<rparr>)) ! k = CReturned"
      using k by (simp add: set_call_def)
    ultimately show ?thesis by (metis le_refl)
  next
    case (CConnDisconnect cn)
    let ?b1 = "set_call k CReturned (b\<lparr>cb_disc := cb_disc b @ (case cn of None \<Rightarrow> [] | Some j \<Rightarrow> [j])\<rparr>)"
    have "run_actions cbus_step (replicate 1 (BRun k None 0)) b = Some ?b1"
      using last [OF k CConnDisconnect] by (simp del: cbus_step.simps)
    moreover have "cb_calls ?b1 ! k = CReturned" using k by (simp add: set_call_def)
    ultimately show ?thesis by (metis one_le_numeral)
  next
    case CReturned
    then show ?thesis by (intro exI [of _ 0] exI [of _ b]) simp
  qed (use E in auto)
qed

lemma ending_start:
  assumes "cbus_inv b" "k < length (cb_calls b)" "cb_calls b ! k = CDisconnect (Some i) cn"
    "\<forall>c \<in> set (cb_calls b). \<not> uses_session i c" "cbus_step (BRun k res n) b = Some b1"
  shows "ending k i b1"
proof -
  note D = cbus_invD [OF assms(1)]
  from D(6) [OF assms(2)] assms(3) have cn: "cn = Some i" and clo: "closing (cb_rtrs b ! i) = []" and i: "i < length (cb_rtrs b)" by auto
  have "i \<in> set (concat (map holds (cb_calls b)))" using nth_mem [OF assms(2)] assms(3) cn by (auto intro!: bexI [of _ "cb_calls b ! k"])
  with D(9) have not: "cb_rtr b \<noteq> Some i" by (auto simp: opt_def)
  from assms(2,3,5) obtain b0 where b0: "on_rtr i DoClose b = Some b0" "b1 = set_call k (CCloseWait i cn) b0" by (auto simp: run_call_def)
  from b0(1) obtain r where r: "router_step DoClose (rtr_at b i) = Some r" "b0 = put_rtr i r b" by (rule on_rtr_Some)
  have "closing_ok (rtr_at b i)" using clo by (simp add: closing_ok_def rtr_at_def)
  moreover have "router_inv (rtr_at b i)" using D(4) i by (simp add: heap_ok_def router_inv2_def)
  ultimately have "torn r" using rc.inv_step [OF _ r(1)] r(1) by (auto simp: torn_def Close_locked_def)
  moreover have "\<forall>c \<in> set ((cb_calls b)[k := CCloseWait i cn]). \<not> uses_session i c"
    using assms(4) by (auto dest!: set_update_subset_insert [THEN subsetD])
  ultimately show ?thesis
    using cbus_inv_step [OF assms(1,5)] i not assms(2) r(2) b0(2) by (simp add: ending_def set_call_def)
qed

text \<open>
  C22: A Disconnect of the bus always finishes, unless a Subscribe that had captured the session before is still under way when its Close
  begins. From then on the steps that end the session, those of its readers, its Unsubscribe calls and the
  closes of its channels, are bounded by a number known when Close begins, plus a fixed amount for every further
  message, whatever other calls, new sessions included, do meanwhile; and when none of them is possible
  any more, at most two steps of the Disconnect itself lead to its return.
\<close>

theorem disconnect_inevitable:
  assumes "reach cbus_step (cbus_New cfg) b" "k < length (cb_calls b)" "cb_calls b ! k = CDisconnect (Some i) cn"
    and "\<forall>c \<in> set (cb_calls b). \<not> uses_session i c"
    and "cbus_step (BRun k res n) b = Some b1" "run_actions cbus_step later b1 = Some b2"
  shows "length (filter (ends_session i) later) \<le> close_work (rtr_at b1 i) + message_work (rtr_at b1 i) * length (filter (feeds_session i) later)
    \<and> ((\<forall>ract. tears_down ract \<and> (\<forall>s. ract = DoPeerClose s \<longrightarrow> s \<in> set (called (rtr_at b2 i))) \<longrightarrow> cbus_step (BOwn i ract) b2 = None)
       \<longrightarrow> (\<exists>m b3. m \<le> 2 \<and> run_actions cbus_step (replicate m (BRun k None 0)) b2 = Some b3 \<and> cb_calls b3 ! k = CReturned))"
proof -
  have e: "ending k i b1" by (rule ending_start [OF cm.inv_reach [OF assms(1)] assms(2-5)])
  have a: "list_all (\<lambda>act. True) later" by (simp add: list_all_iff)
  from dl.run_bound [OF e a assms(6)] worked_filter [OF assms(6), of "ends_session i"]
    ending_returns [OF dl.run_ok [OF e a assms(6)]] show ?thesis by auto
qed

text \<open>A Disconnect of a session with one subscription, while the next session is connected.\<close>

definition run_to_disconnect :: "nat cbus_action list" where
  "run_to_disconnect = [BegConnect None, BegSubscribe ''/queue/a'' 7, BRun 0 None 2, BegDisconnect]"

definition bus_teardown :: "nat cbus_action list" where
  "bus_teardown =
     [BOwn 0 (DoCallUnsubscribe 0), BegConnect None, BOwn 0 (DoPeerClose 0),
      BOwn 0 (DoReader [] 0), BOwn 0 (DoReader [] 0), BOwn 0 (DoReader [] 0), BOwn 0 (DoReader [] 0), BOwn 0 (DoReader [] 0)]"

lemma bus_teardown_run:
  "\<exists>b b1 b2. run_actions cbus_step run_to_disconnect (cbus_New user_cfg) = Some b
     \<and> cb_calls b = [CReturned, CDisconnect (Some 0) (Some 0)]
     \<and> cbus_step (BRun 1 None 0) b = Some b1 \<and> run_actions cbus_step bus_teardown b1 = Some b2 \<and> close_work (rtr_at b1 0) = 42
     \<and> readers (rtr_at b2 0) = [\<lparr>rd_dest = ''/queue/a'', rd_pc = ReadDone\<rparr>] \<and> pending (rtr_at b2 0) = []
     \<and> length (chans (rtr_at b2 0)) = 1 \<and> ch_closed (chans (rtr_at b2 0) ! 0)"
  by (simp add: run_to_disconnect_def bus_teardown_def cbus_eval router_eval close_work_def reader_left_def)

theorem disconnect_inevitable_witness:
  "\<exists>b b1 b2. run_actions cbus_step run_to_disconnect (cbus_New user_cfg) = Some b
     \<and> cbus_step (BRun 1 None 0) b = Some b1 \<and> run_actions cbus_step bus_teardown b1 = Some b2
     \<and> length (filter (ends_session 0) bus_teardown) \<le> close_work (rtr_at b1 0)
     \<and> (\<exists>m b3. m \<le> 2 \<and> run_actions cbus_step (replicate m (BRun 1 None 0)) b2 = Some b3 \<and> cb_calls b3 ! 1 = CReturned)"
proof -
  from bus_teardown_run obtain b b1 b2 where b: "run_actions cbus_step run_to_disconnect (cbus_New user_cfg) = Some b"
    "cb_calls b = [CReturned, CDisconnect (Some 0) (Some 0)]"
    and b1: "cbus_step (BRun 1 None 0) b = Some b1" and b2: "run_actions cbus_step bus_teardown b1 = Some b2"
    "readers (rtr_at b2 0) = [\<lparr>rd_dest = ''/queue/a'', rd_pc = ReadDone\<rparr>]" "pending (rtr_at b2 0) = []"
    "length (chans (rtr_at b2 0)) = 1" "ch_closed (chans (rtr_at b2 0) ! 0)" by blast
  have "router_step act (rtr_at b2 0) = None" if "tears_down act" for act
    using that b2(2-) by (cases act) (auto simp: readLoop_step_def intro: gr0I)
  then have stuck: "cbus_step (BOwn 0 act) b2 = None" if "tears_down act" for act using that by (simp add: on_rtr_def)
  have c: "1 < length (cb_calls b)" "cb_calls b ! 1 = CDisconnect (Some 0) (Some 0)" "\<forall>c \<in> set (cb_calls b). \<not> uses_session 0 c"
    using b(2) by simp_all
  have f: "filter (feeds_session 0) bus_teardown = []" by (simp add: bus_teardown_def)
  from disconnect_inevitable [OF run_reach [OF b(1)] c b1 b2(1)] stuck b(1) b1 b2(1) f
  show ?thesis by (auto simp del: cbus_step.simps replicate.simps)
qed

end
