(* ===== verification/BusLocks.thy ===== *)
theory BusLocks
  imports BusCalls
begin

text \<open>
  The package fieldbus with its mutex. In \<open>BusCalls\<close> what a method does under \<open>b.mu\<close> is one step; here the
  mutex is a field, every call is a thread that waits for it, and Connect holds it from its test of
  \<open>connected\<close> over the dial and the token exchange to its assignments, with anything that does not need the
  mutex happening in between. Connect does not test again after the exchange: that there is only one
  session rests on the mutex.
\<close>

section \<open>Threads\<close>

datatype 'h bmethod =
    MIsConnected
  | MSubscribe string 'h
  | MUnsubscribe string token
  | MSend string
  | MGetResponse string
  | MDisconnect

text \<open>
  Where a call is: before the lock, under it, after it. A call that works on with what it captured is one
  of the calls in progress of the bus from then on (\<open>PAfter\<close>).
\<close>

datatype 'h bpoint =
    PConnLock
  | PConnTest
  | PConnDial
  | PConnDone "goerr option"
  | PLock "'h bmethod"
  | PBody "'h bmethod"
  | PIsConnected bool
  | PAfter

record 'h lbus =
  lb_bus :: "'h cbus"
  lb_mu :: "nat option"
  lb_threads :: "'h bpoint list"

definition New_lbus :: "Config \<Rightarrow> 'h lbus" where
  "New_lbus cfg = \<lparr>lb_bus = cbus_New cfg, lb_mu = None, lb_threads = []\<rparr>"

fun under_mu :: "'h bpoint \<Rightarrow> bool" where
  "under_mu PConnTest = True"
| "under_mu PConnDial = True"
| "under_mu (PBody m) = True"
| "under_mu _ = False"

fun waits_mu :: "'h bpoint \<Rightarrow> bool" where
  "waits_mu PConnLock = True"
| "waits_mu (PLock m) = True"
| "waits_mu _ = False"

definition at_point :: "nat \<Rightarrow> 'h bpoint \<Rightarrow> 'h lbus \<Rightarrow> 'h lbus" where
  "at_point k p lb = lb\<lparr>lb_threads := (lb_threads lb)[k := p]\<rparr>"

definition mu_Lock :: "nat \<Rightarrow> 'h bpoint \<Rightarrow> 'h lbus \<Rightarrow> 'h lbus option" where
  "mu_Lock k p lb = (if lb_mu lb = None then Some (at_point k p (lb\<lparr>lb_mu := Some k\<rparr>)) else None)"

definition mu_Unlock :: "nat \<Rightarrow> 'h bpoint \<Rightarrow> 'h cbus \<Rightarrow> 'h lbus \<Rightarrow> 'h lbus" where
  "mu_Unlock k p b lb = at_point k p (lb\<lparr>lb_bus := b, lb_mu := None\<rparr>)"

section \<open>The methods\<close>

text \<open>\<open>Connect\<close> after \<open>gridappsd.Connect\<close> has returned.\<close>

definition Connect_finish :: "goerr option \<Rightarrow> 'h cbus \<Rightarrow> goerr option \<times> 'h cbus" where
  "Connect_finish res b =
     (case res of
        Some e \<Rightarrow> (Some (Errorf ''fieldbus connect: %w'' [] [e]), b)
      | None \<Rightarrow>
          (let i = length (cb_rtrs b) in
           (None, b\<lparr>cb_conn := Some i, cb_rtr := Some i,
                    cb_rtrs := cb_rtrs b @ [NewWithErrorChan (Some (cb_errs b))],
                    cb_subject := cfg_User (cb_cfg b), cb_connected := True\<rparr>)))"

text \<open>The other methods under the mutex.\<close>

fun method_body :: "'h bmethod \<Rightarrow> 'h cbus \<Rightarrow> 'h bpoint \<times> 'h cbus" where
  "method_body MIsConnected b = (PIsConnected (cb_connected b), b)"
| "method_body (MSubscribe d h) b = (PAfter, begin_Subscribe d h b)"
| "method_body (MUnsubscribe d tok) b = (PAfter, begin_Unsubscribe d tok b)"
| "method_body (MSend d) b = (PAfter, begin_Send d b)"
| "method_body (MGetResponse d) b = (PAfter, begin_GetResponse d b)"
| "method_body MDisconnect b = (PAfter, begin_Disconnect b)"

definition thread_step :: "goerr option \<Rightarrow> nat \<Rightarrow> 'h lbus \<Rightarrow> 'h lbus option" where
  "thread_step res k lb =
     (if k < length (lb_threads lb) then
        (case lb_threads lb ! k of
           PConnLock \<Rightarrow> mu_Lock k PConnTest lb
         | PConnTest \<Rightarrow>
             if cb_connected (lb_bus lb) then Some (mu_Unlock k (PConnDone None) (lb_bus lb) lb)
             else Some (at_point k PConnDial lb)
         | PConnDial \<Rightarrow>
             (case Connect_finish res (lb_bus lb) of (err, b) \<Rightarrow> Some (mu_Unlock k (PConnDone err) b lb))
         | PLock m \<Rightarrow> mu_Lock k (PBody m) lb
         | PBody m \<Rightarrow> (case method_body m (lb_bus lb) of (p, b) \<Rightarrow> Some (mu_Unlock k p b lb))
         | _ \<Rightarrow> None)
      else None)"

text \<open>A call begins, takes its next step, or something happens that needs no mutex of the bus.\<close>

datatype 'h lbus_action =
    LbConnect
  | LbCall "'h bmethod"
  | LbThread "goerr option" nat
  | LbRun nat "goerr option" nat
  | LbOwn nat "'h action"

fun lbus_step :: "'h lbus_action \<Rightarrow> 'h lbus \<Rightarrow> 'h lbus option" where
  "lbus_step LbConnect lb = Some (lb\<lparr>lb_threads := lb_threads lb @ [PConnLock]\<rparr>)"
| "lbus_step (LbCall m) lb = Some (lb\<lparr>lb_threads := lb_threads lb @ [PLock m]\<rparr>)"
| "lbus_step (LbThread res k) lb = thread_step res k lb"
| "lbus_step (LbRun j res n) lb = map_option (\<lambda>b. lb\<lparr>lb_bus := b\<rparr>) (cbus_step (BRun j res n) (lb_bus lb))"
| "lbus_step (LbOwn i act) lb = map_option (\<lambda>b. lb\<lparr>lb_bus := b\<rparr>) (cbus_step (BOwn i act) (lb_bus lb))"

section \<open>The invariant\<close>

text \<open>Who holds the mutex, and that a Connect that dials found the bus not connected, which it still is.\<close>

definition lbus_inv :: "'h lbus \<Rightarrow> bool" where
  "lbus_inv lb \<longleftrightarrow>
     (\<forall>k. lb_mu lb = Some k \<longleftrightarrow> k < length (lb_threads lb) \<and> under_mu (lb_threads lb ! k))
     \<and> (\<forall>k < length (lb_threads lb). lb_threads lb ! k = PConnDial \<longrightarrow> \<not> cb_connected (lb_bus lb))"

lemma at_point_sel [simp]:
  "lb_bus (at_point k p lb) = lb_bus lb" "lb_mu (at_point k p lb) = lb_mu lb"
  "lb_threads (at_point k p lb) = (lb_threads lb)[k := p]"
  by (simp_all add: at_point_def)

lemma mu_Unlock_sel [simp]:
  "lb_bus (mu_Unlock k p b lb) = b" "lb_mu (mu_Unlock k p b lb) = None"
  "lb_threads (mu_Unlock k p b lb) = (lb_threads lb)[k := p]"
  by (simp_all add: mu_Unlock_def)

lemma inv_Lock:
  assumes "lbus_inv lb" "k < length (lb_threads lb)" "under_mu p" "p \<noteq> PConnDial" "mu_Lock k p lb = Some lb'"
  shows "lbus_inv lb'"
  using assms by (auto simp: lbus_inv_def mu_Lock_def nth_list_update split: if_splits)

lemma inv_at_point:
  assumes "lbus_inv lb" "k < length (lb_threads lb)" "under_mu p = under_mu (lb_threads lb ! k)" "\<not> cb_connected (lb_bus lb)"
  shows "lbus_inv (at_point k p lb)"
proof -
  have "under_mu ((lb_threads lb)[k := p] ! j) = under_mu (lb_threads lb ! j)" if "j < length (lb_threads lb)" for j
    using that assms(2,3) by (cases "j = k") simp_all
  with assms(1,4) show ?thesis unfolding lbus_inv_def at_point_sel length_list_update by blast
qed

lemma inv_Unlock:
  assumes "lbus_inv lb" "k < length (lb_threads lb)" "under_mu (lb_threads lb ! k)" "\<not> under_mu p"
  shows "lbus_inv (mu_Unlock k p b lb)"
proof -
  have other: "\<not> under_mu (lb_threads lb ! j)" if "j < length (lb_threads lb)" "j \<noteq> k" for j
    using assms(1-3) that unfolding lbus_inv_def by (metis option.inject)
  have free: "\<not> under_mu ((lb_threads lb)[k := p] ! j)" if "j < length (lb_threads lb)" for j
    using other [OF that] that assms(4) by (cases "j = k") simp_all
  then have "(lb_threads lb)[k := p] ! j \<noteq> PConnDial" if "j < length (lb_threads lb)" for j using that by force
  with free show ?thesis by (auto simp: lbus_inv_def)
qed

text \<open>What needs no mutex leaves the fields it guards alone.\<close>

lemma own_fields:
  assumes "cbus_step act b = Some b'" "(\<exists>j res n. act = BRun j res n) \<or> (\<exists>i ract. act = BOwn i ract)"
  shows "cb_connected b' = cb_connected b" "cb_rtr b' = cb_rtr b" "cb_conn b' = cb_conn b" "cb_subject b' = cb_subject b"
    "length (cb_rtrs b') = length (cb_rtrs b)"
  using assms
  by (auto simp: run_call_def set_call_def on_rtr_def split: bcall.splits option.splits if_splits)

lemma inv_thread_step:
  assumes I: "lbus_inv lb" and st: "thread_step res k lb = Some lb'"
  shows "lbus_inv lb'"
proof -
  have k: "k < length (lb_threads lb)" using st by (simp add: thread_step_def split: if_splits)
  note step = st [unfolded thread_step_def if_P [OF k]]
  show ?thesis
  proof (cases "lb_threads lb ! k")
    case PConnLock
    with step inv_Lock [OF I k, of PConnTest] show ?thesis by simp
  next
    case PConnTest
    show ?thesis
    proof (cases "cb_connected (lb_bus lb)")
      case True
      with step PConnTest inv_Unlock [OF I k] show ?thesis by auto
    next
      case False
      with step PConnTest inv_at_point [OF I k, of PConnDial] show ?thesis by simp
    qed
  next
    case PConnDial
    with step inv_Unlock [OF I k] show ?thesis by (auto split: prod.splits)
  next
    case (PLock m)
    with step inv_Lock [OF I k, of "PBody m"] show ?thesis by simp
  next
    case (PBody m)
    have "\<not> under_mu (fst (method_body m (lb_bus lb)))" by (cases m) simp_all
    with step PBody inv_Unlock [OF I k] show ?thesis by (auto split: prod.splits)
  qed (use step in simp_all)
qed

lemma inv_lbus_step:
  assumes I: "lbus_inv lb" and st: "lbus_step act lb = Some lb'"
  shows "lbus_inv lb'"
proof (cases act)
  case (LbThread res k)
  with st inv_thread_step [OF I] show ?thesis by simp
next
  case (LbRun j res n)
  with st obtain b where b: "cbus_step (BRun j res n) (lb_bus lb) = Some b" "lb' = lb\<lparr>lb_bus := b\<rparr>" by auto
  from own_fields(1) [OF b(1)] I b(2) show ?thesis by (simp add: lbus_inv_def)
next
  case (LbOwn i ract)
  with st obtain b where b: "cbus_step (BOwn i ract) (lb_bus lb) = Some b" "lb' = lb\<lparr>lb_bus := b\<rparr>" by auto
  from own_fields(1) [OF b(1)] I b(2) show ?thesis by (simp add: lbus_inv_def)
qed (use I st in \<open>auto simp: lbus_inv_def nth_append less_Suc_eq\<close>)

interpretation lbm: machine lbus_step "New_lbus cfg" lbus_inv for cfg
proof unfold_locales
  show "lbus_inv (New_lbus cfg)" by (simp add: lbus_inv_def New_lbus_def)
qed (rule inv_lbus_step)

section \<open>The refinement\<close>

text \<open>The step of the bus that a step around the mutex makes, if it makes one.\<close>

fun body_action :: "'h bmethod \<Rightarrow> 'h cbus_action list" where
  "body_action MIsConnected = []"
| "body_action (MSubscribe d h) = [BegSubscribe d h]"
| "body_action (MUnsubscribe d tok) = [BegUnsubscribe d tok]"
| "body_action (MSend d) = [BegSend d]"
| "body_action (MGetResponse d) = [BegGetResponse d]"
| "body_action MDisconnect = [BegDisconnect]"

fun bus_actions :: "'h lbus \<Rightarrow> 'h lbus_action \<Rightarrow> 'h cbus_action list" where
  "bus_actions lb (LbThread res k) =
     (case lb_threads lb ! k of PConnDial \<Rightarrow> [BegConnect res] | PBody m \<Rightarrow> body_action m | _ \<Rightarrow> [])"
| "bus_actions lb (LbRun j res n) = [BRun j res n]"
| "bus_actions lb (LbOwn i act) = [BOwn i act]"
| "bus_actions lb _ = []"

lemma method_body_run: "run_actions cbus_step (body_action m) b = Some (snd (method_body m b))"
  by (cases m) simp_all

lemma Connect_finish_step: "\<not> cb_connected b \<Longrightarrow> cbus_step (BegConnect res) b = Some (snd (Connect_finish res b))"
  by (simp add: cbus_Connect_def Connect_finish_def)

lemma thread_step_run:
  assumes "lbus_inv lb" "thread_step res k lb = Some lb'"
  shows "run_actions cbus_step (bus_actions lb (LbThread res k)) (lb_bus lb) = Some (lb_bus lb')"
proof -
  have k: "k < length (lb_threads lb)" using assms(2) by (simp add: thread_step_def split: if_splits)
  note step = assms(2) [unfolded thread_step_def if_P [OF k]]
  show ?thesis
  proof (cases "lb_threads lb ! k")
    case PConnDial
    with assms(1) k have "\<not> cb_connected (lb_bus lb)" by (simp add: lbus_inv_def)
    with step PConnDial Connect_finish_step [of "lb_bus lb" res] show ?thesis by (auto simp del: cbus_step.simps split: prod.splits)
  next
    case (PBody m)
    with step method_body_run [of m "lb_bus lb"] show ?thesis by (auto split: prod.splits)
  qed (use step in \<open>auto simp: mu_Lock_def split: if_splits\<close>)
qed

lemma lbus_step_run:
  assumes "lbus_inv lb" "lbus_step act lb = Some lb'"
  shows "run_actions cbus_step (bus_actions lb act) (lb_bus lb) = Some (lb_bus lb')"
proof (cases act)
  case (LbThread res k)
  with assms thread_step_run show ?thesis by simp
qed (use assms(2) in \<open>auto simp del: cbus_step.simps\<close>)

lemma bus_actions_short: "length (bus_actions lb act) \<le> 1"
proof -
  have "length (body_action m) \<le> 1" for m :: "'a bmethod" by (cases m) simp_all
  then show ?thesis by (cases act) (simp_all split: bpoint.split)
qed

lemma lbus_run_run:
  assumes "lbus_inv lb" "run_actions lbus_step acts lb = Some lb'"
  shows "\<exists>cacts. run_actions cbus_step cacts (lb_bus lb) = Some (lb_bus lb') \<and> length cacts \<le> length acts"
  using assms
proof (induction acts arbitrary: lb)
  case Nil
  then show ?case by (intro exI [of _ "[]"]) simp
next
  case (Cons act acts)
  then obtain lb1 where one: "lbus_step act lb = Some lb1" "run_actions lbus_step acts lb1 = Some lb'"
    by (auto split: Option.bind_splits)
  from Cons.IH [OF inv_lbus_step [OF Cons.prems(1) one(1)] one(2)] obtain cacts where
    "run_actions cbus_step cacts (lb_bus lb1) = Some (lb_bus lb')" "length cacts \<le> length acts" by blast
  with lbus_step_run [OF Cons.prems(1) one(1)] bus_actions_short [of lb act] show ?case
    by (intro exI [of _ "bus_actions lb act @ cacts"]) (simp add: run_actions_append)
qed

section \<open>Connect keeps everybody out\<close>

text \<open>While thread \<open>k\<close> dials, nothing that the mutex guards changes, and who waits for it waits on.\<close>

definition dialling :: "nat \<Rightarrow> 'h lbus \<Rightarrow> 'h lbus \<Rightarrow> bool" where
  "dialling k lb lb' \<longleftrightarrow>
     lb_mu lb' = Some k \<and> k < length (lb_threads lb') \<and> lb_threads lb' ! k = PConnDial
     \<and> length (lb_threads lb) \<le> length (lb_threads lb')
     \<and> (\<forall>j < length (lb_threads lb). waits_mu (lb_threads lb ! j) \<longrightarrow> lb_threads lb' ! j = lb_threads lb ! j)
     \<and> cb_connected (lb_bus lb') = cb_connected (lb_bus lb) \<and> cb_rtr (lb_bus lb') = cb_rtr (lb_bus lb)
     \<and> cb_conn (lb_bus lb') = cb_conn (lb_bus lb) \<and> length (cb_rtrs (lb_bus lb')) = length (cb_rtrs (lb_bus lb))"

lemma dialling_thread:
  assumes "lbus_inv lb" "lb_mu lb = Some k" "j \<noteq> k"
  shows "thread_step res j lb = None"
proof (cases "j < length (lb_threads lb)")
  case True
  with assms have "\<not> under_mu (lb_threads lb ! j)" unfolding lbus_inv_def by (metis option.inject)
  with assms(2) show ?thesis by (cases "lb_threads lb ! j") (simp_all add: thread_step_def mu_Lock_def)
qed (simp add: thread_step_def)

lemma dialling_step:
  assumes "lbus_inv lb1" "dialling k lb lb1" "lbus_step act lb1 = Some lb2" "\<And>res. act \<noteq> LbThread res k"
  shows "dialling k lb lb2"
proof (cases act)
  case (LbThread res j)
  with assms(4) have "j \<noteq> k" by auto
  with dialling_thread [OF assms(1), of k j res] assms(2,3) LbThread show ?thesis by (simp add: dialling_def)
next
  case (LbRun j res n)
  with assms(3) obtain b where b: "cbus_step (BRun j res n) (lb_bus lb1) = Some b" "lb2 = lb1\<lparr>lb_bus := b\<rparr>" by auto
  from own_fields [OF b(1)] assms(2) b(2) show ?thesis by (simp add: dialling_def)
next
  case (LbOwn i ract)
  with assms(3) obtain b where b: "cbus_step (BOwn i ract) (lb_bus lb1) = Some b" "lb2 = lb1\<lparr>lb_bus := b\<rparr>" by auto
  from own_fields [OF b(1)] assms(2) b(2) show ?thesis by (simp add: dialling_def)
qed (use assms(2,3) in \<open>auto simp: dialling_def nth_append\<close>)

lemma dialling_run:
  assumes "lbus_inv lb1" "dialling k lb lb1" "run_actions lbus_step later lb1 = Some lb2"
    "list_all (\<lambda>act. \<forall>res. act \<noteq> LbThread res k) later"
  shows "dialling k lb lb2"
  using assms
proof (induction later arbitrary: lb1)
  case (Cons act later)
  then obtain lb3 where one: "lbus_step act lb1 = Some lb3" "run_actions lbus_step later lb3 = Some lb2"
    by (auto split: Option.bind_splits)
  have "dialling k lb lb3" by (rule dialling_step [OF Cons.prems(1,2) one(1)]) (use Cons.prems(4) in simp)
  from Cons.IH [OF inv_lbus_step [OF Cons.prems(1) one(1)] this one(2)] Cons.prems(4) show ?case by simp
qed simp

text \<open>
  A Connect that dials keeps every other call of the bus waiting, IsConnected and Disconnect included, until it
  has finished; then its session is the only new one.
\<close>

lemma connect_excludes:
  assumes "run_actions lbus_step acts (New_lbus cfg) = Some lb" "k < length (lb_threads lb)" "lb_threads lb ! k = PConnDial"
    and "run_actions lbus_step later lb = Some lb'" "list_all (\<lambda>act. \<forall>res. act \<noteq> LbThread res k) later"
  shows "dialling k lb lb' \<and> (\<exists>lb''. lbus_step (LbThread None k) lb' = Some lb'' \<and> lb_threads lb'' ! k = PConnDone None
    \<and> lb_mu lb'' = None \<and> cb_rtr (lb_bus lb'') = Some (length (cb_rtrs (lb_bus lb))) \<and> cb_connected (lb_bus lb''))"
proof -
  have L: "lbus_inv lb" by (rule lbm.inv_run_start [OF assms(1)])
  with assms(2,3) have "lb_mu lb = Some k" by (simp add: lbus_inv_def)
  with assms(2,3) have "dialling k lb lb" by (simp add: dialling_def)
  from dialling_run [OF L this assms(4,5)] have d: "dialling k lb lb'" .
  then have "\<exists>lb''. thread_step None k lb' = Some lb'' \<and> lb_threads lb'' ! k = PConnDone None \<and> lb_mu lb'' = None
    \<and> cb_rtr (lb_bus lb'') = Some (length (cb_rtrs (lb_bus lb))) \<and> cb_connected (lb_bus lb'')"
    by (simp add: dialling_def thread_step_def Connect_finish_def Let_def)
  with d show ?thesis by simp
qed

text \<open>
  C17: The mutex of the bus makes its methods one step each. Every run of calls that wait for the mutex, hold it
  and work on after it, Connect with its dial under it included, is a run of the machine whose critical sections are single steps, and never
  two calls are under the mutex. A Connect that holds it while it dials needs no second look at \<open>connected\<close>:
  sessions are as many as that machine makes, each on the bus, in the hands of one Disconnect, or
  disconnected.
\<close>

theorem bus_mutex_refines:
  assumes "run_actions lbus_step acts (New_lbus cfg) = Some lb"
  shows "(\<exists>cacts. run_actions cbus_step cacts (cbus_New cfg) = Some (lb_bus lb) \<and> length cacts \<le> length acts)
    \<and> (\<forall>j k. j < length (lb_threads lb) \<and> k < length (lb_threads lb)
        \<and> under_mu (lb_threads lb ! j) \<and> under_mu (lb_threads lb ! k) \<longrightarrow> j = k)
    \<and> mset (opt (cb_rtr (lb_bus lb)) @ concat (map holds (cb_calls (lb_bus lb))) @ cb_disc (lb_bus lb))
      = mset [0..<length (cb_rtrs (lb_bus lb))]"
proof -
  have L: "lbus_inv lb" by (rule lbm.inv_run_start [OF assms])
  have "lbus_inv (New_lbus cfg)" by (rule lbm.inv_start)
  from lbus_run_run [OF this assms] obtain cacts where
    c: "run_actions cbus_step cacts (cbus_New cfg) = Some (lb_bus lb)" "length cacts \<le> length acts" by (auto simp: New_lbus_def)
  have "cbus_inv (lb_bus lb)" by (rule cm.inv_run_start [OF c(1)])
  moreover have "j = k" if "j < length (lb_threads lb)" "k < length (lb_threads lb)"
    "under_mu (lb_threads lb ! j)" "under_mu (lb_threads lb ! k)" for j k
    using L that unfolding lbus_inv_def by (metis option.inject)
  ultimately show ?thesis using c cbus_invD(7) by blast
qed

text \<open>Two Connects and a Disconnect: the second Connect finds the session of the first, the Disconnect takes it.\<close>

definition two_connects :: "nat lbus_action list" where
  "two_connects =
     [LbConnect, LbConnect, LbCall MDisconnect, LbThread None 1, LbThread None 1, LbThread None 1,
      LbThread None 0, LbThread None 0, LbThread None 2, LbThread None 2]"

theorem bus_mutex_refines_witness:
  "\<exists>lb cacts. run_actions lbus_step two_connects (New_lbus user_cfg) = Some lb
     \<and> lb_threads lb = [PConnDone None, PConnDone None, PAfter] \<and> length (cb_rtrs (lb_bus lb)) = 1
     \<and> run_actions cbus_step cacts (cbus_New user_cfg) = Some (lb_bus lb) \<and> length cacts \<le> 10"
proof -
  have "\<exists>lb. run_actions lbus_step two_connects (New_lbus user_cfg) = Some lb
     \<and> lb_threads lb = [PConnDone None, PConnDone None, PAfter] \<and> length (cb_rtrs (lb_bus lb)) = 1"
    by (simp add: two_connects_def New_lbus_def thread_step_def mu_Lock_def mu_Unlock_def at_point_def Connect_finish_def
      cbus_eval Let_def)
  then obtain lb where lb: "run_actions lbus_step two_connects (New_lbus user_cfg) = Some lb"
    "lb_threads lb = [PConnDone None, PConnDone None, PAfter]" "length (cb_rtrs (lb_bus lb)) = 1" by blast
  have "length two_connects = 10" by (simp add: two_connects_def)
  with bus_mutex_refines [OF lb(1)] lb show ?thesis by auto
qed

end
