(* ===== verification/StompGate.thy ===== *)
theory StompGate
  imports Stomp
begin

text \<open>
  Unsubscribe against Disconnect: the calls that run at the same time on one connection of the
  package internal/stomp. Each subscription has one Unsubscribe under its \<open>once\<close>, at a point of its
  code; any number of Disconnect calls are at a point of theirs. What go-stomp returns, and when, is
  left to the actions.
\<close>

section \<open>State\<close>

text \<open>
  An Unsubscribe has not begun, has closed \<open>stop\<close> and is about to ask the gate, is inside go-stomp's
  Unsubscribe, or is over. A Disconnect waits for pending unsubscribes, is inside one of go-stomp's
  two calls, or is over with its result.
\<close>

datatype upc = UnIdle | UnBegin | UnCall | UnDone

datatype dpc = DcWait | DcMust | DcGrace | DcDone "goerr option"

record 'g gated =
  gt_c :: "'g sconn"
  gt_un :: "upc list"
  gt_dis :: "dpc list"

datatype 'g gate_action =
    GSubscribe gocontext nat string
  | GUnsubscribe nat
  | GBegin nat
  | GReturn nat "goerr option outcome" 'g
  | GDisconnect
  | GWaited nat
  | GDisReturn nat "goerr option" bool 'g
  | GSubEvent nat sub_event

definition gate_start :: "'g sconn \<Rightarrow> 'g gated" where
  "gate_start c = \<lparr>gt_c = c\<lparr>sc_closing := False, sc_unsubs := 0, sc_subs := []\<rparr>, gt_un = [], gt_dis = []\<rparr>"

definition set_un :: "nat \<Rightarrow> upc \<Rightarrow> 'g sconn \<Rightarrow> 'g gated \<Rightarrow> 'g gated" where
  "set_un i u c t = t\<lparr>gt_c := c, gt_un := (gt_un t)[i := u]\<rparr>"

definition un_at :: "'g gated \<Rightarrow> nat \<Rightarrow> upc \<Rightarrow> bool" where
  "un_at t i u \<longleftrightarrow> i < length (gt_un t) \<and> gt_un t ! i = u"

definition dis_at :: "'g gated \<Rightarrow> nat \<Rightarrow> dpc \<Rightarrow> bool" where
  "dis_at t k d \<longleftrightarrow> k < length (gt_dis t) \<and> gt_dis t ! k = d"

text \<open>The code of \<open>sub.Unsubscribe\<close>, \<open>sub.unsubscribe\<close> and \<open>conn.Disconnect\<close>, one point at a time.\<close>

fun gate_step :: "'g gate_action \<Rightarrow> 'g gated \<Rightarrow> 'g gated option" where
  "gate_step (GSubscribe ctx n dest) t =
     Some (t\<lparr>gt_c := (gt_c t)\<lparr>sc_subs := sc_subs (gt_c t) @ [newSub ctx n dest]\<rparr>, gt_un := gt_un t @ [UnIdle]\<rparr>)"
| "gate_step (GUnsubscribe i) t =
     (if un_at t i UnIdle
      then Some (set_un i UnBegin (update_sub i (\<lambda>s. s\<lparr>ss_once := True, ss_stop := True\<rparr>) (gt_c t)) t)
      else None)"
| "gate_step (GBegin i) t =
     (if un_at t i UnBegin then
        (case beginUnsubscribe (gt_c t) of
           (False, c) \<Rightarrow> Some (set_un i UnDone (update_sub i (\<lambda>s. s\<lparr>ss_err := Some ErrDisconnected\<rparr>) c) t)
         | (True, c) \<Rightarrow> Some (set_un i UnCall c t))
      else None)"
| "gate_step (GReturn i r g) t =
     (if un_at t i UnCall then
        (let c = endUnsubscribe ((gt_c t)\<lparr>sc_c := g\<rparr>) in
         case unsubscribe_error r of
           Ret err \<Rightarrow> Some (set_un i UnDone (update_sub i (\<lambda>s. s\<lparr>ss_err := err\<rparr>) c) t)
         | _ \<Rightarrow> Some (set_un i UnDone c t))
      else None)"
| "gate_step GDisconnect t =
     Some (t\<lparr>gt_c := (gt_c t)\<lparr>sc_closing := True\<rparr>, gt_dis := gt_dis t @ [DcWait]\<rparr>)"
| "gate_step (GWaited k) t =
     (if dis_at t k DcWait \<and> sc_unsubs (gt_c t) = 0
      then Some (t\<lparr>gt_dis := (gt_dis t)[k := if sc_ended (gt_c t) then DcMust else DcGrace]\<rparr>)
      else None)"
| "gate_step (GDisReturn k err fired g) t =
     (let c = (gt_c t)\<lparr>sc_c := g\<rparr> in
      if dis_at t k DcMust then
        Some (t\<lparr>gt_c := c, gt_dis := (gt_dis t)[k := DcDone
          (case err of None \<Rightarrow> None | Some e \<Rightarrow> Some (Errorf ''stomp disconnect: %w'' [] [e]))]\<rparr>)
      else if dis_at t k DcGrace then
        (let closed = (0 < sc_closeAfter c \<and> fired) in
         Some (t\<lparr>gt_c := c\<lparr>sc_rwc := (sc_rwc c)\<lparr>rw_closed := rw_closed (sc_rwc c) \<or> closed\<rparr>\<rparr>,
                 gt_dis := (gt_dis t)[k := DcDone (disconnect_error (sc_bound c) (sc_closeAfter c) closed err)]\<rparr>))
      else None)"
| "gate_step (GSubEvent i ev) t =
     (if i < length (sc_subs (gt_c t)) \<and> ev \<noteq> StopClose
      then Some (t\<lparr>gt_c := sub_event_step i ev (gt_c t)\<rparr>) else None)"

section \<open>The invariant\<close>

text \<open>
  The counter counts the calls inside go-stomp's Unsubscribe; the gate is shut exactly when a
  Disconnect has begun; and once one is past its wait, the counter is zero for good.
\<close>

definition in_calls :: "upc list \<Rightarrow> nat" where
  "in_calls us = length (filter (\<lambda>u. u = UnCall) us)"

definition gate_inv :: "'g gated \<Rightarrow> bool" where
  "gate_inv t \<longleftrightarrow>
     length (gt_un t) = length (sc_subs (gt_c t))
     \<and> sc_unsubs (gt_c t) = in_calls (gt_un t)
     \<and> (sc_closing (gt_c t) \<longleftrightarrow> gt_dis t \<noteq> [])
     \<and> (\<forall>d \<in> set (gt_dis t). d \<noteq> DcWait \<longrightarrow> sc_unsubs (gt_c t) = 0)"

lemma in_calls_append [simp]: "in_calls (us @ vs) = in_calls us + in_calls vs"
  by (simp add: in_calls_def)

lemma in_calls_update:
  assumes "i < length us"
  shows "in_calls (us[i := u]) + (if us ! i = UnCall then 1 else 0) = in_calls us + (if u = UnCall then 1 else 0)"
proof -
  have "in_calls (take i us @ us ! i # drop (Suc i) us) = in_calls us"
    using assms by (simp add: id_take_nth_drop [symmetric])
  with assms show ?thesis by (auto simp: upd_conv_take_nth_drop in_calls_def)
qed

lemma in_calls_zero: "in_calls us = 0 \<longleftrightarrow> (\<forall>u \<in> set us. u \<noteq> UnCall)"
  by (auto simp: in_calls_def filter_empty_conv)

lemma sub_event_step_sel [simp]:
  assumes "i < length (sc_subs c)" "ev \<noteq> StopClose"
  shows "length (sc_subs (sub_event_step i ev c)) = length (sc_subs c)"
    "sc_unsubs (sub_event_step i ev c) = sc_unsubs c" "sc_closing (sub_event_step i ev c) = sc_closing c"
  using sub_event_frame [OF assms] by (simp_all add: sub_frame_def)

lemma gate_inv_un:
  assumes "gate_inv t" "i < length (gt_un t)" "length (sc_subs c) = length (sc_subs (gt_c t))"
    and "sc_closing c = sc_closing (gt_c t)"
    and "sc_unsubs c + (if gt_un t ! i = UnCall then 1 else 0) = sc_unsubs (gt_c t) + (if u = UnCall then 1 else 0)"
    and "u = UnCall \<Longrightarrow> \<not> sc_closing (gt_c t)"
  shows "gate_inv (set_un i u c t)"
  using assms in_calls_update [OF assms(2), of u]
  by (auto simp: gate_inv_def set_un_def split: if_splits)

lemma gate_inv_dis:
  assumes "gate_inv t" "length (sc_subs c) = length (sc_subs (gt_c t))" "sc_closing c = sc_closing (gt_c t)"
    and "sc_unsubs c = sc_unsubs (gt_c t)" "d \<noteq> DcWait \<longrightarrow> sc_unsubs (gt_c t) = 0"
  shows "gate_inv (t\<lparr>gt_c := c, gt_dis := (gt_dis t)[k := d]\<rparr>)"
  using assms by (auto simp: gate_inv_def dest!: set_update_subset_insert [THEN subsetD])

lemma gate_inv_step:
  assumes "gate_inv t" "gate_step act t = Some t'"
  shows "gate_inv t'"
proof (cases act)
  case (GSubscribe ctx n dest)
  with assms show ?thesis by (auto simp: gate_inv_def in_calls_def)
next
  case (GUnsubscribe i)
  with assms show ?thesis by (auto simp: un_at_def split: if_splits intro!: gate_inv_un)
next
  case (GBegin i)
  with assms show ?thesis
    by (auto simp: un_at_def beginUnsubscribe_def split: if_splits intro!: gate_inv_un)
next
  case (GReturn i r g)
  then have i: "i < length (gt_un t)" "gt_un t ! i = UnCall" using assms(2) by (auto simp: un_at_def split: if_splits)
  have "0 < sc_unsubs (gt_c t)"
    using assms(1) i in_calls_update [OF i(1), of UnDone] by (simp add: gate_inv_def)
  with GReturn assms i show ?thesis
    by (auto simp: un_at_def endUnsubscribe_def Let_def split: if_splits outcome.splits intro!: gate_inv_un)
next
  case GDisconnect
  with assms show ?thesis by (auto simp: gate_inv_def)
next
  case (GWaited k)
  with assms gate_inv_dis [OF assms(1), of "gt_c t"] show ?thesis by (auto split: if_splits)
next
  case (GDisReturn k err fired g)
  then have "\<exists>d \<in> set (gt_dis t). d \<noteq> DcWait"
    using assms(2) by (auto simp: dis_at_def Let_def split: if_splits) (metis dpc.distinct nth_mem)+
  then have "sc_unsubs (gt_c t) = 0" using assms(1) by (auto simp: gate_inv_def)
  with GDisReturn assms show ?thesis
    by (auto simp: Let_def split: if_splits intro!: gate_inv_dis)
next
  case (GSubEvent i ev)
  with assms show ?thesis by (auto simp: gate_inv_def split: if_splits)
qed

interpretation gm: machine gate_step "gate_start c" gate_inv for c
proof unfold_locales
  show "gate_inv (gate_start c)" by (simp add: gate_start_def gate_inv_def in_calls_def)
qed (rule gate_inv_step)

section \<open>Properties\<close>

text \<open>
  C5: go-stomp's connection is never closed under an Unsubscribe: whenever a Disconnect is inside
  go-stomp, gracefully or not, no Unsubscribe is, in any interleaving of subscriptions, unsubscribes,
  disconnects and bridges; and an Unsubscribe that asks the gate from then on is refused with
  errDisconnected.
\<close>

theorem gate_exclusion:
  assumes "reach gate_step (gate_start c) t" "dis_at t k DcMust \<or> dis_at t k DcGrace"
  shows "(\<forall>i < length (gt_un t). gt_un t ! i \<noteq> UnCall)
    \<and> (\<forall>i t'. gate_step (GBegin i) t = Some t' \<longrightarrow>
         gt_un t' ! i = UnDone \<and> ss_err (sc_subs (gt_c t') ! i) = Some ErrDisconnected \<and> sc_c (gt_c t') = sc_c (gt_c t))"
proof -
  have I: "gate_inv t" by (rule gm.inv_reach [OF assms(1)])
  have d: "\<exists>d \<in> set (gt_dis t). d \<noteq> DcWait"
    using assms(2) by (auto simp: dis_at_def) (metis dpc.distinct nth_mem)+
  with I have "in_calls (gt_un t) = 0" "sc_closing (gt_c t)" by (auto simp: gate_inv_def)
  moreover from this have "\<forall>i < length (gt_un t). gt_un t ! i \<noteq> UnCall" by (simp add: in_calls_zero)
  ultimately show ?thesis
    using I by (auto simp: beginUnsubscribe_def set_un_def un_at_def gate_inv_def update_sub_def split: if_splits)
qed

definition gate_example :: "nat gated" where
  "gate_example = the (run_actions gate_step
     [GSubscribe (CallerCtx None) 4 ''/queue/a'', GUnsubscribe 0, GDisconnect, GWaited 0] (gate_start conn1))"

lemma gate_example_run:
  "run_actions gate_step
     [GSubscribe (CallerCtx None) 4 ''/queue/a'', GUnsubscribe 0, GDisconnect, GWaited 0] (gate_start conn1)
   = Some gate_example"
  by (simp add: gate_example_def gate_start_def un_at_def dis_at_def set_un_def update_sub_def)

lemma gate_example_state:
  "dis_at gate_example 0 DcGrace" "un_at gate_example 0 UnBegin"
  by (simp_all add: gate_example_def gate_start_def un_at_def dis_at_def set_un_def update_sub_def conn1_def)

theorem gate_exclusion_witness:
  "\<exists>t'. gate_step (GBegin 0) gate_example = Some t' \<and> gt_un t' ! 0 = UnDone"
proof -
  have "gate_step (GBegin 0) gate_example \<noteq> None"
    using gate_example_state(2) by (cases "sc_closing (gt_c gate_example)") (simp_all add: beginUnsubscribe_def)
  then obtain t' where t': "gate_step (GBegin 0) gate_example = Some t'" by blast
  from gate_exclusion [OF run_reach [OF gate_example_run], of 0] gate_example_state(1) t' show ?thesis by blast
qed

lemma pending_returns:
  "gate_inv t \<Longrightarrow> \<exists>is t'. run_actions gate_step (map (\<lambda>i. GReturn i (Ret None) g) is) t = Some t'
     \<and> sc_unsubs (gt_c t') = 0 \<and> gt_dis t' = gt_dis t"
proof (induction "sc_unsubs (gt_c t)" arbitrary: t)
  case 0
  then show ?case by (intro exI [of _ "[]"] exI [of _ t]) simp
next
  case (Suc n)
  then have "in_calls (gt_un t) \<noteq> 0" by (simp add: gate_inv_def)
  then obtain i where i: "i < length (gt_un t)" "gt_un t ! i = UnCall" by (auto simp: in_calls_zero in_set_conv_nth)
  let ?t = "set_un i UnDone (update_sub i (\<lambda>s. s\<lparr>ss_err := None\<rparr>) (endUnsubscribe ((gt_c t)\<lparr>sc_c := g\<rparr>))) t"
  have st: "gate_step (GReturn i (Ret None) g) t = Some ?t" using i by (simp add: un_at_def unsubscribe_error_def)
  have "n = sc_unsubs (gt_c ?t)" using Suc.hyps(2) by (simp add: set_un_def endUnsubscribe_def)
  from Suc.hyps(1) [OF this gate_inv_step [OF Suc.prems st]] obtain "is" t' where
    "run_actions gate_step (map (\<lambda>i. GReturn i (Ret None) g) is) ?t = Some t'" "sc_unsubs (gt_c t') = 0" "gt_dis t' = gt_dis ?t"
    by blast
  with st show ?case
    by (intro exI [of _ "i # is"] exI [of _ t']) (simp add: set_un_def)
qed

text \<open>
  The wait of Disconnect cannot deadlock: from every reachable state, when the unsubscribes that
  are inside go-stomp return, and nothing else happens, a waiting Disconnect goes on.
\<close>

lemma disconnect_not_stuck:
  assumes "reach gate_step (gate_start c) t" "dis_at t k DcWait"
  shows "\<exists>is t1 t2. run_actions gate_step (map (\<lambda>i. GReturn i (Ret None) g) is) t = Some t1
    \<and> gate_step (GWaited k) t1 = Some t2 \<and> (dis_at t2 k DcMust \<or> dis_at t2 k DcGrace)"
proof -
  from pending_returns [OF gm.inv_reach [OF assms(1)], of g] obtain "is" t1 where
    t1: "run_actions gate_step (map (\<lambda>i. GReturn i (Ret None) g) is) t = Some t1" "sc_unsubs (gt_c t1) = 0"
      "gt_dis t1 = gt_dis t" by blast
  let ?t2 = "t1\<lparr>gt_dis := (gt_dis t1)[k := if sc_ended (gt_c t1) then DcMust else DcGrace]\<rparr>"
  have "gate_step (GWaited k) t1 = Some ?t2" "dis_at ?t2 k DcMust \<or> dis_at ?t2 k DcGrace"
    using t1 assms(2) by (simp_all add: dis_at_def)
  with t1(1) show ?thesis by blast
qed

end
