(* ===== verification/RouterTokens.thy ===== *)
theory RouterTokens
  imports RouterProps
begin

text \<open>
  The token of a Subscribe is drawn before the lock is taken, so the tokens that calls get need not be in
  the order in which they take the lock. Here the part of Subscribe under the lock has the token as an
  argument, and which numbers the tokens are is shown not to matter: every step from a state is matched
  by a step from the same state with its tokens renamed one to one, a Subscribe that brings a token not
  in use by the Subscribe that draws the next number.
\<close>

section \<open>Subscribe under the lock\<close>

text \<open>The two ways in which Subscribe changes the registry: a handler for a live state, a new state.\<close>

definition attach :: "token \<Rightarrow> nat \<Rightarrow> 'h \<Rightarrow> 'h router \<Rightarrow> 'h router" where
  "attach tok a h r =
     r\<lparr>states := (states r)[a := (states r ! a)\<lparr>ds_handlers := AList.update tok h (ds_handlers (states r ! a))\<rparr>]\<rparr>"

definition register :: "token \<Rightarrow> string \<Rightarrow> 'h \<Rightarrow> nat \<Rightarrow> 'h router \<Rightarrow> 'h router" where
  "register tok dest h n r =
     r\<lparr>chans := chans r @ [make_chan n],
       states := states r @ [\<lparr>ds_sub = length (chans r), ds_handlers = [(tok, h)], ds_done = False\<rparr>],
       dests := AList.update dest (length (states r)) (dests r),
       wg := wg r + 1,
       readers := readers r @ [\<lparr>rd_dest = dest, rd_pc = ReadRecv\<rparr>]\<rparr>"

definition Subscribe_locked ::
  "token \<Rightarrow> string \<Rightarrow> 'h \<Rightarrow> goerr option \<Rightarrow> nat \<Rightarrow> 'h router \<Rightarrow> (goerr + token) \<times> 'h router" where
  "Subscribe_locked tok dest h res n r =
     (case live_state r dest of
        Some a \<Rightarrow> (Inr tok, attach tok a h r)
      | None \<Rightarrow>
          (case res of
             Some e \<Rightarrow> (Inl (Errorf ''router: subscribe %q: %w'' [StrArg dest] [e]), r)
           | None \<Rightarrow> (Inr tok, register tok dest h n r)))"

lemma router_Subscribe_locked:
  "router_Subscribe dest h res n r = Subscribe_locked (nextToken r + 1) dest h res n (r\<lparr>nextToken := nextToken r + 1\<rparr>)"
  by (simp add: router_Subscribe_def Subscribe_locked_def attach_def register_def Let_def split: option.splits)

lemma Subscribe_locked_counter:
  "Subscribe_locked tok dest h res n (r\<lparr>nextToken := k\<rparr>) = map_prod id (\<lambda>r'. r'\<lparr>nextToken := k\<rparr>) (Subscribe_locked tok dest h res n r)"
  by (simp add: Subscribe_locked_def attach_def register_def split: option.splits)

lemma router_inv_counter [simp]: "router_inv (r\<lparr>nextToken := k\<rparr>) = router_inv r"
  by (simp add: router_inv_def cell_ok_def entry_ok_def)

lemma inv_Subscribe_locked:
  assumes "router_inv r"
  shows "router_inv (snd (Subscribe_locked tok dest h res n r))"
proof -
  have "router_inv (snd (router_Subscribe dest h res n (r\<lparr>nextToken := tok - 1\<rparr>)))" using assms by (intro inv_Subscribe) simp
  then show ?thesis by (simp add: router_Subscribe_locked Subscribe_locked_counter)
qed

definition in_use :: "'h router \<Rightarrow> token set" where
  "in_use r = (\<Union>st \<in> set (states r). fst ` set (ds_handlers st))"

section \<open>Renaming tokens\<close>

definition ren_state :: "(token \<Rightarrow> token) \<Rightarrow> 'h destState \<Rightarrow> 'h destState" where
  "ren_state \<rho> st = st\<lparr>ds_handlers := map (apfst \<rho>) (ds_handlers st)\<rparr>"

definition ren :: "(token \<Rightarrow> token) \<Rightarrow> 'h router \<Rightarrow> 'h router" where
  "ren \<rho> r = r\<lparr>states := map (ren_state \<rho>) (states r)\<rparr>"

lemma ren_state_sel [simp]:
  "ds_sub (ren_state \<rho> st) = ds_sub st" "ds_done (ren_state \<rho> st) = ds_done st" "dead (ren_state \<rho> st) = dead st"
  "ds_handlers (ren_state \<rho> st) = map (apfst \<rho>) (ds_handlers st)"
  "ren_state \<rho> (st\<lparr>ds_done := b\<rparr>) = (ren_state \<rho> st)\<lparr>ds_done := b\<rparr>"
  by (simp_all add: ren_state_def dead_def)

lemma ren_sel [simp]:
  "dests (ren \<rho> r) = dests r" "readers (ren \<rho> r) = readers r" "chans (ren \<rho> r) = chans r" "errs (ren \<rho> r) = errs r"
  "wg (ren \<rho> r) = wg r" "pending (ren \<rho> r) = pending r" "called (ren \<rho> r) = called r" "closing (ren \<rho> r) = closing r"
  "calls (ren \<rho> r) = calls r" "nextToken (ren \<rho> r) = nextToken r" "states (ren \<rho> r) = map (ren_state \<rho>) (states r)"
  by (simp_all add: ren_def)

lemma ren_upd [simp]:
  "(ren \<rho> r)\<lparr>dests := ds\<rparr> = ren \<rho> (r\<lparr>dests := ds\<rparr>)" "(ren \<rho> r)\<lparr>readers := rs\<rparr> = ren \<rho> (r\<lparr>readers := rs\<rparr>)"
  "(ren \<rho> r)\<lparr>chans := cs\<rparr> = ren \<rho> (r\<lparr>chans := cs\<rparr>)" "(ren \<rho> r)\<lparr>errs := ec\<rparr> = ren \<rho> (r\<lparr>errs := ec\<rparr>)"
  "(ren \<rho> r)\<lparr>wg := n\<rparr> = ren \<rho> (r\<lparr>wg := n\<rparr>)" "(ren \<rho> r)\<lparr>pending := ps\<rparr> = ren \<rho> (r\<lparr>pending := ps\<rparr>)"
  "(ren \<rho> r)\<lparr>called := ps\<rparr> = ren \<rho> (r\<lparr>called := ps\<rparr>)" "(ren \<rho> r)\<lparr>closing := ps\<rparr> = ren \<rho> (r\<lparr>closing := ps\<rparr>)"
  "(ren \<rho> r)\<lparr>calls := cs'\<rparr> = ren \<rho> (r\<lparr>calls := cs'\<rparr>)" "(ren \<rho> r)\<lparr>nextToken := k\<rparr> = ren \<rho> (r\<lparr>nextToken := k\<rparr>)"
  by (simp_all add: ren_def)

lemma ren_states_upd:
  "(ren \<rho> r)\<lparr>states := (map (ren_state \<rho>) (states r))[a := ren_state \<rho> st]\<rparr> = ren \<rho> (r\<lparr>states := (states r)[a := st]\<rparr>)"
  by (simp add: ren_def map_update)

lemma ren_cong:
  assumes "\<And>t. t \<in> in_use r \<Longrightarrow> \<rho> t = \<rho>' t"
  shows "ren \<rho> r = ren \<rho>' r"
proof -
  have "ren_state \<rho> st = ren_state \<rho>' st" if "st \<in> set (states r)" for st
  proof -
    have "map (apfst \<rho>) (ds_handlers st) = map (apfst \<rho>') (ds_handlers st)"
      using assms that by (auto simp: in_use_def)
    then show ?thesis by (simp add: ren_state_def)
  qed
  then show ?thesis by (simp add: ren_def cong: map_cong)
qed

lemma set_pc_ren [simp]: "set_pc a pc (ren \<rho> r) = ren \<rho> (set_pc a pc r)"
  by (simp add: set_pc_def)

lemma ren_readLoop:
  assumes "length (readers r) = length (states r)"
  shows "readLoop_step hs a (ren \<rho> r) = map_option (ren \<rho>) (readLoop_step hs a r)"
proof (cases "a < length (readers r)")
  case True
  then have a: "a < length (states r)" using assms by simp
  have s: "image_mset snd (image_mset (apfst \<rho>) M) = image_mset snd M" for M :: "(token \<times> 'a) multiset"
    by (simp add: multiset.map_comp comp_def)
  have d: "(ren \<rho> r)\<lparr>states := (map (ren_state \<rho>) (states r))[a := (ren_state \<rho> (states r ! a))\<lparr>ds_done := True\<rparr>]\<rparr> =
    ren \<rho> (r\<lparr>states := (states r)[a := (states r ! a)\<lparr>ds_done := True\<rparr>]\<rparr>)"
    using ren_states_upd [of \<rho> r a "(states r ! a)\<lparr>ds_done := True\<rparr>"] by simp
  show ?thesis
    using True a d
    by (cases "pc_of r a") (auto simp: readLoop_step_def Let_def s
      split: recv_result.splits send_result.splits option.splits list.splits)
qed (simp add: readLoop_step_def)

text \<open>The other steps do not look at tokens.\<close>

lemma ren_step:
  assumes "length (readers r) = length (states r)" "\<forall>p \<in> set (dests r). snd p < length (states r)"
    "\<not> is_subscribe act" "\<forall>d t. act \<noteq> DoUnsubscribe d t"
  shows "router_step act (ren \<rho> r) = map_option (ren \<rho>) (router_step act r)"
proof (cases act)
  case DoClose
  have "filter (\<lambda>(d, a). \<not> dead (map (ren_state \<rho>) (states r) ! a)) (dests r) = filter (\<lambda>(d, a). \<not> dead (states r ! a)) (dests r)"
    by (rule filter_cong) (use assms(2) in auto)
  moreover have "map (\<lambda>(d, a). ds_sub (map (ren_state \<rho>) (states r) ! a)) ps = map (\<lambda>(d, a). ds_sub (states r ! a)) ps"
    if "set ps \<subseteq> set (dests r)" for ps
    by (rule map_cong [OF refl]) (use that assms(2) in fastforce)
  ultimately show ?thesis using DoClose by (simp add: Close_locked_def del: map_eq_conv)
next
  case (DoReader hs a)
  then show ?thesis using ren_readLoop [OF assms(1)] by simp
qed (use assms(3,4) in \<open>auto split: send_result.splits recv_result.splits\<close>)

lemma delete_apfst:
  "inj_on \<rho> (insert t (fst ` set xs)) \<Longrightarrow> AList.delete (\<rho> t) (map (apfst \<rho>) xs) = map (apfst \<rho>) (AList.delete t xs)"
proof (induction xs)
  case (Cons x xs)
  then have "\<rho> (fst x) = \<rho> t \<longleftrightarrow> fst x = t" by (auto simp: inj_on_def)
  moreover have "inj_on \<rho> (insert t (fst ` set xs))" using Cons.prems by (auto intro: inj_on_subset)
  ultimately show ?case using Cons.IH by (cases x) auto
qed simp

lemma update_new: "k \<notin> fst ` set xs \<Longrightarrow> AList.update k v xs = xs @ [(k, v)]"
  by (induction xs) auto

lemma in_use_state: "a < length (states r) \<Longrightarrow> fst ` set (ds_handlers (states r ! a)) \<subseteq> in_use r"
  unfolding in_use_def by (rule UN_upper) simp

lemma ren_Unsubscribe:
  assumes "router_inv r" "inj_on \<rho> (insert tok (in_use r))"
  shows "router_step (DoUnsubscribe d (\<rho> tok)) (ren \<rho> r) = map_option (ren \<rho>) (router_step (DoUnsubscribe d tok) r)"
proof (cases "map_of (dests r) d")
  case None
  then show ?thesis by (simp add: Unsubscribe_locked_def)
next
  case (Some a)
  have a: "a < length (states r)" by (rule registered_entry(1) [OF assms(1) Some])
  let ?hs = "AList.delete tok (ds_handlers (states r ! a))"
  have "inj_on \<rho> (insert tok (fst ` set (ds_handlers (states r ! a))))"
    using assms(2) in_use_state [OF a] by (auto intro: inj_on_subset)
  from delete_apfst [OF this] have del: "AList.delete (\<rho> tok) (map (apfst \<rho>) (ds_handlers (states r ! a))) = map (apfst \<rho>) ?hs" .
  have st: "(ren_state \<rho> (states r ! a))\<lparr>ds_handlers := map (apfst \<rho>) ?hs\<rparr> = ren_state \<rho> ((states r ! a)\<lparr>ds_handlers := ?hs\<rparr>)"
    by (simp add: ren_state_def)
  show ?thesis using Some a by (simp add: Unsubscribe_locked_def Let_def del st ren_states_upd dead_def)
qed

lemma ren_Subscribe:
  assumes "router_inv r" "tok \<notin> in_use r" "tok' \<notin> \<rho> ` in_use r"
  shows "snd (Subscribe_locked tok' d h res n (ren \<rho> r)) = ren (\<rho>(tok := tok')) (snd (Subscribe_locked tok d h res n r))"
proof -
  let ?\<rho> = "\<rho>(tok := tok')"
  have same: "ren ?\<rho> r = ren \<rho> r" by (rule ren_cong) (use assms(2) in auto)
  have live: "live_state (ren \<rho> r) d = live_state r d"
    using registered_entry(1) [OF assms(1)] by (auto simp: live_state_def split: option.splits)
  show ?thesis
  proof (cases "live_state r d")
    case (Some a)
    then have a: "a < length (states r)" using registered_entry(1) [OF assms(1), of d a] by (simp add: live_state_Some)
    let ?st = "states r ! a"
    have new: "tok \<notin> fst ` set (ds_handlers ?st)" "tok' \<notin> fst ` set (map (apfst \<rho>) (ds_handlers ?st))"
      using assms(2,3) in_use_state [OF a] by auto
    have "map (apfst ?\<rho>) (ds_handlers ?st) = map (apfst \<rho>) (ds_handlers ?st)" using new(1) by (auto simp: image_iff)
    then have "(ren_state \<rho> ?st)\<lparr>ds_handlers := AList.update tok' h (map (apfst \<rho>) (ds_handlers ?st))\<rparr> =
      ren_state ?\<rho> (?st\<lparr>ds_handlers := AList.update tok h (ds_handlers ?st)\<rparr>)"
      unfolding update_new [OF new(1)] update_new [OF new(2)] by (simp add: ren_state_def)
    moreover have "map (ren_state ?\<rho>) (states r) = map (ren_state \<rho>) (states r)" using arg_cong [OF same, of states] by simp
    ultimately show ?thesis
      using Some a live by (simp add: Subscribe_locked_def attach_def ren_def map_update del: map_eq_conv)
  next
    case None
    have "map (ren_state ?\<rho>) (states r) = map (ren_state \<rho>) (states r)" using arg_cong [OF same, of states] by simp
    with None live same show ?thesis
      by (auto simp: Subscribe_locked_def register_def ren_def ren_state_def split: option.splits)
  qed
qed

section \<open>A run up to renaming\<close>

text \<open>
  The router \<open>q\<close> has drawn \<open>k\<close> tokens, none of them 0, and is \<open>r\<close> with the tokens in use renamed one to
  one.
\<close>

definition renamed :: "nat \<Rightarrow> 'h router \<Rightarrow> 'h router \<Rightarrow> bool" where
  "renamed k r q \<longleftrightarrow> router_inv r \<and>
     (\<exists>\<rho>. q = (ren \<rho> r)\<lparr>nextToken := of_nat k\<rparr> \<and> inj_on \<rho> (in_use r) \<and> (\<forall>t \<in> in_use r. \<rho> t \<noteq> 0 \<and> unat (\<rho> t) \<le> k))"

lemma in_use_step:
  assumes "router_inv r" "router_step act r = Some r'" "\<not> is_subscribe act"
  shows "in_use r' \<subseteq> in_use r"
proof
  fix t
  assume "t \<in> in_use r'"
  then obtain st h where "st \<in> set (states r')" "(t, h) \<in> set (ds_handlers st)" by (auto simp: in_use_def)
  with handlers_step [OF assms] obtain st' where "st' \<in> set (states r)" "(t, h) \<in> set (ds_handlers st')" by blast
  then show "t \<in> in_use r" unfolding in_use_def by force
qed

lemma in_use_Subscribe:
  assumes "router_inv r"
  shows "in_use (snd (Subscribe_locked tok d h res n r)) \<subseteq> insert tok (in_use r)"
proof (cases "live_state r d")
  case (Some a)
  then have a: "a < length (states r)" using registered_entry(1) [OF assms, of d a] by (simp add: live_state_Some)
  have "fst ` set (AList.update tok h (ds_handlers (states r ! a))) \<subseteq> insert tok (in_use r)"
    using set_alist_update_subset [of tok h "ds_handlers (states r ! a)"] in_use_state [OF a] by fastforce
  moreover have "in_use (r\<lparr>states := (states r)[a := st]\<rparr>) \<subseteq> fst ` set (ds_handlers st) \<union> in_use r" for st
    using set_update_subset_insert [of "states r" a st] by (force simp: in_use_def)
  ultimately show ?thesis using Some by (fastforce simp: Subscribe_locked_def attach_def)
qed (auto simp: Subscribe_locked_def register_def in_use_def split: option.splits)

lemma router_step_counter:
  "\<not> is_subscribe act \<Longrightarrow> router_step act (r\<lparr>nextToken := k\<rparr>) = map_option (\<lambda>r'. r'\<lparr>nextToken := k\<rparr>) (router_step act r)"
  by (cases act) (auto simp: Unsubscribe_locked_def Close_locked_def readLoop_step_def set_pc_def Let_def
    split: if_splits rpc.splits option.splits list.splits recv_result.splits send_result.splits)

lemma renamed_Subscribe:
  assumes R: "renamed k r q" and fresh: "tok \<notin> in_use r" and k: "Suc k < 2 ^ 64"
  shows "\<exists>q'. router_step (DoSubscribe d h res n) q = Some q' \<and> renamed (Suc k) (snd (Subscribe_locked tok d h res n r)) q'"
proof -
  from R obtain \<rho> where I: "router_inv r" and q: "q = (ren \<rho> r)\<lparr>nextToken := of_nat k\<rparr>" and inj: "inj_on \<rho> (in_use r)"
    and le: "\<forall>t \<in> in_use r. \<rho> t \<noteq> 0 \<and> unat (\<rho> t) \<le> k" by (auto simp: renamed_def)
  define t' :: token where "t' = of_nat (Suc k)"
  let ?\<rho> = "\<rho>(tok := t')"
  let ?r = "snd (Subscribe_locked tok d h res n r)"
  have u: "unat t' = Suc k" using k by (simp add: t'_def unat_of_nat take_bit_nat_eq_self del: of_nat_Suc)
  then have pos: "t' \<noteq> 0" by (metis nat.distinct(1) unat_0)
  have next': "of_nat k + 1 = t'" by (simp add: t'_def add.commute)
  have new: "t' \<notin> \<rho> ` in_use r"
  proof
    assume "t' \<in> \<rho> ` in_use r"
    with le have "unat t' \<le> k" by blast
    with u show False by linarith
  qed
  have "snd (router_Subscribe d h res n q) = (ren ?\<rho> ?r)\<lparr>nextToken := t'\<rparr>"
    using ren_Subscribe [OF I fresh new, of d h res n]
    by (simp add: router_Subscribe_locked q Subscribe_locked_counter next' del: ren_upd)
  moreover have "inj_on ?\<rho> (insert tok (in_use r))" using inj fresh new by (auto simp: inj_on_def)
  then have "inj_on ?\<rho> (in_use ?r)" using in_use_Subscribe [OF I] by (rule inj_on_subset)
  moreover have "\<forall>t \<in> in_use ?r. ?\<rho> t \<noteq> 0 \<and> unat (?\<rho> t) \<le> Suc k"
  proof
    fix t
    assume "t \<in> in_use ?r"
    with in_use_Subscribe [OF I, of tok d h res n] have "t = tok \<or> t \<noteq> tok \<and> t \<in> in_use r" by blast
    with le u pos show "?\<rho> t \<noteq> 0 \<and> unat (?\<rho> t) \<le> Suc k" by (elim disjE) (simp_all add: le_SucI)
  qed
  ultimately show ?thesis
    using inv_Subscribe_locked [OF I, of tok d h res n] unfolding renamed_def t'_def
    by (intro exI [of _ "snd (router_Subscribe d h res n q)"]) auto
qed

lemma renamed_other:
  assumes R: "renamed k r q" and st: "router_step act r = Some r'" and other: "\<not> is_subscribe act"
  shows "\<exists>act' q'. router_step act' q = Some q' \<and> renamed k r' q'"
proof -
  from R obtain \<rho> where I: "router_inv r" and q: "q = (ren \<rho> r)\<lparr>nextToken := of_nat k\<rparr>" and inj: "inj_on \<rho> (in_use r)"
    and le: "\<forall>t \<in> in_use r. \<rho> t \<noteq> 0 \<and> unat (\<rho> t) \<le> k" by (auto simp: renamed_def)
  note I' = inv_router_step [OF I st]
  note use = in_use_step [OF I st other]
  have fin: "renamed k r' ((ren \<rho>' r')\<lparr>nextToken := of_nat k\<rparr>)" if "\<And>t. t \<in> in_use r \<Longrightarrow> \<rho>' t = \<rho> t" for \<rho>'
    using I' use inj le that by (auto simp: renamed_def inj_on_def subset_iff intro!: exI [of _ \<rho>'])
  have len: "length (readers r) = length (states r)" "\<forall>p \<in> set (dests r). snd p < length (states r)"
    using router_invD [OF I] by (auto simp: entry_ok_def)
  show ?thesis
  proof (cases "\<exists>d t. act = DoUnsubscribe d t")
    case False
    then have "router_step act (ren \<rho> r) = Some (ren \<rho> r')" using ren_step [OF len other] st by simp
    with router_step_counter [OF other, of "of_nat k" "ren \<rho> r"] fin [of \<rho>] show ?thesis
      unfolding q by (intro exI [of _ act] exI conjI) simp_all
  next
    case True
    then obtain d t where act: "act = DoUnsubscribe d t" by blast
    define \<rho>' where "\<rho>' = (if t \<in> in_use r then \<rho> else \<rho>(t := 0))"
    have same: "\<And>t. t \<in> in_use r \<Longrightarrow> \<rho>' t = \<rho> t" by (auto simp: \<rho>'_def)
    have "inj_on \<rho>' (insert t (in_use r))"
      using inj le by (auto simp: \<rho>'_def insert_absorb inj_on_def)
    from ren_Unsubscribe [OF I this] have "router_step (DoUnsubscribe d (\<rho>' t)) (ren \<rho>' r) = Some (ren \<rho>' r')"
      using st act by simp
    with router_step_counter [of "DoUnsubscribe d (\<rho>' t)" "of_nat k" "ren \<rho>' r"] fin [OF same] ren_cong [of r \<rho>' \<rho>, OF same]
    show ?thesis unfolding q by (intro exI [of _ "DoUnsubscribe d (\<rho>' t)"] exI conjI) simp_all
  qed
qed

lemma in_use_counter [simp]: "in_use (r\<lparr>nextToken := t\<rparr>) = in_use r"
  by (simp add: in_use_def)

lemma renamed_counter [simp]: "renamed k (r\<lparr>nextToken := t\<rparr>) q = renamed k r q"
  by (simp add: renamed_def flip: ren_upd)

lemma renamed_New: "renamed 0 New_router New_router"
  using rt.inv_start by (auto simp: renamed_def New_router_def NewWithErrorChan_def ren_def in_use_def)

end
