(* ===== verification/RouterLocks.thy ===== *)
theory RouterLocks
  imports RouterTokens
begin

text \<open>
  The router with its mutex. In \<open>Router\<close> what runs under \<open>r.mu\<close> is one step; here the mutex is a field,
  a goroutine takes it, works while it holds it and gives it back, and every call of Subscribe,
  Unsubscribe and Close is a thread with a program counter, made by a goroutine of its own or by a
  handler that a reader is running. The registry and the handler maps are touched only under the mutex, so
  a step may do any number of accesses to them; a step looks at the rest of the shared data, \<open>done\<close> of a
  destination state above all, at most once.

  Shown: who holds the mutex and where, that the holder can always go on to its release, that calls from
  within a handler return, Close excepted, and that every run is a run of the machine of \<open>Router\<close>.
\<close>

section \<open>Calls as threads\<close>

text \<open>
  The points of a call: before the lock; under it (\<open>SubDial\<close> is the transport's Subscribe, \<open>CloScan\<close> the
  loop over the registry, with the entries still to come and the subscriptions found); after it; returned.
  A Wait on the wait group that does not find it at zero blocks (\<open>CloBlock\<close>). The Done that brings it to zero
  wakes it up (\<open>CloWoken\<close>), and a woken Wait that finds it above zero again panics, with the message that the wait group
  is reused before the previous Wait has returned (\<open>CloPanic\<close>).
\<close>

datatype 'h cpc =
    SubLock string 'h token
  | SubTest string 'h token
  | SubDial string 'h token
  | SubDone "goerr + token"
  | UnsLock string token
  | UnsBody string token
  | UnsCall string nat
  | UnsDone "goerr option"
  | CloLock
  | CloScan "(string \<times> nat) list" "nat list"
  | CloCall "nat list"
  | CloWait
  | CloBlock
  | CloWoken
  | CloPanic
  | CloDone

text \<open>\<open>op_from\<close>: the reader whose handler makes the call, if a handler does.\<close>

record 'h opcall =
  op_from :: "nat option"
  op_pc :: "'h cpc"

datatype holder = HCall nat | HRead nat

text \<open>\<open>lr_run\<close>: the readers that are inside a handler.\<close>

record 'h lrouter =
  lr_r :: "'h router"
  lr_mu :: "holder option"
  lr_ops :: "'h opcall list"
  lr_run :: "nat list"

definition New_lrouter :: "'h lrouter" where
  "New_lrouter = \<lparr>lr_r = New_router, lr_mu = None, lr_ops = [], lr_run = []\<rparr>"

fun has_lock :: "'h cpc \<Rightarrow> bool" where
  "has_lock (SubTest d h tok) = True"
| "has_lock (SubDial d h tok) = True"
| "has_lock (UnsBody d tok) = True"
| "has_lock (CloScan todo subs) = True"
| "has_lock _ = False"

fun returned :: "'h cpc \<Rightarrow> bool" where
  "returned (SubDone res) = True"
| "returned (UnsDone err) = True"
| "returned CloDone = True"
| "returned _ = False"

text \<open>Points that a Close reaches only when the wait group has come down to zero.\<close>

fun past_wait :: "'h cpc \<Rightarrow> bool" where
  "past_wait CloWoken = True"
| "past_wait CloPanic = True"
| "past_wait CloDone = True"
| "past_wait _ = False"

fun needs_lock :: "'h rpc \<Rightarrow> bool" where
  "needs_lock (ReadSnap m) = True"
| "needs_lock (ReadDereg t) = True"
| "needs_lock _ = False"

definition goto :: "nat \<Rightarrow> 'h cpc \<Rightarrow> 'h lrouter \<Rightarrow> 'h lrouter" where
  "goto k pc lr = lr\<lparr>lr_ops := (lr_ops lr)[k := (lr_ops lr ! k)\<lparr>op_pc := pc\<rparr>]\<rparr>"

text \<open>The caller goes on under the mutex when it is free, and waits otherwise.\<close>

definition acquire :: "nat \<Rightarrow> 'h cpc \<Rightarrow> 'h lrouter \<Rightarrow> 'h lrouter option" where
  "acquire k pc lr = (if lr_mu lr = None then Some (goto k pc (lr\<lparr>lr_mu := Some (HCall k)\<rparr>)) else None)"

definition release :: "nat \<Rightarrow> 'h cpc \<Rightarrow> 'h router \<Rightarrow> 'h lrouter \<Rightarrow> 'h lrouter" where
  "release k pc r lr = goto k pc (lr\<lparr>lr_r := r, lr_mu := None\<rparr>)"

text \<open>The end of Close's critical section: the list of subscriptions is what it unsubscribes after it.\<close>

definition clear_dests :: "nat list \<Rightarrow> 'h router \<Rightarrow> 'h router" where
  "clear_dests subs r =
     (let xs = filter (\<lambda>s. s \<in> set subs) (map (\<lambda>(d, a). ds_sub (states r ! a)) (dests r)) in
      r\<lparr>dests := [], pending := pending r @ xs, closing := closing r @ xs\<rparr>)"

definition call_sub :: "nat \<Rightarrow> 'h router \<Rightarrow> 'h router" where
  "call_sub s r = r\<lparr>pending := remove1 s (pending r), called := s # called r\<rparr>"

text \<open>
  The next step of call \<open>k\<close>: \<open>res\<close> is the error, if any, of the transport's Subscribe or Unsubscribe, \<open>n\<close>
  the depth of the channel of a new subscription and \<open>i\<close> the place of the registry entry to which Go's
  iteration over the map turns next.
\<close>

definition call_step :: "goerr option \<Rightarrow> nat \<Rightarrow> nat \<Rightarrow> nat \<Rightarrow> 'h lrouter \<Rightarrow> 'h lrouter option" where
  "call_step res n i k lr =
     (let r = lr_r lr in
      if k < length (lr_ops lr) then
        (case op_pc (lr_ops lr ! k) of
           SubLock d h tok \<Rightarrow> acquire k (SubTest d h tok) lr
         | SubTest d h tok \<Rightarrow>
             (case live_state r d of
                Some a \<Rightarrow> Some (release k (SubDone (Inr tok)) (attach tok a h r) lr)
              | None \<Rightarrow> Some (goto k (SubDial d h tok) lr))
         | SubDial d h tok \<Rightarrow>
             (case res of
                Some e \<Rightarrow> Some (release k (SubDone (Inl (Errorf ''router: subscribe %q: %w'' [StrArg d] [e]))) r lr)
              | None \<Rightarrow> Some (release k (SubDone (Inr tok)) (register tok d h n r) lr))
         | SubDone v \<Rightarrow> None
         | UnsLock d tok \<Rightarrow> acquire k (UnsBody d tok) lr
         | UnsBody d tok \<Rightarrow>
             (case Unsubscribe_locked d tok r of
                (None, r1) \<Rightarrow> Some (release k (UnsDone None) r1 lr)
              | (Some s, r1) \<Rightarrow> Some (release k (UnsCall d s) (r1\<lparr>pending := pending r1 @ [s]\<rparr>) lr))
         | UnsCall d s \<Rightarrow> Some (goto k (UnsDone (Unsubscribe_result d res)) (lr\<lparr>lr_r := call_sub s r\<rparr>))
         | UnsDone v \<Rightarrow> None
         | CloLock \<Rightarrow> acquire k (CloScan (dests r) []) lr
         | CloScan [] subs \<Rightarrow> Some (release k (CloCall subs) (clear_dests subs r) lr)
         | CloScan (p # ps) subs \<Rightarrow>
             (if i < length (p # ps) then
                (let e = (p # ps) ! i; st = states r ! snd e in
                 Some (goto k (CloScan (remove1 e (p # ps)) (if dead st then subs else subs @ [ds_sub st])) lr))
              else None)
         | CloCall [] \<Rightarrow> Some (goto k CloWait lr)
         | CloCall (s # subs) \<Rightarrow> Some (goto k (CloCall subs) (lr\<lparr>lr_r := call_sub s r\<rparr>))
         | CloWait \<Rightarrow> if wg r = 0 then Some (goto k CloDone lr) else Some (goto k CloBlock lr)
         | CloBlock \<Rightarrow> None
         | CloWoken \<Rightarrow> if wg r = 0 then Some (goto k CloDone lr) else Some (goto k CloPanic lr)
         | CloPanic \<Rightarrow> None
         | CloDone \<Rightarrow> None)
      else None)"

text \<open>
  The next step of a reader: it waits for the mutex before the snapshot and before the deregistration, and
  a handler that it calls runs until it returns.
\<close>

fun enters_handler :: "'h rpc \<Rightarrow> bool" where
  "enters_handler (ReadCall (h # hl) m) = True"
| "enters_handler _ = False"

text \<open>The reader's \<open>wg.Done()\<close>, seen from the calls: the one that brings the wait group to zero wakes the waiters.\<close>

definition wake :: "'h opcall \<Rightarrow> 'h opcall" where
  "wake c = (case op_pc c of CloBlock \<Rightarrow> c\<lparr>op_pc := CloWoken\<rparr> | _ \<Rightarrow> c)"

definition Done_wakes :: "'h rpc \<Rightarrow> 'h router \<Rightarrow> 'h opcall list \<Rightarrow> 'h opcall list" where
  "Done_wakes pc r' cs = (if pc = ReadFin \<and> wg r' = 0 then map wake cs else cs)"

definition reader_step :: "'h list \<Rightarrow> nat \<Rightarrow> 'h lrouter \<Rightarrow> 'h lrouter option" where
  "reader_step hs a lr =
     (let r = lr_r lr in
      if a < length (readers r) \<and> a \<notin> set (lr_run lr) then
        (if needs_lock (pc_of r a) \<and> lr_mu lr = None then Some (lr\<lparr>lr_mu := Some (HRead a)\<rparr>)
         else if needs_lock (pc_of r a) \<and> lr_mu lr \<noteq> Some (HRead a) then None
         else
           map_option (\<lambda>r'. lr\<lparr>lr_r := r',
               lr_mu := if needs_lock (pc_of r a) then None else lr_mu lr,
               lr_ops := Done_wakes (pc_of r a) r' (lr_ops lr),
               lr_run := if enters_handler (pc_of r a) then a # lr_run lr else lr_run lr\<rparr>)
             (readLoop_step hs a r))
      else None)"

text \<open>A handler makes one call after another; it returns when its last one has.\<close>

definition may_act :: "nat option \<Rightarrow> 'h lrouter \<Rightarrow> bool" where
  "may_act fr lr = (case fr of None \<Rightarrow> True | Some a \<Rightarrow>
     a \<in> set (lr_run lr) \<and> list_all (\<lambda>c. op_from c = Some a \<longrightarrow> returned (op_pc c)) (lr_ops lr))"

definition begin_call :: "nat option \<Rightarrow> 'h cpc \<Rightarrow> 'h lrouter \<Rightarrow> 'h lrouter option" where
  "begin_call fr pc lr =
     (if may_act fr lr then Some (lr\<lparr>lr_ops := lr_ops lr @ [\<lparr>op_from = fr, op_pc = pc\<rparr>]\<rparr>) else None)"

datatype 'h laction =
    LSubscribe "nat option" string 'h
  | LUnsubscribe "nat option" string token
  | LClose "nat option"
  | LCall "goerr option" nat nat nat
  | LReader "'h list" nat
  | LReturn nat
  | LDeliver nat Msg
  | LPeerClose nat
  | LConsume

fun lock_step :: "'h laction \<Rightarrow> 'h lrouter \<Rightarrow> 'h lrouter option" where
  "lock_step (LSubscribe fr d h) lr =
     (let tok = nextToken (lr_r lr) + 1 in
      begin_call fr (SubLock d h tok) (lr\<lparr>lr_r := (lr_r lr)\<lparr>nextToken := tok\<rparr>\<rparr>))"
| "lock_step (LUnsubscribe fr d tok) lr = begin_call fr (UnsLock d tok) lr"
| "lock_step (LClose fr) lr = begin_call fr CloLock lr"
| "lock_step (LCall res n i k) lr = call_step res n i k lr"
| "lock_step (LReader hs a) lr = reader_step hs a lr"
| "lock_step (LReturn a) lr =
     (if may_act (Some a) lr then Some (lr\<lparr>lr_run := removeAll a (lr_run lr)\<rparr>) else None)"
| "lock_step (LDeliver s m) lr = map_option (\<lambda>r. lr\<lparr>lr_r := r\<rparr>) (router_step (DoDeliver s m) (lr_r lr))"
| "lock_step (LPeerClose s) lr = map_option (\<lambda>r. lr\<lparr>lr_r := r\<rparr>) (router_step (DoPeerClose s) (lr_r lr))"
| "lock_step LConsume lr = map_option (\<lambda>r. lr\<lparr>lr_r := r\<rparr>) (router_step DoConsume (lr_r lr))"

section \<open>The invariant of the locks\<close>

text \<open>
  What a call relies on while it holds the mutex. A Close under way has seen every entry that is not among
  those to come, and holds its subscription or found its reader stopping.
\<close>

fun point_ok :: "'h router \<Rightarrow> 'h cpc \<Rightarrow> bool" where
  "point_ok r (SubDial d h tok) \<longleftrightarrow> live_state r d = None"
| "point_ok r (CloScan todo subs) \<longleftrightarrow>
     distinct todo \<and> set todo \<subseteq> set (dests r) \<and> distinct subs \<and> set subs \<subseteq> snd ` (set (dests r) - set todo)
     \<and> (\<forall>p \<in> set (dests r) - set todo. snd p \<in> set subs \<or> ds_done (states r ! snd p))"
| "point_ok r _ \<longleftrightarrow> True"

definition handler_ok :: "'h lrouter \<Rightarrow> 'h opcall \<Rightarrow> bool" where
  "handler_ok lr c \<longleftrightarrow> (\<forall>a. op_from c = Some a \<longrightarrow> \<not> past_wait (op_pc c) \<and> (returned (op_pc c) \<or> a \<in> set (lr_run lr)))"

definition run_ok :: "'h router \<Rightarrow> nat \<Rightarrow> bool" where
  "run_ok r a \<longleftrightarrow> a < length (readers r) \<and> (\<exists>hl m. pc_of r a = ReadCall hl m)"

definition lock_inv :: "'h lrouter \<Rightarrow> bool" where
  "lock_inv lr \<longleftrightarrow>
     router_inv (lr_r lr)
     \<and> (\<forall>k. lr_mu lr = Some (HCall k) \<longleftrightarrow> k < length (lr_ops lr) \<and> has_lock (op_pc (lr_ops lr ! k)))
     \<and> (\<forall>a. lr_mu lr = Some (HRead a) \<longrightarrow> a < length (readers (lr_r lr)) \<and> needs_lock (pc_of (lr_r lr) a))
     \<and> (\<forall>a \<in> set (lr_run lr). run_ok (lr_r lr) a)
     \<and> (\<forall>c \<in> set (lr_ops lr). point_ok (lr_r lr) (op_pc c) \<and> handler_ok lr c)"

lemma lock_invD:
  assumes "lock_inv lr"
  shows "router_inv (lr_r lr)"
    "\<And>k. lr_mu lr = Some (HCall k) \<longleftrightarrow> k < length (lr_ops lr) \<and> has_lock (op_pc (lr_ops lr ! k))"
    "\<And>a. lr_mu lr = Some (HRead a) \<Longrightarrow> a < length (readers (lr_r lr)) \<and> needs_lock (pc_of (lr_r lr) a)"
    "\<And>a. a \<in> set (lr_run lr) \<Longrightarrow> run_ok (lr_r lr) a"
    "\<And>c. c \<in> set (lr_ops lr) \<Longrightarrow> point_ok (lr_r lr) (op_pc c)"
    "\<And>c. c \<in> set (lr_ops lr) \<Longrightarrow> handler_ok lr c"
  using assms unfolding lock_inv_def by blast+

lemma goto_sel [simp]:
  "lr_r (goto k pc lr) = lr_r lr" "lr_mu (goto k pc lr) = lr_mu lr" "lr_run (goto k pc lr) = lr_run lr"
  "length (lr_ops (goto k pc lr)) = length (lr_ops lr)"
  "lr_ops (goto k pc lr) = (lr_ops lr)[k := (lr_ops lr ! k)\<lparr>op_pc := pc\<rparr>]"
  by (simp_all add: goto_def)

text \<open>
  What goes on beside the holder of the mutex leaves the registry alone and never takes back a \<open>done\<close>.
\<close>

definition beside :: "'h router \<Rightarrow> 'h router \<Rightarrow> bool" where
  "beside r r' \<longleftrightarrow> dests r' = dests r \<and> length (states r') = length (states r) \<and> length (readers r') = length (readers r)
     \<and> (\<forall>a < length (states r). ds_done (states r ! a) \<longrightarrow> ds_done (states r' ! a))"

lemma beside_refl [simp]: "beside r r"
  by (simp add: beside_def)

lemma beside_upd [simp]:
  "beside r (r\<lparr>nextToken := t\<rparr>)" "beside r (r\<lparr>chans := cs\<rparr>)" "beside r (r\<lparr>errs := ec\<rparr>)" "beside r (call_sub s r)"
  by (simp_all add: beside_def call_sub_def)

lemma beside_point_ok:
  assumes "router_inv r" "beside r r'" "point_ok r pc"
  shows "point_ok r' pc"
proof (cases pc)
  case (SubDial d h tok)
  with assms(2,3) registered_entry(1) [OF assms(1), of d] show ?thesis
    by (auto simp: beside_def live_state_def dead_def split: option.splits if_splits)
next
  case (CloScan todo subs)
  have "snd p < length (states r)" if "p \<in> set (dests r)" for p
    using router_invD(5) [OF assms(1), of "fst p" "snd p"] that by (simp add: entry_ok_def)
  with CloScan assms(2,3) show ?thesis by (auto simp: beside_def)
qed simp_all

lemma beside_readLoop:
  assumes "router_inv r" "readLoop_step hs a r = Some r'" "\<not> needs_lock (pc_of r a)"
  shows "beside r r'"
  using assms(2,3) router_invD(1) [OF assms(1)]
  by (auto simp: readLoop_step_def Let_def beside_def set_pc_def nth_list_update
    split: if_splits rpc.splits option.splits list.splits recv_result.splits send_result.splits)

lemma readLoop_others:
  assumes "readLoop_step hs a r = Some r'"
  shows "length (readers r') = length (readers r)" "b \<noteq> a \<Longrightarrow> readers r' ! b = readers r ! b"
  using assms
  by (auto simp: readLoop_step_def Let_def set_pc_def
    split: if_splits rpc.splits option.splits list.splits recv_result.splits send_result.splits)

lemma readLoop_run_ok:
  assumes "readLoop_step hs a r = Some r'"
  shows "b \<noteq> a \<Longrightarrow> run_ok r b \<Longrightarrow> run_ok r' b" "enters_handler (pc_of r a) \<Longrightarrow> run_ok r' a"
proof -
  show "run_ok r' b" if "b \<noteq> a" "run_ok r b" using that readLoop_others [OF assms] by (simp add: run_ok_def)
  assume "enters_handler (pc_of r a)"
  then obtain h hl m where "pc_of r a = ReadCall (h # hl) m" by (auto elim: enters_handler.elims)
  with assms show "run_ok r' a" by (auto simp: readLoop_step_def run_ok_def set_pc_def split: if_splits)
qed

text \<open>The critical sections.\<close>

lemma point_ok_free: "\<not> has_lock pc \<Longrightarrow> point_ok r pc"
  by (cases pc) simp_all

lemma inv_attach:
  assumes "router_inv r" "live_state r d = Some a"
  shows "router_inv (attach tok a h r)"
  using inv_Subscribe_locked [OF assms(1), of tok d h None 0] assms(2) by (simp add: Subscribe_locked_def)

lemma inv_register:
  assumes "router_inv r" "live_state r d = None"
  shows "router_inv (register tok d h n r)"
  using inv_Subscribe_locked [OF assms(1), of tok d h None n] assms(2) by (simp add: Subscribe_locked_def)

lemma inv_call_sub:
  assumes "router_inv r"
  shows "router_inv (call_sub s r)"
  using router_invD [OF assms] unfolding call_sub_def by (intro router_invI; auto simp: cell_ok_def entry_ok_def; blast)

lemma inv_clear:
  assumes "router_inv r" "point_ok r (CloScan [] subs)"
  shows "router_inv (clear_dests subs r)"
proof -
  note I = router_invD [OF assms(1)]
  have "a \<in> set subs \<and> ds_sub (states r ! a) = a" if "(dest_of r a, a) \<in> set (dests r)" "a < length (states r)" "in_loop (pc_of r a)" for a
    using that I(4) [of a] assms(2) by (force simp: cell_ok_def)
  then have "a \<in> set (pending (clear_dests subs r))" if "(dest_of r a, a) \<in> set (dests r)" "a < length (states r)" "in_loop (pc_of r a)" for a
    using that by (auto simp: clear_dests_def Let_def image_iff intro!: bexI [of _ "(dest_of r a, a)"])
  moreover have "set (pending r) \<subseteq> set (pending (clear_dests subs r))" "dests (clear_dests subs r) = []"
    "readers (clear_dests subs r) = readers r" "states (clear_dests subs r) = states r" "chans (clear_dests subs r) = chans r"
    "wg (clear_dests subs r) = wg r" "errs (clear_dests subs r) = errs r" "called (clear_dests subs r) = called r"
    by (simp_all add: clear_dests_def Let_def)
  ultimately show ?thesis
    by (intro router_invI) (use I in \<open>auto simp: cell_ok_def\<close>)
qed

section \<open>Every step keeps the invariant\<close>

lemma ball_update: "\<forall>x \<in> set xs. P x \<Longrightarrow> P y \<Longrightarrow> \<forall>x \<in> set (xs[k := y]). P x"
  by (auto dest!: set_update_subset_insert [THEN subsetD])

lemma handler_ok_cong: "lr_run lr' = lr_run lr \<Longrightarrow> handler_ok lr' c = handler_ok lr c"
  by (simp add: handler_ok_def)

text \<open>A call that is not done goes to another point: \<open>pc\<close> can be its next one.\<close>

lemma handler_ok_goto:
  assumes "lock_inv lr" "k < length (lr_ops lr)" "\<not> returned (op_pc (lr_ops lr ! k))"
    "past_wait pc \<longrightarrow> op_from (lr_ops lr ! k) = None"
  shows "handler_ok lr ((lr_ops lr ! k)\<lparr>op_pc := pc\<rparr>)"
  using lock_invD(6) [OF assms(1), of "lr_ops lr ! k"] assms(2-) by (auto simp: handler_ok_def)

lemma inv_goto:
  assumes "lock_inv lr" "k < length (lr_ops lr)" "\<not> returned (op_pc (lr_ops lr ! k))"
    "past_wait pc \<longrightarrow> op_from (lr_ops lr ! k) = None"
    "has_lock pc = has_lock (op_pc (lr_ops lr ! k))" "point_ok (lr_r lr) pc"
  shows "lock_inv (goto k pc lr)"
proof -
  note I = lock_invD [OF assms(1)]
  have "\<forall>c \<in> set (lr_ops (goto k pc lr)). point_ok (lr_r lr) (op_pc c) \<and> handler_ok lr c"
    unfolding goto_sel by (rule ball_update) (use I(5,6) assms handler_ok_goto [OF assms(1-4)] in simp_all)
  then show ?thesis
    using I assms(2,5) by (auto simp: lock_inv_def nth_list_update handler_ok_cong [of "goto k pc lr" lr])
qed

lemma inv_acquire:
  assumes "lock_inv lr" "k < length (lr_ops lr)" "\<not> returned (op_pc (lr_ops lr ! k))"
    "has_lock pc" "point_ok (lr_r lr) pc" "acquire k pc lr = Some lr'"
  shows "lock_inv lr'"
proof -
  note I = lock_invD [OF assms(1)]
  have mu: "lr_mu lr = None" and lr': "lr' = goto k pc (lr\<lparr>lr_mu := Some (HCall k)\<rparr>)"
    using assms(6) by (auto simp: acquire_def split: if_splits)
  have nc: "\<not> past_wait pc" using assms(4) by (cases pc) simp_all
  have "\<forall>c \<in> set (lr_ops lr'). point_ok (lr_r lr) (op_pc c) \<and> handler_ok lr c"
    unfolding lr' goto_sel lrouter.simps
    by (rule ball_update) (use I(5,6) assms handler_ok_goto [OF assms(1-3), of pc] nc in auto)
  moreover have "\<not> has_lock (op_pc (lr_ops lr ! j))" if "j < length (lr_ops lr)" for j using I(2) [of j] mu that by simp
  ultimately show ?thesis
    using I(1,4) assms(2,4) by (auto simp: lock_inv_def lr' nth_list_update handler_ok_def)
qed

lemma inv_release:
  assumes "lock_inv lr" "k < length (lr_ops lr)" "has_lock (op_pc (lr_ops lr ! k))" "\<not> has_lock pc" "\<not> past_wait pc"
    "router_inv r" "\<And>a. run_ok (lr_r lr) a \<Longrightarrow> run_ok r a"
  shows "lock_inv (release k pc r lr)"
proof -
  note I = lock_invD [OF assms(1)]
  have mu: "lr_mu lr = Some (HCall k)" using I(2) [of k] assms(2,3) by simp
  have nr: "\<not> returned (op_pc (lr_ops lr ! k))" using assms(3) by (cases "op_pc (lr_ops lr ! k)") simp_all
  have other: "\<not> has_lock (op_pc (lr_ops lr ! j))" if "j < length (lr_ops lr)" "j \<noteq> k" for j using I(2) [of j] mu that by simp
  have free: "\<not> has_lock (op_pc (lr_ops (release k pc r lr) ! j))" if "j < length (lr_ops lr)" for j
    using that other assms(2,4) by (auto simp: release_def nth_list_update)
  have "\<forall>c \<in> set (lr_ops (release k pc r lr)). handler_ok lr c"
    unfolding release_def goto_sel lrouter.simps
    by (rule ball_update) (use I(6) handler_ok_goto [OF assms(1,2) nr, of pc] assms(5) in auto)
  moreover have "point_ok r (op_pc c)" if "c \<in> set (lr_ops (release k pc r lr))" for c
    using that free by (intro point_ok_free) (auto simp: in_set_conv_nth release_def)
  ultimately show ?thesis
    using I(4) assms(6,7) free by (auto simp: lock_inv_def release_def handler_ok_def)
qed

lemma inv_beside:
  assumes "lock_inv lr" "router_inv r" "beside (lr_r lr) r" "readers r = readers (lr_r lr)"
  shows "lock_inv (lr\<lparr>lr_r := r\<rparr>)"
  using lock_invD [OF assms(1)] assms beside_point_ok [OF _ assms(3)]
  by (auto simp: lock_inv_def run_ok_def handler_ok_def)

lemma inv_begin_call:
  assumes "lock_inv lr" "begin_call fr pc lr = Some lr'" "\<not> has_lock pc" "\<not> past_wait pc"
  shows "lock_inv lr'"
proof -
  note I = lock_invD [OF assms(1)]
  have f: "may_act fr lr" and lr': "lr' = lr\<lparr>lr_ops := lr_ops lr @ [\<lparr>op_from = fr, op_pc = pc\<rparr>]\<rparr>"
    using assms(2) by (auto simp: begin_call_def split: if_splits)
  have "handler_ok lr \<lparr>op_from = fr, op_pc = pc\<rparr>" "point_ok (lr_r lr) pc"
    using f assms(3,4) point_ok_free by (auto simp: handler_ok_def may_act_def)
  with I assms(3) show ?thesis by (auto simp: lock_inv_def lr' handler_ok_def nth_append less_Suc_eq)
qed

lemma wg_running:
  assumes "lock_inv lr" "wg (lr_r lr) = 0"
  shows "lr_run lr = []"
proof -
  have "\<not> run_ok (lr_r lr) a" for a
    using router_invD(6) [OF lock_invD(1) [OF assms(1)]] assms(2) by (auto simp: run_ok_def live_readers_zero)
  with lock_invD(4) [OF assms(1)] show ?thesis by (metis list.set_intros(1) neq_Nil_conv)
qed

lemma call_step_point:
  "call_step res n i k lr = Some lr' \<Longrightarrow> k < length (lr_ops lr) \<and> \<not> returned (op_pc (lr_ops lr ! k))"
  by (auto simp: call_step_def Let_def split: if_splits cpc.splits)

lemma call_step_scan:
  assumes "call_step res n i k lr = Some lr'" "op_pc (lr_ops lr ! k) = CloScan todo subs" "todo \<noteq> []"
  obtains e where "e \<in> set todo" "lr' = goto k (CloScan (remove1 e todo)
    (if dead (states (lr_r lr) ! snd e) then subs else subs @ [ds_sub (states (lr_r lr) ! snd e)])) lr"
proof -
  from assms have "i < length todo" "lr' = goto k (CloScan (remove1 (todo ! i) todo)
    (if dead (states (lr_r lr) ! snd (todo ! i)) then subs else subs @ [ds_sub (states (lr_r lr) ! snd (todo ! i))])) lr"
    by (auto simp: call_step_def Let_def neq_Nil_conv simp del: remove1.simps split: if_splits)
  then show thesis using that [of "todo ! i"] by simp
qed

lemma run_ok_readers: "readers r' = readers r \<Longrightarrow> run_ok r' a = run_ok r a"
  by (simp add: run_ok_def)

lemma run_ok_sections [simp]:
  "run_ok (attach tok b h r) a = run_ok r a" "run_ok (clear_dests subs r) a = run_ok r a" "run_ok (call_sub s r) a = run_ok r a"
  "run_ok r a \<Longrightarrow> run_ok (register tok d h n r) a"
  by (auto simp: run_ok_def attach_def clear_dests_def call_sub_def register_def Let_def nth_append)

lemma Unsubscribe_locked_readers: "Unsubscribe_locked d tok r = (sub, r1) \<Longrightarrow> readers r1 = readers r"
  by (auto simp: Unsubscribe_locked_def Let_def split: option.splits if_splits)

lemma entry_inj:
  "router_inv r \<Longrightarrow> p \<in> set (dests r) \<Longrightarrow> e \<in> set (dests r) \<Longrightarrow> snd p = snd e \<Longrightarrow> p = e"
  unfolding router_inv_def entry_ok_def prod_eq_iff by metis

lemma entry_sub: "router_inv r \<Longrightarrow> p \<in> set (dests r) \<Longrightarrow> ds_sub (states r ! snd p) = snd p"
  using router_invD(4,5) [of r] by (cases p) (force simp: entry_ok_def cell_ok_def)

lemma scan_step:
  assumes "router_inv r" "point_ok r (CloScan todo subs)" "e \<in> set todo"
  shows "point_ok r (CloScan (remove1 e todo) (if dead (states r ! snd e) then subs else subs @ [ds_sub (states r ! snd e)]))"
proof -
  have e: "e \<in> set (dests r)" "distinct todo" using assms(2,3) by auto
  have new: "snd e \<notin> set subs"
  proof
    assume "snd e \<in> set subs"
    with assms(2) obtain p where "p \<in> set (dests r) - set todo" "snd p = snd e" by auto
    with entry_inj [OF assms(1) _ e(1)] assms(3) show False by blast
  qed
  have "p = e \<or> snd p \<in> set subs \<or> ds_done (states r ! snd p)" if "p \<in> set (dests r) - set (remove1 e todo)" for p
    using assms(2) that by (cases "p = e") (simp, force)
  then show ?thesis
    using assms(2,3) e new entry_sub [OF assms(1) e(1)] by (fastforce simp: dead_def)
qed

lemma call_step_at:
  assumes "lock_inv lr" "call_step res n i k lr = Some lr'"
  shows "k < length (lr_ops lr)" "\<not> returned (op_pc (lr_ops lr ! k))" "point_ok (lr_r lr) (op_pc (lr_ops lr ! k))"
    "lr_mu lr = Some (HCall k) \<longleftrightarrow> has_lock (op_pc (lr_ops lr ! k))"
  using call_step_point [OF assms(2)] lock_invD(2,5) [OF assms(1)] by auto

lemma inv_UnsBody:
  assumes L: "lock_inv lr" and st: "call_step res n i k lr = Some lr'" and pc: "op_pc (lr_ops lr ! k) = UnsBody d tok"
  shows "lock_inv lr'"
proof -
  note k = call_step_at(1) [OF L st]
  obtain s r1 where u: "Unsubscribe_locked d tok (lr_r lr) = (s, r1)" by fastforce
  have "lock_inv (release k pc' (r1\<lparr>pending := pending r1 @ (case s of None \<Rightarrow> [] | Some s \<Rightarrow> [s])\<rparr>) lr)"
    if "\<not> has_lock pc'" "\<not> past_wait pc'" for pc'
    by (rule inv_release [OF L k _ _ _ inv_Unsubscribe [OF lock_invD(1) [OF L] u]])
      (use pc that Unsubscribe_locked_readers [OF u] in \<open>simp_all add: run_ok_def\<close>)
  with st k pc u show ?thesis by (fastforce simp: call_step_def Let_def split: option.splits)
qed

lemma inv_CloScan:
  assumes L: "lock_inv lr" and st: "call_step res n i k lr = Some lr'" and pc: "op_pc (lr_ops lr ! k) = CloScan todo subs"
  shows "lock_inv lr'"
proof (cases todo)
  case Nil
  note at = call_step_at [OF L st]
  with st pc Nil have "lr' = release k (CloCall subs) (clear_dests subs (lr_r lr)) lr" by (simp add: call_step_def Let_def)
  with at(3) pc Nil show ?thesis by (auto intro!: inv_release [OF L at(1)] inv_clear [OF lock_invD(1) [OF L]])
next
  case (Cons p ps)
  note at = call_step_at [OF L st]
  from Cons obtain e where e: "e \<in> set todo" and lr': "lr' = goto k (CloScan (remove1 e todo)
    (if dead (states (lr_r lr) ! snd e) then subs else subs @ [ds_sub (states (lr_r lr) ! snd e)])) lr"
    using call_step_scan [OF st pc] by blast
  show ?thesis unfolding lr'
    by (rule inv_goto [OF L at(1,2)]) (use pc scan_step [OF lock_invD(1) [OF L] _ e, of subs] at(3) in simp_all)
qed

text \<open>A Close that gets past its wait was not called by a handler: no handler is running.\<close>

lemma zero_no_handler:
  assumes "lock_inv lr" "wg (lr_r lr) = 0" "c \<in> set (lr_ops lr)" "\<not> returned (op_pc c)"
  shows "op_from c = None"
  using wg_running [OF assms(1,2)] lock_invD(6) [OF assms(1,3)] assms(4) by (cases "op_from c") (auto simp: handler_ok_def)

lemma inv_CloWait:
  assumes L: "lock_inv lr" and st: "call_step res n i k lr = Some lr'" and pc: "op_pc (lr_ops lr ! k) \<in> {CloWait, CloWoken}"
  shows "lock_inv lr'"
proof -
  note at = call_step_at [OF L st]
  obtain pc' where lr': "lr' = goto k pc' lr" "pc' \<in> {CloBlock, CloPanic, CloDone}" "pc' = CloDone \<longrightarrow> wg (lr_r lr) = 0"
    "pc' = CloPanic \<longrightarrow> op_pc (lr_ops lr ! k) = CloWoken"
    using st at(1) pc by (auto simp: call_step_def Let_def split: if_splits)
  have "op_from (lr_ops lr ! k) = None" if "past_wait pc'"
  proof (cases "op_pc (lr_ops lr ! k) = CloWoken")
    case True
    with lock_invD(6) [OF L nth_mem [OF at(1)]] show ?thesis by (cases "op_from (lr_ops lr ! k)") (auto simp: handler_ok_def)
  next
    case False
    with that lr' have "wg (lr_r lr) = 0" by auto
    from zero_no_handler [OF L this nth_mem [OF at(1)] at(2)] show ?thesis .
  qed
  then show ?thesis unfolding lr'(1) using pc lr'(2) by (intro inv_goto [OF L at(1,2)]) auto
qed

lemma inv_call_step:
  assumes L: "lock_inv lr" and st: "call_step res n i k lr = Some lr'"
  shows "lock_inv lr'"
proof -
  note I = lock_invD(1) [OF L]
  note at = call_step_at [OF L st]
  have sub: "lock_inv (goto k pc (lr\<lparr>lr_r := call_sub s (lr_r lr)\<rparr>))"
    if "\<not> has_lock pc" "\<not> has_lock (op_pc (lr_ops lr ! k))" "\<not> past_wait pc" for s pc
    by (rule inv_goto [OF inv_beside [OF L inv_call_sub [OF I]]])
      (use that at in \<open>simp_all add: point_ok_free, simp add: call_sub_def\<close>)
  note step = st [unfolded call_step_def Let_def if_P [OF at(1)]]
  note get = inv_acquire [OF L at(1,2)]
  show ?thesis
  proof (cases "op_pc (lr_ops lr ! k)")
    case (SubLock d h tok)
    with step get [of "SubTest d h tok"] show ?thesis by simp
  next
    case (SubTest d h tok)
    with step show ?thesis
      by (auto split: option.splits intro!: inv_release [OF L at(1)] inv_goto [OF L at(1,2)] inv_attach [OF I])
  next
    case (SubDial d h tok)
    with step at(3) show ?thesis
      by (auto split: option.splits intro!: inv_release [OF L at(1)] inv_register [OF I] I)
  next
    case (UnsLock d tok)
    with step get [of "UnsBody d tok"] show ?thesis by simp
  next
    case CloLock
    with step get [of "CloScan (dests (lr_r lr)) []"] router_invD(3) [OF I] show ?thesis by (simp add: distinct_map)
  next
    case (CloCall subs)
    with step show ?thesis by (cases subs) (auto intro!: inv_goto [OF L at(1,2)] sub)
  qed (use step sub inv_UnsBody [OF L st] inv_CloScan [OF L st] inv_CloWait [OF L st] in auto)
qed

text \<open>Being woken up changes nothing but the point of a blocked Close.\<close>

lemma wake_sel [simp]:
  "op_from (wake c) = op_from c" "has_lock (op_pc (wake c)) = has_lock (op_pc c)"
  "returned (op_pc (wake c)) = returned (op_pc c)" "point_ok r (op_pc (wake c)) = point_ok r (op_pc c)"
  by (cases "op_pc c"; simp add: wake_def)+

lemma past_wait_wake: "past_wait (op_pc (wake c)) \<Longrightarrow> past_wait (op_pc c) \<or> op_pc c = CloBlock"
  by (cases "op_pc c") (simp_all add: wake_def)

lemma Done_wakes_length [simp]: "length (Done_wakes pc r cs) = length cs"
  by (simp add: Done_wakes_def)

lemma Done_wakes_nth: "k < length cs \<Longrightarrow> Done_wakes pc r cs ! k = (if pc = ReadFin \<and> wg r = 0 then wake (cs ! k) else cs ! k)"
  by (simp add: Done_wakes_def)

lemma Done_wakes_lift:
  assumes "\<And>c. f (wake c) = f c"
  shows "map f (Done_wakes pc r cs) = map f cs"
  using assms by (simp add: Done_wakes_def)

text \<open>The three ways a reader moves: it takes the mutex, works and gives it back, or needs it not.\<close>

lemma reader_step_cases:
  assumes "reader_step hs a lr = Some lr'"
  obtains
    (take) "needs_lock (pc_of (lr_r lr) a)" "lr_mu lr = None" "lr' = lr\<lparr>lr_mu := Some (HRead a)\<rparr>"
      "a < length (readers (lr_r lr))" "a \<notin> set (lr_run lr)"
  | (work) r' where "needs_lock (pc_of (lr_r lr) a)" "lr_mu lr = Some (HRead a)" "readLoop_step hs a (lr_r lr) = Some r'"
      "lr' = lr\<lparr>lr_r := r', lr_mu := None\<rparr>" "a \<notin> set (lr_run lr)"
  | (free) r' where "\<not> needs_lock (pc_of (lr_r lr) a)" "readLoop_step hs a (lr_r lr) = Some r'"
      "lr' = lr\<lparr>lr_r := r', lr_ops := Done_wakes (pc_of (lr_r lr) a) r' (lr_ops lr),
        lr_run := if enters_handler (pc_of (lr_r lr) a) then a # lr_run lr else lr_run lr\<rparr>"
      "a \<notin> set (lr_run lr)"
proof -
  have "needs_lock pc \<Longrightarrow> \<not> enters_handler pc \<and> pc \<noteq> ReadFin" for pc :: "'a rpc" by (cases pc) simp_all
  with assms that show thesis by (auto simp: reader_step_def Done_wakes_def Let_def split: if_splits)
qed

lemma inv_reader_step:
  assumes L: "lock_inv lr" and st: "reader_step hs a lr = Some lr'"
  shows "lock_inv lr'"
  using st
proof (cases rule: reader_step_cases)
  case take
  then show ?thesis using lock_invD [OF L] by (auto simp: lock_inv_def handler_ok_def)
next
  case (work r')
  note I = lock_invD [OF L]
  have "point_ok r' (op_pc c)" if "c \<in> set (lr_ops lr)" for c
    using that I(2) work(2) by (intro point_ok_free) (force simp: in_set_conv_nth)
  moreover have "run_ok r' b" if "b \<in> set (lr_run lr)" for b
    using that I(4) work(5) readLoop_run_ok(1) [OF work(3)] by metis
  moreover have "\<not> has_lock (op_pc (lr_ops lr ! k))" if "k < length (lr_ops lr)" for k using I(2) [of k] work(2) that by simp
  ultimately show ?thesis
    using I(6) inv_readLoop [OF I(1) work(3)] by (auto simp: lock_inv_def work(4) handler_ok_def)
next
  case (free r')
  note I = lock_invD [OF L]
  note B = beside_readLoop [OF I(1) free(2,1)]
  have "run_ok r' b" if "b \<in> set (lr_run lr')" for b
  proof (cases "b = a")
    case True
    with that free have "enters_handler (pc_of (lr_r lr) a)" by (auto split: if_splits)
    with True readLoop_run_ok(2) [OF free(2)] show ?thesis by simp
  next
    case False
    with that free have "b \<in> set (lr_run lr)" by (auto split: if_splits)
    with I(4) readLoop_run_ok(1) [OF free(2) False] show ?thesis by blast
  qed
  moreover have "b < length (readers r') \<and> needs_lock (pc_of r' b)" if "lr_mu lr = Some (HRead b)" for b
  proof -
    from I(3) [OF that] free(1) have "b \<noteq> a" by auto
    with I(3) [OF that] readLoop_others [OF free(2)] show ?thesis by simp
  qed
  moreover have "handler_ok lr' c" if "c \<in> set (lr_ops lr)" for c
    using I(6) [OF that] free(3) by (auto simp: handler_ok_def)
  moreover have "handler_ok lr' (wake c)" if "c \<in> set (lr_ops lr)" "pc_of (lr_r lr) a = ReadFin" "wg r' = 0" for c
  proof -
    have "\<not> run_ok r' b" for b
      using router_invD(6) [OF inv_readLoop [OF I(1) free(2)]] that(3) by (auto simp: run_ok_def live_readers_zero)
    with I(4) free(4) readLoop_run_ok(1) [OF free(2)] have "lr_run lr = []" by (metis list.set_intros(1) neq_Nil_conv)
    with I(6) [OF that(1)] free(3) show ?thesis by (auto simp: handler_ok_def dest: past_wait_wake)
  qed
  moreover have "point_ok r' (op_pc c)" if "c \<in> set (lr_ops lr)" for c
    by (rule beside_point_ok [OF I(1) B I(5) [OF that]])
  ultimately show ?thesis
    using I(2) inv_readLoop [OF I(1) free(2)] by (auto simp: lock_inv_def free(3) Done_wakes_def)
qed

lemma beside_env:
  assumes "router_step act r = Some r'" "(\<exists>s m. act = DoDeliver s m) \<or> (\<exists>s. act = DoPeerClose s) \<or> act = DoConsume"
  shows "beside r r'" "readers r' = readers r"
  using assms by (auto split: if_splits send_result.splits recv_result.splits)

lemma inv_lock_step:
  assumes L: "lock_inv lr" and st: "lock_step act lr = Some lr'"
  shows "lock_inv lr'"
proof -
  note I = lock_invD [OF L]
  have env: "lock_inv lr'"
    if "router_step e (lr_r lr) = Some r'" "lr' = lr\<lparr>lr_r := r'\<rparr>"
      "(\<exists>s m. e = DoDeliver s m) \<or> (\<exists>s. e = DoPeerClose s) \<or> e = DoConsume" for e r'
    unfolding that(2) by (rule inv_beside [OF L inv_router_step [OF I(1) that(1)] beside_env [OF that(1,3)]])
  show ?thesis
  proof (cases act)
    case (LSubscribe fr d h)
    with st inv_begin_call [of "lr\<lparr>lr_r := (lr_r lr)\<lparr>nextToken := nextToken (lr_r lr) + 1\<rparr>\<rparr>"]
      inv_beside [OF L, of "(lr_r lr)\<lparr>nextToken := nextToken (lr_r lr) + 1\<rparr>"] I(1)
    show ?thesis by (simp add: Let_def)
  next
    case (LUnsubscribe fr d tok)
    with st inv_begin_call [OF L, of fr "UnsLock d tok"] show ?thesis by simp
  next
    case (LClose fr)
    with st inv_begin_call [OF L, of fr CloLock] show ?thesis by simp
  next
    case (LCall res n i k)
    with st inv_call_step [OF L] show ?thesis by simp
  next
    case (LReader hs a)
    with st inv_reader_step [OF L] show ?thesis by simp
  next
    case (LReturn a)
    with st have m: "may_act (Some a) lr" and lr': "lr' = lr\<lparr>lr_run := removeAll a (lr_run lr)\<rparr>" by (simp_all split: if_splits)
    have "handler_ok lr' c" if "c \<in> set (lr_ops lr)" for c
      using I(6) [OF that] m that by (auto simp: handler_ok_def may_act_def list_all_iff lr')
    with I show ?thesis by (auto simp: lock_inv_def lr')
  next
    case (LDeliver s m)
    with st env [of "DoDeliver s m"] show ?thesis by auto
  next
    case (LPeerClose s)
    with st env [of "DoPeerClose s"] show ?thesis by auto
  next
    case LConsume
    with st env [of DoConsume] show ?thesis by auto
  qed
qed

interpretation lk: machine lock_step New_lrouter lock_inv
proof unfold_locales
  show "lock_inv New_lrouter" using rt.inv_start by (simp add: lock_inv_def New_lrouter_def)
qed (rule inv_lock_step)

section \<open>Runs used as witnesses\<close>

lemmas lock_eval =
  router_eval New_lrouter_def call_step_def reader_step_def acquire_def release_def goto_def begin_call_def may_act_def
  attach_def register_def clear_dests_def call_sub_def readLoop_headers_def Done_wakes_def wake_def

text \<open>
  Two Subscribes of which the second gets the lock first, a message for the first, whose handler the reader
  is running at the end.
\<close>

definition run_to_handler :: "nat laction list" where
  "run_to_handler =
     [LSubscribe None ''a'' 7, LSubscribe None ''b'' 8,
      LCall None 2 0 1, LCall None 2 0 1, LCall None 2 0 1, LCall None 2 0 0, LCall None 2 0 0, LCall None 2 0 0,
      LDeliver 1 \<lparr>Body = ''x'', Destination = ''a'', Err = None\<rparr>,
      LReader [] 1, LReader [] 1, LReader [7] 1, LReader [] 1]"

definition in_handler :: "nat lrouter" where
  "in_handler =
     \<lparr>lr_r =
        \<lparr>dests = [(''b'', 0), (''a'', 1)],
         states = [\<lparr>ds_sub = 0, ds_handlers = [(2, 8)], ds_done = False\<rparr>, \<lparr>ds_sub = 1, ds_handlers = [(1, 7)], ds_done = False\<rparr>],
         readers = [\<lparr>rd_dest = ''b'', rd_pc = ReadRecv\<rparr>,
           \<lparr>rd_dest = ''a'', rd_pc = ReadCall [] \<lparr>Body = ''x'', Destination = ''a'', Err = None\<rparr>\<rparr>],
         chans = [make_chan 2, make_chan 2], nextToken = 2, errs = make_chan 16, wg = 2,
         pending = [], called = [], closing = [], calls = [(7, [HeaderDestination \<mapsto> ''a''], ''x'')]\<rparr>,
      lr_mu = None,
      lr_ops = [\<lparr>op_from = None, op_pc = SubDone (Inr 1)\<rparr>, \<lparr>op_from = None, op_pc = SubDone (Inr 2)\<rparr>],
      lr_run = [1]\<rparr>"

lemma run_to_handler_end: "run_actions lock_step run_to_handler New_lrouter = Some in_handler"
  by (simp add: run_to_handler_def in_handler_def lock_eval)

text \<open>
  The handler calls Close, which looks at both destinations; the reader of \<open>b\<close>, whose channel the peer has
  closed, closes its \<open>done\<close> after that: it is late.
\<close>

definition run_to_scan :: "nat laction list" where
  "run_to_scan =
     run_to_handler @ [LClose (Some 1), LCall None 0 0 2, LPeerClose 0, LReader [] 0, LCall None 0 1 2, LCall None 0 0 2, LReader [] 0]"

definition in_scan :: "nat lrouter" where
  "in_scan = in_handler
     \<lparr>lr_mu := Some (HCall 2),
      lr_ops := lr_ops in_handler @ [\<lparr>op_from = Some 1, op_pc = CloScan [] [1, 0]\<rparr>],
      lr_r := (lr_r in_handler)
        \<lparr>states := (states (lr_r in_handler))[0 := (states (lr_r in_handler) ! 0)\<lparr>ds_done := True\<rparr>],
         readers := (readers (lr_r in_handler))[0 := \<lparr>rd_dest = ''b'', rd_pc = ReadDereg None\<rparr>],
         chans := [close_chan (make_chan 2), make_chan 2]\<rparr>\<rparr>"

lemma run_to_scan_end: "run_actions lock_step run_to_scan New_lrouter = Some in_scan"
  by (simp add: run_to_scan_def run_actions_append run_to_handler_end) (simp add: in_scan_def in_handler_def lock_eval)

end
