(* ===== verification/LockRefine.thy ===== *)
theory LockRefine
  imports RouterLocks
begin

text \<open>
  Every run of the router with its mutex is a run of the machine of \<open>Router\<close>, in which a critical section
  is one step. Two things have to be undone for that. The tokens are numbered in the order in which they are
  drawn, not in that of the locks (\<open>RouterTokens\<close>). And Close looks at one \<open>done\<close> after the other: a reader
  may close its \<open>done\<close> after Close has looked and before it clears the registry. Such a reader is late: its
  step is put behind the Close, which it cannot tell, since it waits for the mutex.
\<close>

section \<open>Late readers\<close>

definition mark_done :: "nat \<Rightarrow> 'h router \<Rightarrow> 'h router" where
  "mark_done z r =
     (case pc_of r z of
        ReadExit t \<Rightarrow> set_pc z (ReadDereg t) (r\<lparr>states := (states r)[z := (states r ! z)\<lparr>ds_done := True\<rparr>]\<rparr>)
      | _ \<Rightarrow> r)"

lemma mark_done_step:
  "z < length (readers r) \<Longrightarrow> pc_of r z = ReadExit t \<Longrightarrow> readLoop_step hs z r = Some (mark_done z r)"
  by (simp add: readLoop_step_def mark_done_def)

lemma mark_done_sel [simp]:
  "dests (mark_done z r) = dests r" "chans (mark_done z r) = chans r" "errs (mark_done z r) = errs r"
  "wg (mark_done z r) = wg r" "pending (mark_done z r) = pending r" "called (mark_done z r) = called r"
  "closing (mark_done z r) = closing r" "calls (mark_done z r) = calls r" "nextToken (mark_done z r) = nextToken r"
  "length (readers (mark_done z r)) = length (readers r)" "length (states (mark_done z r)) = length (states r)"
  "b \<noteq> z \<Longrightarrow> readers (mark_done z r) ! b = readers r ! b" "b \<noteq> z \<Longrightarrow> states (mark_done z r) ! b = states r ! b"
  "ds_sub (states (mark_done z r) ! b) = ds_sub (states r ! b)"
  by (simp_all add: mark_done_def set_pc_def split: rpc.split)
    (cases "z < length (states r)"; cases "b = z"; simp add: list_update_beyond)

lemma mark_done_upd:
  "mark_done z (r\<lparr>dests := ds\<rparr>) = (mark_done z r)\<lparr>dests := ds\<rparr>" "mark_done z (r\<lparr>chans := cs\<rparr>) = (mark_done z r)\<lparr>chans := cs\<rparr>"
  "mark_done z (r\<lparr>errs := ec\<rparr>) = (mark_done z r)\<lparr>errs := ec\<rparr>" "mark_done z (r\<lparr>wg := n\<rparr>) = (mark_done z r)\<lparr>wg := n\<rparr>"
  "mark_done z (r\<lparr>pending := ps\<rparr>) = (mark_done z r)\<lparr>pending := ps\<rparr>" "mark_done z (r\<lparr>called := ps\<rparr>) = (mark_done z r)\<lparr>called := ps\<rparr>"
  "mark_done z (r\<lparr>closing := ps\<rparr>) = (mark_done z r)\<lparr>closing := ps\<rparr>" "mark_done z (r\<lparr>calls := cl\<rparr>) = (mark_done z r)\<lparr>calls := cl\<rparr>"
  "mark_done z (r\<lparr>nextToken := t\<rparr>) = (mark_done z r)\<lparr>nextToken := t\<rparr>"
  by (simp_all add: mark_done_def set_pc_def split: rpc.split)

lemma mark_done_set_pc: "b \<noteq> z \<Longrightarrow> mark_done z (set_pc b pc r) = set_pc b pc (mark_done z r)"
  by (auto simp: mark_done_def set_pc_def list_update_swap split: rpc.split)

lemma mark_done_state:
  "b \<noteq> z \<Longrightarrow> mark_done z (r\<lparr>states := (states r)[b := st]\<rparr>) = (mark_done z r)\<lparr>states := (states (mark_done z r))[b := st]\<rparr>"
  by (auto simp: mark_done_def set_pc_def list_update_swap split: rpc.split)

text \<open>A step of another reader does not see it.\<close>

lemma mark_done_readLoop:
  assumes "b \<noteq> z"
  shows "readLoop_step hs b (mark_done z r) = map_option (mark_done z) (readLoop_step hs b r)"
  using assms
  by (cases "pc_of r b") (auto simp: readLoop_step_def Let_def mark_done_upd mark_done_set_pc mark_done_state
    split: option.splits list.splits recv_result.splits send_result.splits)

lemma mark_done_call_sub: "call_sub s (mark_done z r) = mark_done z (call_sub s r)"
  by (simp add: call_sub_def mark_done_upd)

lemma mark_done_clear: "clear_dests subs (mark_done z r) = mark_done z (clear_dests subs r)"
  by (simp add: clear_dests_def Let_def mark_done_upd)

text \<open>\<open>r\<close> is \<open>q\<close> after the steps of its late readers.\<close>

definition late :: "nat list \<Rightarrow> 'h router \<Rightarrow> 'h router \<Rightarrow> bool" where
  "late zs q r \<longleftrightarrow> r = foldr mark_done zs q \<and> distinct zs
     \<and> (\<forall>z \<in> set zs. z < length (readers q) \<and> (\<exists>t. pc_of q z = ReadExit t))"

lemma late_Nil [simp]: "late [] q r \<longleftrightarrow> r = q"
  by (simp add: late_def)

lemma late_sel:
  assumes "late zs q r"
  shows "dests r = dests q" "pending r = pending q" "nextToken r = nextToken q" "length (readers r) = length (readers q)"
    "b \<notin> set zs \<Longrightarrow> readers r ! b = readers q ! b" "b \<notin> set zs \<Longrightarrow> states r ! b = states q ! b"
    "ds_sub (states r ! b) = ds_sub (states q ! b)"
proof -
  have "dests (foldr mark_done zs q) = dests q \<and> pending (foldr mark_done zs q) = pending q
    \<and> nextToken (foldr mark_done zs q) = nextToken q \<and> length (readers (foldr mark_done zs q)) = length (readers q)
    \<and> (b \<notin> set zs \<longrightarrow> readers (foldr mark_done zs q) ! b = readers q ! b \<and> states (foldr mark_done zs q) ! b = states q ! b)
    \<and> ds_sub (states (foldr mark_done zs q) ! b) = ds_sub (states q ! b)"
    by (induction zs) simp_all
  with assms show "dests r = dests q" "pending r = pending q" "nextToken r = nextToken q" "length (readers r) = length (readers q)"
    "b \<notin> set zs \<Longrightarrow> readers r ! b = readers q ! b" "b \<notin> set zs \<Longrightarrow> states r ! b = states q ! b"
    "ds_sub (states r ! b) = ds_sub (states q ! b)"
    by (simp_all add: late_def)
qed

lemma late_pc:
  assumes "late zs q r" "z \<in> set zs"
  shows "\<exists>t. pc_of r z = ReadDereg t"
proof -
  from assms(2) obtain us vs where zs: "zs = us @ z # vs" by (meson split_list)
  let ?q = "foldr mark_done vs q"
  from assms(1) zs have z: "z \<notin> set us" "z \<notin> set vs" "z < length (readers q)" "\<exists>t. pc_of q z = ReadExit t"
    by (auto simp: late_def)
  have "late vs q ?q" using assms(1) zs by (auto simp: late_def)
  from late_sel(4,5) [OF this] z obtain t where "z < length (readers ?q)" "pc_of ?q z = ReadExit t" by auto
  then have "pc_of (mark_done z ?q) z = ReadDereg t" by (simp add: mark_done_def set_pc_def)
  moreover have "readers (foldr mark_done us q') ! z = readers q' ! z" for q' :: "'a router"
    using z(1) by (induction us) auto
  ultimately show ?thesis using assms(1) zs by (simp add: late_def)
qed

text \<open>What does not concern late readers can be done before their steps.\<close>

lemma late_step:
  assumes "late zs q r" "F r = Some r'"
    and comm: "\<And>z q. z \<in> set zs \<Longrightarrow> F (mark_done z q) = map_option (mark_done z) (F q)"
    and same: "\<And>q q' z. F q = Some q' \<Longrightarrow> z \<in> set zs \<Longrightarrow> length (readers q') = length (readers q) \<and> readers q' ! z = readers q ! z"
  shows "\<exists>q'. F q = Some q' \<and> late zs q' r'"
proof -
  have "F (foldr mark_done zs q) = map_option (foldr mark_done zs) (F q)"
    using comm
  proof (induction zs)
    case (Cons z zs)
    then show ?case by (simp add: option.map_comp comp_def)
  qed (simp add: option.map_id)
  with assms(1,2) obtain q' where q': "F q = Some q'" "r' = foldr mark_done zs q'" by (auto simp: late_def)
  with same [OF q'(1)] assms(1) show ?thesis by (auto simp: late_def)
qed

lemma late_readLoop:
  assumes "late zs q r" "readLoop_step hs b r = Some r'" "b \<notin> set zs"
  shows "\<exists>q'. readLoop_step hs b q = Some q' \<and> late zs q' r'"
proof (rule late_step [OF assms(1), of "readLoop_step hs b", OF assms(2)])
  show "readLoop_step hs b (mark_done z q) = map_option (mark_done z) (readLoop_step hs b q)" if "z \<in> set zs" for z q
    using that assms(3) by (intro mark_done_readLoop) auto
  show "length (readers q') = length (readers q) \<and> readers q' ! z = readers q ! z"
    if "readLoop_step hs b q = Some q'" "z \<in> set zs" for q q' z
    using readLoop_others [OF that(1)] that(2) assms(3) by metis
qed

lemma late_env:
  assumes "late zs q r" "router_step e r = Some r'" "(\<exists>s m. e = DoDeliver s m) \<or> (\<exists>s. e = DoPeerClose s) \<or> e = DoConsume"
  shows "\<exists>q'. router_step e q = Some q' \<and> late zs q' r'"
proof (rule late_step [OF assms(1), of "router_step e", OF assms(2)])
  show "router_step e (mark_done z q) = map_option (mark_done z) (router_step e q)" for z q
    using assms(3) by (auto simp: mark_done_upd split: send_result.splits recv_result.splits)
  show "length (readers q') = length (readers q) \<and> readers q' ! z = readers q ! z" if "router_step e q = Some q'" for q q' z
    using beside_env(2) [OF that assms(3)] by simp
qed

lemma late_map:
  assumes "late zs q r" "\<And>z q. f (mark_done z q) = mark_done z (f q)" "\<And>q. readers (f q) = readers q"
  shows "late zs (f q) (f r)"
proof -
  have "\<exists>q'. Some (f q) = Some q' \<and> late zs q' (f r)"
    by (rule late_step [OF assms(1), of "\<lambda>r. Some (f r)"]) (use assms(2,3) in auto)
  then show ?thesis by simp
qed

text \<open>The steps of the late readers, taken at last.\<close>

lemma late_run:
  assumes "late zs q r"
  shows "run_actions router_step (map (DoReader []) (rev zs)) q = Some r"
  using assms
proof (induction zs arbitrary: r)
  case (Cons z zs)
  let ?q = "foldr mark_done zs q"
  have l: "late zs q ?q" using Cons.prems by (auto simp: late_def)
  have "z \<notin> set zs" "z < length (readers q)" "\<exists>t. pc_of q z = ReadExit t" using Cons.prems by (auto simp: late_def)
  with late_sel(4,5) [OF l] obtain t where "z < length (readers ?q)" "pc_of ?q z = ReadExit t" by auto
  from mark_done_step [OF this] Cons.IH [OF l] Cons.prems show ?case by (simp add: run_actions_append late_def)
qed simp

section \<open>Who makes the Unsubscribe calls\<close>

text \<open>The subscriptions still to be unsubscribed are with the calls that took them from the registry, one each.\<close>

fun owed :: "'h cpc \<Rightarrow> nat multiset" where
  "owed (UnsCall d s) = {#s#}"
| "owed (CloCall subs) = mset subs"
| "owed _ = {#}"

definition owed_ok :: "'h lrouter \<Rightarrow> bool" where
  "owed_ok lr \<longleftrightarrow> mset (pending (lr_r lr)) = (\<Sum>c \<leftarrow> lr_ops lr. owed (op_pc c))"

lemma owed_update:
  assumes "k < length cs"
  shows "(\<Sum>c \<leftarrow> cs[k := c']. owed (op_pc c)) + owed (op_pc (cs ! k)) = (\<Sum>c \<leftarrow> cs. owed (op_pc c)) + owed (op_pc c')"
proof -
  have "cs = take k cs @ cs ! k # drop (Suc k) cs" using assms by (simp add: id_take_nth_drop [symmetric])
  then have "(\<Sum>c \<leftarrow> cs. owed (op_pc c)) = (\<Sum>c \<leftarrow> take k cs. owed (op_pc c)) + (owed (op_pc (cs ! k)) + (\<Sum>c \<leftarrow> drop (Suc k) cs. owed (op_pc c)))"
    by (metis list.simps(9) map_append sum_list.Cons sum_list_append)
  with assms show ?thesis by (simp add: upd_conv_take_nth_drop)
qed

lemma owed_goto:
  assumes "owed_ok lr" "k < length (lr_ops lr)" "lr_ops lr' = lr_ops (goto k pc lr)"
    "mset (pending (lr_r lr')) + owed (op_pc (lr_ops lr ! k)) = mset (pending (lr_r lr)) + owed pc"
  shows "owed_ok lr'"
proof -
  have "mset (pending (lr_r lr')) + owed (op_pc (lr_ops lr ! k)) = (\<Sum>c \<leftarrow> lr_ops lr'. owed (op_pc c)) + owed (op_pc (lr_ops lr ! k))"
    using assms(1,3,4) owed_update [OF assms(2), of "(lr_ops lr ! k)\<lparr>op_pc := pc\<rparr>"] by (simp add: owed_ok_def)
  then show ?thesis by (simp add: owed_ok_def)
qed

lemma owed_mem:
  assumes "owed_ok lr" "k < length (lr_ops lr)" "s \<in># owed (op_pc (lr_ops lr ! k))"
  shows "s \<in> set (pending (lr_r lr))"
proof -
  have "s \<in># (\<Sum>c \<leftarrow> lr_ops lr. owed (op_pc c))"
    using assms(2,3) by (auto simp: set_mset_sum_list intro!: bexI [of _ "lr_ops lr ! k"])
  with assms(1) show ?thesis by (metis owed_ok_def set_mset_mset)
qed

lemma pending_readLoop: "readLoop_step hs a r = Some r' \<Longrightarrow> pending r' = pending r"
  by (auto simp: readLoop_step_def Let_def set_pc_def
    split: if_splits rpc.splits option.splits list.splits recv_result.splits send_result.splits)

lemma unsub_locked_pending: "Unsubscribe_locked d tok r = (sub, r1) \<Longrightarrow> pending r1 = pending r"
  by (auto simp: Unsubscribe_locked_def Let_def split: option.splits if_splits)

lemma clear_pending:
  assumes "router_inv r" "point_ok r (CloScan [] subs)"
  shows "mset (pending (clear_dests subs r)) = mset (pending r) + mset subs"
proof -
  let ?as = "map (\<lambda>(d, a). ds_sub (states r ! a)) (dests r)"
  have as: "?as = map snd (dests r)" using entry_sub [OF assms(1)] by (auto simp: case_prod_unfold)
  have "inj_on snd (set (dests r))" using entry_inj [OF assms(1)] by (auto intro!: inj_onI)
  then have "distinct (map snd (dests r))" using router_invD(3) [OF assms(1)] by (simp add: distinct_map)
  then have "distinct (filter (\<lambda>s. s \<in> set subs) ?as)" unfolding as by simp
  moreover have "set (filter (\<lambda>s. s \<in> set subs) ?as) = set subs" using assms(2) unfolding as by auto
  ultimately have "mset (filter (\<lambda>s. s \<in> set subs) ?as) = mset subs"
    using assms(2) by (metis point_ok.simps(2) set_eq_iff_mset_eq_distinct)
  moreover have "pending (clear_dests subs r) = pending r @ filter (\<lambda>s. s \<in> set subs) ?as" by (simp add: clear_dests_def Let_def)
  ultimately show ?thesis by (simp only: mset_append)
qed

lemma owed_call_step:
  assumes L: "lock_inv lr" and O: "owed_ok lr" and st: "call_step res n i k lr = Some lr'"
  shows "owed_ok lr'"
proof -
  note I = lock_invD [OF L]
  note k = call_step_point [OF st, THEN conjunct1]
  have ok: "point_ok (lr_r lr) (op_pc (lr_ops lr ! k))" using I(5) k by simp
  have mem: "s \<in># owed (op_pc (lr_ops lr ! k)) \<Longrightarrow> add_mset s (mset (remove1 s (pending (lr_r lr)))) = mset (pending (lr_r lr))" for s
    using owed_mem [OF O k] by simp
  note step = st [unfolded call_step_def Let_def if_P [OF k]]
  show ?thesis
  proof (cases "op_pc (lr_ops lr ! k)")
    case (UnsBody d tok)
    then show ?thesis
      using step by (auto simp: release_def unsub_locked_pending split: prod.splits option.splits intro!: owed_goto [OF O k])
  next
    case (CloScan todo subs)
    with step clear_pending [OF I(1)] ok show ?thesis
      by (cases todo) (auto simp: release_def Let_def split: if_splits intro!: owed_goto [OF O k])
  next
    case (CloCall subs)
    with step mem show ?thesis
      by (cases subs) (auto simp: call_sub_def intro!: owed_goto [OF O k])
  next
    case (UnsCall d s)
    with step mem show ?thesis by (auto simp: call_sub_def intro!: owed_goto [OF O k])
  qed (use step in \<open>auto simp: release_def acquire_def attach_def register_def split: option.splits if_splits intro!: owed_goto [OF O k]\<close>)
qed

lemma owed_wakes: "(\<Sum>c \<leftarrow> Done_wakes pc r cs. owed (op_pc c)) = (\<Sum>c \<leftarrow> cs. owed (op_pc c))"
proof -
  have "owed (op_pc (wake c)) = owed (op_pc c)" for c :: "'a opcall" by (cases "op_pc c") (simp_all add: wake_def)
  then show ?thesis by (simp add: Done_wakes_lift)
qed

lemma owed_lock_step:
  assumes "lock_inv lr" "owed_ok lr" "lock_step act lr = Some lr'"
  shows "owed_ok lr'"
proof (cases act)
  case (LCall res n i k)
  with assms owed_call_step show ?thesis by auto
next
  case (LReader hs a)
  with assms(3) have "reader_step hs a lr = Some lr'" by simp
  then show ?thesis using assms(2) by (cases rule: reader_step_cases) (auto simp: owed_ok_def owed_wakes pending_readLoop)
qed (use assms in \<open>auto simp: owed_ok_def begin_call_def Let_def split: if_splits send_result.splits recv_result.splits\<close>)

section \<open>The tokens drawn\<close>

text \<open>A Subscribe under way has a token that nobody else has: the counter has not come round.\<close>

fun drawn :: "'h cpc \<Rightarrow> token option" where
  "drawn (SubLock d h tok) = Some tok"
| "drawn (SubTest d h tok) = Some tok"
| "drawn (SubDial d h tok) = Some tok"
| "drawn _ = None"

definition drawn_by :: "'h lrouter \<Rightarrow> nat \<Rightarrow> token \<Rightarrow> bool" where
  "drawn_by lr k t \<longleftrightarrow> k < length (lr_ops lr) \<and> drawn (op_pc (lr_ops lr ! k)) = Some t"

definition tokens_ok :: "'h lrouter \<Rightarrow> bool" where
  "tokens_ok lr \<longleftrightarrow>
     (\<forall>t \<in> in_use (lr_r lr). unat t \<le> unat (nextToken (lr_r lr)))
     \<and> (\<forall>k t. drawn_by lr k t \<longrightarrow> unat t \<le> unat (nextToken (lr_r lr)) \<and> t \<notin> in_use (lr_r lr))
     \<and> (\<forall>j k t. drawn_by lr j t \<longrightarrow> drawn_by lr k t \<longrightarrow> j = k)"

lemma tokens_okI:
  assumes "\<And>t. t \<in> in_use (lr_r lr) \<Longrightarrow> unat t \<le> unat (nextToken (lr_r lr))"
    "\<And>k t. drawn_by lr k t \<Longrightarrow> unat t \<le> unat (nextToken (lr_r lr)) \<and> t \<notin> in_use (lr_r lr)"
    "\<And>j k t. drawn_by lr j t \<Longrightarrow> drawn_by lr k t \<Longrightarrow> j = k"
  shows "tokens_ok lr"
  using assms unfolding tokens_ok_def by auto

lemma tokens_okD:
  assumes "tokens_ok lr"
  shows "t \<in> in_use (lr_r lr) \<Longrightarrow> unat t \<le> unat (nextToken (lr_r lr))"
    "drawn_by lr k t \<Longrightarrow> unat t \<le> unat (nextToken (lr_r lr))" "drawn_by lr k t \<Longrightarrow> t \<notin> in_use (lr_r lr)"
    "drawn_by lr j t \<Longrightarrow> drawn_by lr k t \<Longrightarrow> j = k"
  using assms unfolding tokens_ok_def by auto

lemma tokens_mono:
  assumes "tokens_ok lr" "nextToken (lr_r lr') = nextToken (lr_r lr)" "in_use (lr_r lr') \<subseteq> in_use (lr_r lr)"
    "\<And>k t. drawn_by lr' k t \<Longrightarrow> drawn_by lr k t"
  shows "tokens_ok lr'"
proof (rule tokens_okI)
  show "unat t \<le> unat (nextToken (lr_r lr'))" if "t \<in> in_use (lr_r lr')" for t
    using tokens_okD(1) [OF assms(1)] assms(2,3) that by auto
  show "unat t \<le> unat (nextToken (lr_r lr')) \<and> t \<notin> in_use (lr_r lr')" if "drawn_by lr' k t" for k t
    using tokens_okD(2,3) [OF assms(1) assms(4) [OF that]] assms(2,3) by auto
qed (use tokens_okD(4) [OF assms(1)] assms(4) in blast)

lemma tokens_bind:
  assumes "tokens_ok lr" "drawn_by lr k tok" "in_use r \<subseteq> insert tok (in_use (lr_r lr))"
    "nextToken r = nextToken (lr_r lr)" "drawn pc = None"
  shows "tokens_ok (release k pc r lr)"
proof -
  have r: "lr_r (release k pc r lr) = r" by (simp add: release_def)
  have other: "j \<noteq> k" "drawn_by lr j t" if "drawn_by (release k pc r lr) j t" for j t
    using that assms(5) by (cases "j = k"; auto simp: drawn_by_def release_def)+
  note D = tokens_okD [OF assms(1)]
  show ?thesis
  proof (rule tokens_okI, unfold r assms(4))
    show "unat t \<le> unat (nextToken (lr_r lr))" if "t \<in> in_use r" for t
      using that assms(2,3) D(1) [of t] D(2) [of k t] by blast
    show "unat t \<le> unat (nextToken (lr_r lr)) \<and> t \<notin> in_use r" if "drawn_by (release k pc r lr) j t" for j t
      using D(2,3) [OF other(2) [OF that]] D(4) [OF other(2) [OF that], of k] other(1) [OF that] assms(2,3) by blast
  qed (use D(4) other in blast)
qed

lemma tokens_draw:
  assumes "tokens_ok lr" "unat (nextToken (lr_r lr)) < 2 ^ 64 - 1"
    "begin_call fr (SubLock d h (nextToken (lr_r lr) + 1)) (lr\<lparr>lr_r := (lr_r lr)\<lparr>nextToken := nextToken (lr_r lr) + 1\<rparr>\<rparr>) = Some lr'"
  shows "tokens_ok lr'" "unat (nextToken (lr_r lr')) = Suc (unat (nextToken (lr_r lr)))"
proof -
  define t' where "t' = nextToken (lr_r lr) + 1"
  have lr': "lr' = lr\<lparr>lr_r := (lr_r lr)\<lparr>nextToken := t'\<rparr>, lr_ops := lr_ops lr @ [\<lparr>op_from = fr, op_pc = SubLock d h t'\<rparr>]\<rparr>"
    using assms(3) by (simp add: begin_call_def t'_def split: if_splits)
  have u: "unat t' = Suc (unat (nextToken (lr_r lr)))"
    using assms(2) unfolding t'_def by (simp add: unat_word_ariths)
  then show "unat (nextToken (lr_r lr')) = Suc (unat (nextToken (lr_r lr)))" by (simp add: lr')
  note D = tokens_okD [OF assms(1)]
  have new: "t' \<notin> in_use (lr_r lr)" "\<not> drawn_by lr k t'" for k
    using D(1) [of t'] D(2) [of k t'] u by auto
  have old: "t = t' \<and> k = length (lr_ops lr) \<or> drawn_by lr k t" if "drawn_by lr' k t" for k t
    using that by (auto simp: lr' drawn_by_def nth_append less_Suc_eq split: if_splits)
  show "tokens_ok lr'"
  proof (rule tokens_okI)
    show "unat t \<le> unat (nextToken (lr_r lr'))" if "t \<in> in_use (lr_r lr')" for t
      using that D(1) [of t] u by (simp add: lr')
    show "unat t \<le> unat (nextToken (lr_r lr')) \<and> t \<notin> in_use (lr_r lr')" if "drawn_by lr' k t" for k t
      using old [OF that] new D(2,3) [of k t] u by (auto simp: lr')
    show "j = k" if "drawn_by lr' j t" "drawn_by lr' k t" for j k t
      using old [OF that(1)] old [OF that(2)] new D(4) by blast
  qed
qed

lemma drawn_goto:
  assumes "drawn pc = None \<or> drawn pc = drawn (op_pc (lr_ops lr ! k))" "lr_ops lr' = lr_ops (goto k pc lr)" "drawn_by lr' j t"
  shows "drawn_by lr j t"
  using assms by (cases "j = k") (auto simp: drawn_by_def)

lemma tokens_goto:
  assumes "tokens_ok lr" "drawn pc = None \<or> drawn pc = drawn (op_pc (lr_ops lr ! k))"
  shows "tokens_ok (goto k pc lr)" "tokens_ok (goto k pc (lr\<lparr>lr_mu := mu\<rparr>))"
    "in_use r \<subseteq> in_use (lr_r lr) \<Longrightarrow> nextToken r = nextToken (lr_r lr) \<Longrightarrow> tokens_ok (goto k pc (lr\<lparr>lr_r := r\<rparr>))"
    "in_use r \<subseteq> in_use (lr_r lr) \<Longrightarrow> nextToken r = nextToken (lr_r lr) \<Longrightarrow> tokens_ok (release k pc r lr)"
proof -
  have "tokens_ok lr'" if "lr_ops lr' = lr_ops (goto k pc lr)" "nextToken (lr_r lr') = nextToken (lr_r lr)"
    "in_use (lr_r lr') \<subseteq> in_use (lr_r lr)" for lr'
    by (rule tokens_mono [OF assms(1) that(2,3) drawn_goto [OF assms(2) that(1)]])
  then show "tokens_ok (goto k pc lr)" "tokens_ok (goto k pc (lr\<lparr>lr_mu := mu\<rparr>))"
    "in_use r \<subseteq> in_use (lr_r lr) \<Longrightarrow> nextToken r = nextToken (lr_r lr) \<Longrightarrow> tokens_ok (goto k pc (lr\<lparr>lr_r := r\<rparr>))"
    "in_use r \<subseteq> in_use (lr_r lr) \<Longrightarrow> nextToken r = nextToken (lr_r lr) \<Longrightarrow> tokens_ok (release k pc r lr)"
    by (simp_all add: release_def)
qed

lemma in_use_Unsubscribe:
  assumes "router_inv r" "Unsubscribe_locked d tok r = (sub, r1)"
  shows "in_use r1 \<subseteq> in_use r" "nextToken r1 = nextToken r"
  using in_use_step [OF assms(1), of "DoUnsubscribe d tok"] nextToken_step [of "DoUnsubscribe d tok" r] assms(2)
  by (auto simp: in_use_def)

lemma in_use_readLoop:
  assumes "router_inv r" "readLoop_step hs a r = Some r'"
  shows "in_use r' \<subseteq> in_use r" "nextToken r' = nextToken r"
  using in_use_step [OF assms(1), of "DoReader hs a"] nextToken_step [of "DoReader hs a" r] assms(2) by auto

lemma in_use_sections:
  assumes "router_inv r"
  shows "live_state r d = Some a \<Longrightarrow> in_use (attach tok a h r) \<subseteq> insert tok (in_use r)"
    "live_state r d = None \<Longrightarrow> in_use (register tok d h n r) \<subseteq> insert tok (in_use r)"
    "in_use (clear_dests subs r) = in_use r" "in_use (call_sub s r) = in_use r"
    "nextToken (attach tok a h r) = nextToken r" "nextToken (register tok d h n r) = nextToken r"
    "nextToken (clear_dests subs r) = nextToken r" "nextToken (call_sub s r) = nextToken r"
proof -
  show "in_use (attach tok a h r) \<subseteq> insert tok (in_use r)" if "live_state r d = Some a"
    using in_use_Subscribe [OF assms, of tok d h None 0] that by (simp add: Subscribe_locked_def)
  show "in_use (register tok d h n r) \<subseteq> insert tok (in_use r)" if "live_state r d = None"
    using in_use_Subscribe [OF assms, of tok d h None n] that by (simp add: Subscribe_locked_def)
qed (simp_all add: in_use_def clear_dests_def call_sub_def attach_def register_def Let_def)

lemma release_sel [simp]:
  "lr_r (release k pc r lr) = r" "lr_mu (release k pc r lr) = None"
  "lr_ops (release k pc r lr) = lr_ops (goto k pc lr)" "lr_run (release k pc r lr) = lr_run lr"
  by (simp_all add: release_def)

lemma tokens_call_step:
  assumes L: "lock_inv lr" and T: "tokens_ok lr" and st: "call_step res n i k lr = Some lr'"
  shows "tokens_ok lr' \<and> nextToken (lr_r lr') = nextToken (lr_r lr)"
proof -
  note I = lock_invD [OF L]
  note k = call_step_point [OF st, THEN conjunct1]
  note U = in_use_sections [OF I(1)]
  note G = tokens_goto [OF T]
  have ok: "point_ok (lr_r lr) (op_pc (lr_ops lr ! k))" using I(5) k by simp
  note step = st [unfolded call_step_def Let_def if_P [OF k]]
  show ?thesis
  proof (cases "op_pc (lr_ops lr ! k)")
    case (SubTest d h tok)
    then have "drawn_by lr k tok" using k by (simp add: drawn_by_def)
    from tokens_bind [OF T this] U(1,5) have "tokens_ok (release k (SubDone (Inr tok)) (attach tok a h (lr_r lr)) lr)"
      if "live_state (lr_r lr) d = Some a" for a using that by simp
    with SubTest step G(1) [of "SubDial d h tok" k] U(5) show ?thesis by (auto split: option.splits)
  next
    case (SubDial d h tok)
    then have "drawn_by lr k tok" using k by (simp add: drawn_by_def)
    from tokens_bind [OF T this] U(2,6) have "tokens_ok (release k (SubDone (Inr tok)) (register tok d h n (lr_r lr)) lr)"
      using SubDial ok by simp
    moreover have "tokens_ok (release k (SubDone (Inl e)) (lr_r lr) lr)" for e by (rule G(4)) simp_all
    ultimately show ?thesis using SubDial step U(6) by (cases res) auto
  next
    case (UnsBody d tok)
    obtain s r1 where u: "Unsubscribe_locked d tok (lr_r lr) = (s, r1)" by fastforce
    note V = in_use_Unsubscribe [OF I(1) u]
    have "tokens_ok (release k (UnsCall d s') (r1\<lparr>pending := ps\<rparr>) lr)" for s' ps
      using V by (intro G(4)) (simp_all add: in_use_def)
    moreover have "tokens_ok (release k (UnsDone None) r1 lr)" using V by (intro G(4)) simp_all
    ultimately show ?thesis using UnsBody step u V(2) by (auto split: option.splits)
  next
    case (CloScan todo subs)
    show ?thesis
    proof (cases todo)
      case Nil
      with CloScan step G(4) [of "CloCall subs"] U(3,7) show ?thesis by auto
    next
      case (Cons p ps)
      then obtain todo' subs' where "lr' = goto k (CloScan todo' subs') lr" using call_step_scan [OF st CloScan] by blast
      with G(1) [of "CloScan todo' subs'" k] show ?thesis by simp
    qed
  next
    case (CloCall subs)
    have "tokens_ok (goto k (CloCall ss) (lr\<lparr>lr_r := call_sub s (lr_r lr)\<rparr>))" for ss s using U(4,8) by (intro G(3)) simp_all
    with CloCall step G(1) [of CloWait] U(8) show ?thesis by (cases subs) auto
  next
    case (UnsCall d s)
    have "tokens_ok (goto k (UnsDone v) (lr\<lparr>lr_r := call_sub s (lr_r lr)\<rparr>))" for v using U(4,8) by (intro G(3)) simp_all
    with UnsCall step U(8) show ?thesis by auto
  qed (use step G(1,2) in \<open>auto simp: acquire_def split: if_splits\<close>)
qed

lemma drawn_wake [simp]: "drawn (op_pc (wake c)) = drawn (op_pc c)"
  by (cases "op_pc c") (simp_all add: wake_def)

lemma tokens_readLoop:
  assumes "lock_inv lr" "tokens_ok lr" "readLoop_step hs a (lr_r lr) = Some r'" "lr_r lr' = r'"
    "lr_ops lr' = lr_ops lr \<or> lr_ops lr' = Done_wakes pc r' (lr_ops lr)"
  shows "tokens_ok lr'"
proof (rule tokens_mono [OF assms(2)])
  show "drawn_by lr k t" if "drawn_by lr' k t" for k t
    using that assms(5) by (auto simp: drawn_by_def Done_wakes_nth split: if_splits)
qed (use in_use_readLoop [OF lock_invD(1) [OF assms(1)] assms(3)] assms(4) in simp_all)

lemma tokens_lock_step:
  assumes L: "lock_inv lr" and T: "tokens_ok lr" and st: "lock_step act lr = Some lr'"
    and n: "unat (nextToken (lr_r lr)) < 2 ^ 64 - 1"
  shows "tokens_ok lr' \<and> unat (nextToken (lr_r lr')) \<le> Suc (unat (nextToken (lr_r lr)))"
proof (cases act)
  case (LSubscribe fr d h)
  with st tokens_draw [OF T n, of fr d h] show ?thesis by (simp add: Let_def)
next
  case (LCall res m i k)
  with st tokens_call_step [OF L T] show ?thesis by simp
next
  case (LReader hs a)
  with st have "reader_step hs a lr = Some lr'" by simp
  then show ?thesis
    using in_use_readLoop(2) [OF lock_invD(1) [OF L]] T
    by (cases rule: reader_step_cases) (auto simp: drawn_by_def intro: tokens_mono tokens_readLoop [OF L T])
qed (use st T in \<open>auto simp: drawn_by_def in_use_def begin_call_def nth_append less_Suc_eq
    split: if_splits send_result.splits recv_result.splits intro: tokens_mono\<close>)

section \<open>The simulation\<close>

text \<open>
  The Close that is looking through the registry, if there is one. Of the entries it has seen, its list has
  those that are not dead once the late readers are put behind it.
\<close>

definition scanning :: "'h lrouter \<Rightarrow> ((string \<times> nat) list \<times> nat list) option" where
  "scanning lr =
     (case lr_mu lr of
        Some (HCall k) \<Rightarrow> (case op_pc (lr_ops lr ! k) of CloScan todo subs \<Rightarrow> Some (todo, subs) | _ \<Rightarrow> None)
      | _ \<Rightarrow> None)"

definition scan_rel :: "((string \<times> nat) list \<times> nat list) option \<Rightarrow> nat list \<Rightarrow> 'h router \<Rightarrow> bool" where
  "scan_rel sc zs q =
     (case sc of
        None \<Rightarrow> zs = []
      | Some (todo, subs) \<Rightarrow>
          set zs \<subseteq> set subs \<and> (\<forall>p \<in> set (dests q) - set todo. snd p \<in> set subs \<longleftrightarrow> \<not> ds_done (states q ! snd p)))"

lemma scan_rel_cong: "dests q' = dests q \<Longrightarrow> states q' = states q \<Longrightarrow> scan_rel sc zs q' = scan_rel sc zs q"
  by (simp only: scan_rel_def)

definition core :: "nat \<Rightarrow> 'h lrouter \<Rightarrow> 'h router \<Rightarrow> bool" where
  "core m lr q0 \<longleftrightarrow> (\<exists>q zs k. late zs q (lr_r lr) \<and> scan_rel (scanning lr) zs q \<and> renamed k q q0 \<and> k \<le> m)"

definition follows :: "nat \<Rightarrow> 'h lrouter \<Rightarrow> 'h router \<Rightarrow> bool" where
  "follows m lr q0 \<longleftrightarrow> (\<exists>as q1. run_actions router_step as q0 = Some q1 \<and> core m lr q1)"

lemma follows_stutter:
  assumes "core m lr q0" "lr_r lr' = (lr_r lr)\<lparr>nextToken := t\<rparr>" "scanning lr' = scanning lr"
  shows "follows (Suc m) lr' q0"
proof -
  from assms(1) obtain q zs k where c: "late zs q (lr_r lr)" "scan_rel (scanning lr) zs q" "renamed k q q0" "k \<le> m"
    by (auto simp: core_def)
  have "late zs (q\<lparr>nextToken := t\<rparr>) (lr_r lr')"
    unfolding assms(2) by (rule late_map [OF c(1)]) (simp_all add: mark_done_upd)
  moreover have "scan_rel (scanning lr') zs (q\<lparr>nextToken := t\<rparr>)"
    using c(2) assms(3) scan_rel_cong [of "q\<lparr>nextToken := t\<rparr>" q] by simp
  ultimately have "core (Suc m) lr' q0" using c(3,4) unfolding core_def by (metis le_SucI renamed_counter)
  then show ?thesis unfolding follows_def by (intro exI [of _ "[]"]) simp
qed

lemma follows_same:
  assumes "core m lr q0" "lr_r lr' = lr_r lr" "scanning lr' = scanning lr"
  shows "follows (Suc m) lr' q0"
  using follows_stutter [OF assms(1), of lr' "nextToken (lr_r lr)"] assms(2,3) by simp

text \<open>When no Close is under way the two states are the same up to tokens, and so is a step.\<close>

lemma core_calm: "core m lr q0 \<Longrightarrow> scanning lr = None \<Longrightarrow> \<exists>k \<le> m. renamed k (lr_r lr) q0"
  by (auto simp: core_def scan_rel_def)

lemma calm_core: "renamed k (lr_r lr) q0 \<Longrightarrow> k \<le> m \<Longrightarrow> scanning lr = None \<Longrightarrow> core m lr q0"
  unfolding core_def scan_rel_def by (intro exI [of _ "lr_r lr"] exI [of _ "[]"] exI [of _ k]) simp

lemma follows_calm:
  assumes "core m lr q0" "scanning lr = None" "router_step act (lr_r lr) = Some (lr_r lr')" "\<not> is_subscribe act"
    "scanning lr' = None"
  shows "follows (Suc m) lr' q0"
proof -
  from core_calm [OF assms(1,2)] obtain k where "k \<le> m" "renamed k (lr_r lr) q0" by blast
  with renamed_other [OF _ assms(3,4)] obtain act' q1 where "router_step act' q0 = Some q1" "renamed k (lr_r lr') q1" by blast
  with \<open>k \<le> m\<close> assms(5) show ?thesis unfolding follows_def by (intro exI [of _ "[act']"]) (auto intro: calm_core)
qed

lemma follows_Subscribe:
  assumes "core m lr q0" "scanning lr = None" "lr_r lr' = snd (Subscribe_locked tok d h res n (lr_r lr))"
    "tok \<notin> in_use (lr_r lr)" "Suc m < 2 ^ 64" "scanning lr' = None"
  shows "follows (Suc m) lr' q0"
proof -
  from core_calm [OF assms(1,2)] obtain k where k: "k \<le> m" "renamed k (lr_r lr) q0" by blast
  with assms(5) have "Suc k < 2 ^ 64" by simp
  from renamed_Subscribe [OF k(2) assms(4) this, of d h res n] assms(3) obtain q1
    where "router_step (DoSubscribe d h res n) q0 = Some q1" "renamed (Suc k) (lr_r lr') q1" by auto
  with k(1) assms(6) show ?thesis
    unfolding follows_def by (intro exI [of _ "[DoSubscribe d h res n]"]) (auto intro: calm_core)
qed

text \<open>Beside a Close the step is taken before those of the late readers.\<close>

lemma follows_beside:
  assumes "core m lr q0" "\<not> is_subscribe act" "scanning lr' = scanning lr"
    "\<And>q zs. late zs q (lr_r lr) \<Longrightarrow> scan_rel (scanning lr) zs q \<Longrightarrow> router_inv q \<Longrightarrow>
       \<exists>q'. router_step act q = Some q' \<and> late zs q' (lr_r lr') \<and> scan_rel (scanning lr) zs q'"
  shows "follows (Suc m) lr' q0"
proof -
  from assms(1) obtain q zs k where c: "late zs q (lr_r lr)" "scan_rel (scanning lr) zs q" "renamed k q q0" "k \<le> m"
    by (auto simp: core_def)
  from c(3) have "router_inv q" by (simp add: renamed_def)
  from assms(4) [OF c(1,2) this] obtain q' where q': "router_step act q = Some q'" "late zs q' (lr_r lr')" "scan_rel (scanning lr) zs q'"
    by blast
  from renamed_other [OF c(3) q'(1) assms(2)] obtain act' q1 where "router_step act' q0 = Some q1" "renamed k q' q1" by blast
  with c(4) q'(2,3) assms(3) show ?thesis
    unfolding follows_def core_def by (intro exI [of _ "[act']"]) (auto intro!: exI [of _ q'] exI [of _ zs] exI [of _ k])
qed

lemma scanning_None [simp]: "lr_mu lr = None \<Longrightarrow> scanning lr = None" "lr_mu lr = Some (HRead a) \<Longrightarrow> scanning lr = None"
  by (simp_all add: scanning_def)

lemma scanning_cong: "lr_mu lr' = lr_mu lr \<Longrightarrow> lr_ops lr' = lr_ops lr \<Longrightarrow> scanning lr' = scanning lr"
  by (simp only: scanning_def)

lemma scanning_other: "lr_mu lr \<noteq> Some (HCall k) \<Longrightarrow> scanning (goto k pc (lr\<lparr>lr_r := r\<rparr>)) = scanning lr"
  by (auto simp: scanning_def goto_def split: option.splits holder.splits)

lemma follows_call_sub:
  assumes "core m lr q0" "s \<in> set (pending (lr_r lr))" "lr_r lr' = call_sub s (lr_r lr)" "scanning lr' = scanning lr"
  shows "follows (Suc m) lr' q0"
proof (rule follows_beside [OF assms(1) _ assms(4), of "DoCallUnsubscribe s"])
  fix q zs
  assume l: "late zs q (lr_r lr)" and sc: "scan_rel (scanning lr) zs q"
  have "router_step (DoCallUnsubscribe s) q = Some (call_sub s q)"
    using assms(2) late_sel(2) [OF l] by (simp add: call_sub_def)
  moreover have "late zs (call_sub s q) (lr_r lr')"
    unfolding assms(3) by (rule late_map [OF l mark_done_call_sub]) (simp add: call_sub_def)
  moreover have "scan_rel (scanning lr) zs (call_sub s q)" using sc scan_rel_cong [of "call_sub s q" q] by (simp add: call_sub_def)
  ultimately show "\<exists>q'. router_step (DoCallUnsubscribe s) q = Some q' \<and> late zs q' (lr_r lr') \<and> scan_rel (scanning lr) zs q'" by blast
qed simp

text \<open>Close looks at one more entry: the reader of that entry is not late.\<close>

lemma follows_scan:
  assumes "core m lr q0" "lock_inv lr" "scanning lr = Some (todo, subs)" "point_ok (lr_r lr) (CloScan todo subs)" "e \<in> set todo"
    "scanning lr' = Some (remove1 e todo, if dead (states (lr_r lr) ! snd e) then subs else subs @ [ds_sub (states (lr_r lr) ! snd e)])"
    "lr_r lr' = lr_r lr"
  shows "follows (Suc m) lr' q0"
proof -
  from assms(1) obtain q zs k where c: "late zs q (lr_r lr)" "scan_rel (scanning lr) zs q" "renamed k q q0" "k \<le> m"
    by (auto simp: core_def)
  note I = lock_invD(1) [OF assms(2)]
  from assms(4,5) have e: "e \<in> set (dests (lr_r lr))" "distinct todo" by auto
  have new: "snd e \<notin> set subs"
  proof
    assume "snd e \<in> set subs"
    with assms(4) obtain p where "p \<in> set (dests (lr_r lr)) - set todo" "snd p = snd e" by auto
    with entry_inj [OF I _ e(1)] assms(5) show False by blast
  qed
  with c(2) assms(3) have "snd e \<notin> set zs" by (auto simp: scan_rel_def)
  then have st: "states (lr_r lr) ! snd e = states q ! snd e" by (rule late_sel(6) [OF c(1)])
  have d: "dests q = dests (lr_r lr)" using late_sel(1) [OF c(1)] by simp
  have same: "snd p \<noteq> snd e" if "p \<in> set (dests q) - set todo" for p
    using entry_inj [OF I _ e(1)] that assms(5) unfolding d by blast
  have old: "snd p \<in> set subs \<longleftrightarrow> \<not> ds_done (states q ! snd p)" if "p \<in> set (dests q) - set todo" for p
    using c(2) assms(3) that by (simp add: scan_rel_def)
  have seen: "p \<in> set (dests q) - set todo \<or> p = e" if "p \<in> set (dests q) - set (remove1 e todo)" for p
    using that by (cases "p = e") simp_all
  have "snd p \<in> set (snd (the (scanning lr'))) \<longleftrightarrow> \<not> ds_done (states q ! snd p)" if "p \<in> set (dests q) - set (remove1 e todo)" for p
    using seen [OF that]
  proof
    assume "p \<in> set (dests q) - set todo"
    with old same entry_sub [OF I e(1)] show ?thesis by (simp add: assms(6))
  next
    assume "p = e"
    with new entry_sub [OF I e(1)] show ?thesis by (simp add: assms(6) dead_def st)
  qed
  moreover have "set zs \<subseteq> set (snd (the (scanning lr')))" using c(2) assms(3) by (auto simp: scan_rel_def assms(6))
  ultimately have "scan_rel (scanning lr') zs q" by (simp add: scan_rel_def assms(6))
  with c assms(7) have "core (Suc m) lr' q0" unfolding core_def by (metis le_SucI)
  then show ?thesis unfolding follows_def by (intro exI [of _ "[]"]) simp
qed

text \<open>Close is through: in the other machine it is one step, and then come the late readers.\<close>

lemma Close_clear:
  assumes "router_inv q" "scan_rel (Some ([], subs)) zs q"
  shows "router_step DoClose q = Some (clear_dests subs q)"
proof -
  have "filter (\<lambda>s. s \<in> set subs) (map (\<lambda>(d, a). ds_sub (states q ! a)) ps) =
    map (\<lambda>(d, a). ds_sub (states q ! a)) (filter (\<lambda>(d, a). \<not> dead (states q ! a)) ps)" if "set ps \<subseteq> set (dests q)" for ps
    using that
  proof (induction ps)
    case (Cons p ps)
    with assms(2) entry_sub [OF assms(1), of p] have "ds_sub (states q ! snd p) \<in> set subs \<longleftrightarrow> \<not> dead (states q ! snd p)"
      by (simp add: scan_rel_def dead_def)
    with Cons show ?case by (cases p) simp
  qed simp
  then show ?thesis by (simp add: Close_locked_def clear_dests_def Let_def)
qed

lemma renamed_others:
  assumes "renamed k r q" "run_actions router_step as r = Some r'" "list_all (\<lambda>act. \<not> is_subscribe act) as"
  shows "\<exists>as' q'. run_actions router_step as' q = Some q' \<and> renamed k r' q'"
  using assms
proof (induction as arbitrary: r q)
  case Nil
  then show ?case by (intro exI [of _ "[]"]) auto
next
  case (Cons act as)
  then obtain r1 where r1: "router_step act r = Some r1" "run_actions router_step as r1 = Some r'"
    by (auto split: Option.bind_splits)
  from renamed_other [OF Cons.prems(1) r1(1)] Cons.prems(3) obtain act' q1 where
    q1: "router_step act' q = Some q1" "renamed k r1 q1" by auto
  from Cons.IH [OF q1(2) r1(2)] Cons.prems(3) obtain as' q' where "run_actions router_step as' q1 = Some q'" "renamed k r' q'"
    by auto
  with q1(1) show ?case by (intro exI [of _ "act' # as'"]) auto
qed

lemma follows_clear:
  assumes "core m lr q0" "scanning lr = Some ([], subs)" "lr_r lr' = clear_dests subs (lr_r lr)" "scanning lr' = None"
  shows "follows (Suc m) lr' q0"
proof -
  from assms(1) obtain q zs k where c: "late zs q (lr_r lr)" "scan_rel (scanning lr) zs q" "renamed k q q0" "k \<le> m"
    by (auto simp: core_def)
  from c(3) have "router_inv q" by (simp add: renamed_def)
  from Close_clear [OF this] c(2) assms(2) have "router_step DoClose q = Some (clear_dests subs q)" by simp
  moreover have "late zs (clear_dests subs q) (lr_r lr')"
    unfolding assms(3) by (rule late_map [OF c(1) mark_done_clear]) (simp add: clear_dests_def Let_def)
  ultimately have "run_actions router_step (DoClose # map (DoReader []) (rev zs)) q = Some (lr_r lr')"
    using late_run by simp
  from renamed_others [OF c(3) this] obtain as' q1 where "run_actions router_step as' q0 = Some q1" "renamed k (lr_r lr') q1"
    by (auto simp: list_all_iff)
  with c(4) assms(4) show ?thesis unfolding follows_def by (intro exI [of _ as']) (auto intro: calm_core)
qed

text \<open>A reader beside a Close: it is late when it closes a \<open>done\<close> that Close has found open.\<close>

lemma readLoop_states:
  assumes "readLoop_step hs a r = Some r'"
  shows "states r' = states r \<or> (\<exists>t. pc_of r a = ReadExit t \<and> states r' = (states r)[a := (states r ! a)\<lparr>ds_done := True\<rparr>])"
  using assms by (auto simp: readLoop_step_def Let_def
    split: if_splits rpc.splits option.splits list.splits recv_result.splits send_result.splits)

lemma scan_rel_readLoop:
  assumes "scan_rel sc zs q" "router_inv q" "readLoop_step hs a q = Some q'" "\<not> needs_lock (pc_of q a)"
    "\<And>t todo subs. pc_of q a = ReadExit t \<Longrightarrow> sc = Some (todo, subs) \<Longrightarrow> a \<notin> set subs"
  shows "scan_rel sc zs q'"
proof (cases "states q' = states q")
  case True
  with beside_readLoop [OF assms(2,3,4)] scan_rel_cong [of q' q] assms(1) show ?thesis by (simp add: beside_def)
next
  case False
  with readLoop_states [OF assms(3)] obtain t where t: "pc_of q a = ReadExit t"
    "states q' = (states q)[a := (states q ! a)\<lparr>ds_done := True\<rparr>]" by blast
  have d: "dests q' = dests q" using beside_readLoop [OF assms(2,3,4)] by (simp add: beside_def)
  have len: "snd p < length (states q)" if "p \<in> set (dests q)" for p
    using router_invD(5) [OF assms(2), of "fst p" "snd p"] that by (simp add: entry_ok_def)
  show ?thesis
  proof (cases sc)
    case (Some ts)
    then obtain todo subs where sc: "sc = Some (todo, subs)" by (cases ts) simp
    from assms(5) [OF t(1) sc] have "a \<notin> set subs" .
    then have "snd p \<in> set subs \<longleftrightarrow> \<not> ds_done (states q' ! snd p)" if "p \<in> set (dests q) - set todo" for p
      using assms(1) that len [of p] unfolding sc scan_rel_def t(2) by (cases "snd p = a") auto
    then show ?thesis using assms(1) unfolding sc scan_rel_def d by simp
  qed (use assms(1) in \<open>simp add: scan_rel_def\<close>)
qed

lemma follows_late:
  assumes "core m lr q0" "pc_of (lr_r lr) a = ReadExit t" "readLoop_step hs a (lr_r lr) = Some (lr_r lr')"
    "scanning lr = Some (todo, subs)" "a \<in> set subs" "scanning lr' = scanning lr"
  shows "follows (Suc m) lr' q0"
proof -
  from assms(1) obtain q zs k where c: "late zs q (lr_r lr)" "scan_rel (scanning lr) zs q" "renamed k q q0" "k \<le> m"
    by (auto simp: core_def)
  have a: "a < length (readers (lr_r lr))" using assms(3) by (simp add: readLoop_step_def split: if_splits)
  have out: "a \<notin> set zs" using late_pc [OF c(1)] assms(2) by fastforce
  have "lr_r lr' = mark_done a (lr_r lr)" using mark_done_step [OF a assms(2)] assms(3) by simp
  then have "late (a # zs) q (lr_r lr')"
    using c(1) out a assms(2) late_sel(4,5) [OF c(1)] by (auto simp: late_def)
  moreover have "scan_rel (scanning lr') (a # zs) q" using c(2) assms(4,5,6) by (simp add: scan_rel_def)
  ultimately have "core (Suc m) lr' q0" using c(3,4) unfolding core_def by (metis le_SucI)
  then show ?thesis unfolding follows_def by (intro exI [of _ "[]"]) simp
qed

lemma scanning_wakes:
  assumes "lock_inv lr" "lr_mu lr' = lr_mu lr" "lr_ops lr' = Done_wakes pc r (lr_ops lr)"
  shows "scanning lr' = scanning lr"
proof -
  have "(case op_pc (wake c) of CloScan todo subs \<Rightarrow> Some (todo, subs) | _ \<Rightarrow> None)
    = (case op_pc c of CloScan todo subs \<Rightarrow> Some (todo, subs) | _ \<Rightarrow> None)" for c :: "'a opcall"
    by (cases "op_pc c") (simp_all add: wake_def)
  with lock_invD(2) [OF assms(1)] show ?thesis
    by (auto simp: scanning_def assms(2,3) Done_wakes_nth split: option.splits holder.splits)
qed

lemma follows_reader:
  assumes L: "lock_inv lr" and C: "core m lr q0" and st: "reader_step hs a lr = Some lr'"
  shows "follows (Suc m) lr' q0"
  using st
proof (cases rule: reader_step_cases)
  case take
  then show ?thesis by (intro follows_same [OF C]) simp_all
next
  case (work r')
  then show ?thesis by (intro follows_calm [OF C, of "DoReader hs a"]) simp_all
next
  case (free r')
  have sc: "scanning lr' = scanning lr" by (rule scanning_wakes [OF L]) (simp_all add: free(3))
  have r': "lr_r lr' = r'" using free(3) by simp
  show ?thesis
  proof (cases "\<exists>t todo subs. pc_of (lr_r lr) a = ReadExit t \<and> scanning lr = Some (todo, subs) \<and> a \<in> set subs")
    case True
    with follows_late [OF C _ _ _ _ sc] free(2) r' show ?thesis by blast
  next
    case False
    show ?thesis
    proof (rule follows_beside [OF C _ sc, of "DoReader hs a"])
      fix q zs
      assume l: "late zs q (lr_r lr)" and s: "scan_rel (scanning lr) zs q" and I: "router_inv q"
      have out: "a \<notin> set zs" using late_pc [OF l] free(1) by force
      from late_readLoop [OF l free(2) out] obtain q' where q': "readLoop_step hs a q = Some q'" "late zs q' r'" by blast
      have "readers (lr_r lr) ! a = readers q ! a" by (rule late_sel(5) [OF l out])
      with scan_rel_readLoop [OF s I q'(1)] False free(1) have "scan_rel (scanning lr) zs q'" by auto
      with q' r' show "\<exists>q'. router_step (DoReader hs a) q = Some q' \<and> late zs q' (lr_r lr') \<and> scan_rel (scanning lr) zs q'" by auto
    qed simp
  qed
qed

lemma scanning_point: "lr_mu lr = Some (HCall k) \<Longrightarrow>
    scanning lr = (case op_pc (lr_ops lr ! k) of CloScan todo subs \<Rightarrow> Some (todo, subs) | _ \<Rightarrow> None)"
  by (simp add: scanning_def)

lemma scanning_release [simp]: "scanning (release k pc r lr) = None"
  by simp

text \<open>Subscribe under the lock: it attaches or registers its handler, or fails and changes nothing.\<close>

lemma follows_bind:
  assumes L: "lock_inv lr" and T: "tokens_ok lr" and C: "core m lr q0" and m: "Suc m < 2 ^ 64"
    and st: "call_step res n i k lr = Some lr'" and pc: "op_pc (lr_ops lr ! k) = SubTest d h tok \<or> op_pc (lr_ops lr ! k) = SubDial d h tok"
  shows "follows (Suc m) lr' q0"
proof -
  note at = call_step_at [OF L st]
  from pc have sc: "scanning lr = None" and tok: "tok \<notin> in_use (lr_r lr)"
    using at(1,4) tokens_okD(3) [OF T, of k tok] by (auto simp: scanning_point drawn_by_def)
  note bind = follows_Subscribe [OF C sc _ tok m]
  from pc show ?thesis
  proof
    assume pc: "op_pc (lr_ops lr ! k) = SubTest d h tok"
    show ?thesis
    proof (cases "live_state (lr_r lr) d")
      case (Some a)
      with pc at(1) st have lr': "lr' = release k (SubDone (Inr tok)) (attach tok a h (lr_r lr)) lr" by (simp add: call_step_def Let_def)
      show ?thesis by (rule bind [of _ d h None 0]) (simp_all add: lr' Subscribe_locked_def Some)
    next
      case None
      with pc st at show ?thesis
        by (intro follows_same [OF C]) (auto simp: call_step_def Let_def scanning_def)
    qed
  next
    assume pc: "op_pc (lr_ops lr ! k) = SubDial d h tok"
    show ?thesis
    proof (cases res)
      case None
      with pc at(1) st have lr': "lr' = release k (SubDone (Inr tok)) (register tok d h n (lr_r lr)) lr" by (simp add: call_step_def Let_def)
      show ?thesis by (rule bind [of _ d h None n]) (use at(3) pc in \<open>simp_all add: lr' Subscribe_locked_def\<close>)
    next
      case (Some e)
      with pc st at(1) sc show ?thesis by (intro follows_same [OF C]) (auto simp: call_step_def Let_def)
    qed
  qed
qed

lemma follows_UnsBody:
  assumes L: "lock_inv lr" and C: "core m lr q0"
    and st: "call_step res n i k lr = Some lr'" and pc: "op_pc (lr_ops lr ! k) = UnsBody d tok"
  shows "follows (Suc m) lr' q0"
proof -
  note at = call_step_at [OF L st]
  have sc: "scanning lr = None" using at(4) pc by (simp add: scanning_point)
  obtain s r1 where u: "Unsubscribe_locked d tok (lr_r lr) = (s, r1)" by fastforce
  with pc st at(1) have "router_step (DoUnsubscribe d tok) (lr_r lr) = Some (lr_r lr')" "scanning lr' = None"
    by (auto simp: call_step_def Let_def split: option.splits)
  then show ?thesis by (intro follows_calm [OF C sc, of "DoUnsubscribe d tok"]) simp_all
qed

lemma follows_CloLock:
  assumes L: "lock_inv lr" and C: "core m lr q0"
    and st: "call_step res n i k lr = Some lr'" and pc: "op_pc (lr_ops lr ! k) = CloLock"
  shows "follows (Suc m) lr' q0"
proof -
  note k = call_step_at(1) [OF L st]
  with st pc have mu: "lr_mu lr = None" and lr': "lr' = goto k (CloScan (dests (lr_r lr)) []) (lr\<lparr>lr_mu := Some (HCall k)\<rparr>)"
    by (auto simp: call_step_def Let_def acquire_def split: if_splits)
  from core_calm [OF C] mu obtain k' where "k' \<le> m" "renamed k' (lr_r lr) q0" by auto
  then have "core (Suc m) lr' q0" using k unfolding core_def
    by (intro exI [of _ "lr_r lr"] exI [of _ "[]"] exI [of _ k']) (simp add: lr' scanning_def scan_rel_def)
  then show ?thesis unfolding follows_def by (intro exI [of _ "[]"]) simp
qed

lemma follows_CloScan:
  assumes L: "lock_inv lr" and C: "core m lr q0"
    and st: "call_step res n i k lr = Some lr'" and pc: "op_pc (lr_ops lr ! k) = CloScan todo subs"
  shows "follows (Suc m) lr' q0"
proof -
  note at = call_step_at [OF L st]
  have sc: "scanning lr = Some (todo, subs)" using at(4) pc by (simp add: scanning_point)
  show ?thesis
  proof (cases todo)
    case Nil
    with st pc at(1) sc show ?thesis by (intro follows_clear [OF C, of subs]) (auto simp: call_step_def Let_def)
  next
    case (Cons p ps)
    then obtain e where e: "e \<in> set todo" and lr': "lr' = goto k (CloScan (remove1 e todo)
      (if dead (states (lr_r lr) ! snd e) then subs else subs @ [ds_sub (states (lr_r lr) ! snd e)])) lr"
      using call_step_scan [OF st pc] by blast
    show ?thesis
      by (rule follows_scan [OF C L sc _ e]) (use pc at in \<open>simp_all add: lr' scanning_def\<close>)
  qed
qed

lemma follows_call:
  assumes L: "lock_inv lr" and O: "owed_ok lr" and T: "tokens_ok lr" and C: "core m lr q0"
    and st: "call_step res n i k lr = Some lr'" and m: "Suc m < 2 ^ 64"
  shows "follows (Suc m) lr' q0"
proof -
  note at = call_step_at [OF L st]
  have sub: "follows (Suc m) (goto k pc (lr\<lparr>lr_r := call_sub s (lr_r lr)\<rparr>)) q0"
    if "s \<in># owed (op_pc (lr_ops lr ! k))" "\<not> has_lock (op_pc (lr_ops lr ! k))" for s pc
    by (rule follows_call_sub [OF C owed_mem [OF O at(1) that(1)]]) (use that at(4) in \<open>simp_all add: scanning_other\<close>)
  have stay: "follows (Suc m) (goto k pc lr) q0" if "\<not> has_lock (op_pc (lr_ops lr ! k))" for pc
    by (rule follows_same [OF C]) (use that at(4) scanning_other [of lr k pc "lr_r lr"] in simp_all)
  have get: "follows (Suc m) lr' q0" if "acquire k pc lr = Some lr'" "\<And>todo subs. pc \<noteq> CloScan todo subs" for pc
    using that at(1) by (intro follows_same [OF C]) (auto simp: acquire_def scanning_def split: if_splits cpc.splits)
  note step = st [unfolded call_step_def Let_def if_P [OF at(1)]]
  show ?thesis
  proof (cases "op_pc (lr_ops lr ! k)")
    case (SubLock d h tok)
    with step get [of "SubTest d h tok"] show ?thesis by simp
  next
    case (UnsLock d tok)
    with step get [of "UnsBody d tok"] show ?thesis by simp
  next
    case (CloCall subs)
    with step sub stay show ?thesis by (cases subs) auto
  qed (use step sub stay follows_bind [OF L T C m st] follows_UnsBody [OF L C st] follows_CloLock [OF L C st]
      follows_CloScan [OF L C st] in \<open>auto split: if_splits\<close>)
qed

lemma follows_env:
  assumes "core m lr q0" "router_step e (lr_r lr) = Some r'" "lr' = lr\<lparr>lr_r := r'\<rparr>"
    "(\<exists>s ms. e = DoDeliver s ms) \<or> (\<exists>s. e = DoPeerClose s) \<or> e = DoConsume"
  shows "follows (Suc m) lr' q0"
proof (rule follows_beside [OF assms(1), of e])
  show "scanning lr' = scanning lr" by (rule scanning_cong) (simp_all add: assms(3))
  show "\<not> is_subscribe e" using assms(4) by auto
  fix q zs
  assume l: "late zs q (lr_r lr)" and s: "scan_rel (scanning lr) zs q"
  from late_env [OF l assms(2,4)] obtain q' where q': "router_step e q = Some q'" "late zs q' r'" by blast
  have "dests q' = dests q" "states q' = states q"
    using q'(1) assms(4) by (auto split: if_splits send_result.splits recv_result.splits)
  with scan_rel_cong s have "scan_rel (scanning lr) zs q'" by metis
  with q' assms(3) show "\<exists>q'. router_step e q = Some q' \<and> late zs q' (lr_r lr') \<and> scan_rel (scanning lr) zs q'" by auto
qed

lemma follows_start:
  assumes "lock_inv lr" "core m lr q0" "begin_call fr pc (lr\<lparr>lr_r := (lr_r lr)\<lparr>nextToken := t\<rparr>\<rparr>) = Some lr'"
  shows "follows (Suc m) lr' q0"
proof (rule follows_stutter [OF assms(2)])
  show "lr_r lr' = (lr_r lr)\<lparr>nextToken := t\<rparr>" using assms(3) by (auto simp: begin_call_def split: if_splits)
  have "k < length (lr_ops lr)" if "lr_mu lr = Some (HCall k)" for k using lock_invD(2) [OF assms(1), of k] that by simp
  then show "scanning lr' = scanning lr"
    using assms(3) by (auto simp: begin_call_def scanning_def nth_append split: if_splits option.splits holder.splits)
qed

lemma follows_step:
  assumes L: "lock_inv lr" "owed_ok lr" "tokens_ok lr" and C: "core m lr q0"
    and st: "lock_step act lr = Some lr'" and m: "Suc m < 2 ^ 64"
  shows "follows (Suc m) lr' q0"
proof (cases act)
  case (LSubscribe fr d h)
  with st follows_start [OF L(1) C] show ?thesis by (auto simp: Let_def)
next
  case (LUnsubscribe fr d tok)
  with st follows_start [OF L(1) C, of fr "UnsLock d tok" "nextToken (lr_r lr)"] show ?thesis by simp
next
  case (LClose fr)
  with st follows_start [OF L(1) C, of fr CloLock "nextToken (lr_r lr)"] show ?thesis by simp
next
  case (LCall res n i k)
  with st follows_call [OF L C _ m] show ?thesis by simp
next
  case (LReader hs a)
  with st follows_reader [OF L(1) C] show ?thesis by simp
next
  case (LReturn a)
  with st have "lr_mu lr' = lr_mu lr" "lr_ops lr' = lr_ops lr" "lr_r lr' = lr_r lr" by (auto split: if_splits)
  then show ?thesis by (intro follows_same [OF C] scanning_cong)
next
  case (LDeliver s ms)
  with st follows_env [OF C, of "DoDeliver s ms"] show ?thesis by auto
next
  case (LPeerClose s)
  with st follows_env [OF C, of "DoPeerClose s"] show ?thesis by auto
next
  case LConsume
  with st follows_env [OF C, of DoConsume] show ?thesis by auto
qed

section \<open>Every run is a run of the machine of critical sections\<close>

lemma core_start: "core 0 New_lrouter New_router"
  using calm_core [of 0 New_lrouter New_router 0] renamed_New by (simp add: New_lrouter_def)

lemma locks_run:
  assumes "run_actions lock_step acts New_lrouter = Some lr" "length acts < 2 ^ 64 - 1"
  shows "owed_ok lr \<and> tokens_ok lr \<and> unat (nextToken (lr_r lr)) \<le> length acts
    \<and> (\<exists>as q. run_actions router_step as New_router = Some q \<and> core (length acts) lr q)"
  using assms
proof (induction acts arbitrary: lr rule: rev_induct)
  case Nil
  then have lr: "lr = New_lrouter" by simp
  have "owed_ok lr" "tokens_ok lr" "unat (nextToken (lr_r lr)) = 0"
    by (simp_all add: lr owed_ok_def tokens_ok_def drawn_by_def in_use_def New_lrouter_def New_router_def NewWithErrorChan_def)
  with core_start show ?case unfolding lr by (auto intro!: exI [of _ "[]"])
next
  case (snoc act acts)
  then obtain lr1 where r1: "run_actions lock_step acts New_lrouter = Some lr1" "lock_step act lr1 = Some lr"
    by (auto simp: run_actions_append split: Option.bind_splits)
  from snoc.prems(2) have n: "length acts < 2 ^ 64 - 1" "Suc (length acts) < 2 ^ 64" by simp_all
  from snoc.IH [OF r1(1) n(1)] obtain as q where ih: "owed_ok lr1" "tokens_ok lr1" "unat (nextToken (lr_r lr1)) \<le> length acts"
    "run_actions router_step as New_router = Some q" "core (length acts) lr1 q" by blast
  note L = lk.inv_run_start [OF r1(1)]
  from follows_step [OF L ih(1,2,5) r1(2) n(2)] obtain as' q' where
    "run_actions router_step as' q = Some q'" "core (Suc (length acts)) lr q'" by (auto simp: follows_def)
  moreover from this(1) ih(4) have "run_actions router_step (as @ as') New_router = Some q'" by (simp add: run_actions_append)
  moreover have "tokens_ok lr \<and> unat (nextToken (lr_r lr)) \<le> Suc (unat (nextToken (lr_r lr1)))"
    using tokens_lock_step [OF L ih(2) r1(2)] ih(3) n(1) by simp
  ultimately show ?case using owed_lock_step [OF L ih(1) r1(2)] ih(3) by auto
qed

text \<open>
  C4: Whatever the interleaving of the goroutines at the mutex, the state of the router is one that the
  machine of \<open>Router\<close> reaches, in which every critical section is one step: up to the numbers of the tokens,
  and, while a Close is looking through the registry, up to the \<open>done\<close> of readers that are late. The bound on
  the run is the range of the token counter.
\<close>

theorem locks_refine:
  assumes "run_actions lock_step acts New_lrouter = Some lr" "length acts < 2 ^ 64 - 1"
  shows "\<exists>as q r k zs. run_actions router_step as New_router = Some q \<and> renamed k r q \<and> late zs r (lr_r lr)
    \<and> (scanning lr = None \<longrightarrow> zs = [])"
proof -
  from locks_run [OF assms] obtain as q where "run_actions router_step as New_router = Some q" "core (length acts) lr q" by blast
  then show ?thesis by (fastforce simp: core_def scan_rel_def)
qed

theorem locks_refine_witness:
  "\<exists>as q r k zs. run_actions router_step as New_router = Some q \<and> renamed k r q \<and> late zs r (lr_r in_scan)
     \<and> (scanning in_scan = None \<longrightarrow> zs = [])"
  by (rule locks_refine [OF run_to_scan_end]) (simp add: run_to_scan_def run_to_handler_def)

end
