(* ===== verification/LockProps.thy ===== *)
theory LockProps
  imports LockRefine
begin

text \<open>
  What the mutex and the wait group of the router mean for its users: where the mutex is held, that it comes
  free again, that calls made by a handler return, and the one that does not, Close; when a Close that waits for
  the readers panics, and when it does not.
\<close>

section \<open>Calls over time\<close>

fun is_close :: "'h cpc \<Rightarrow> bool" where
  "is_close CloLock = True"
| "is_close (CloScan todo subs) = True"
| "is_close (CloCall subs) = True"
| "is_close CloWait = True"
| "is_close CloBlock = True"
| "is_close CloWoken = True"
| "is_close CloPanic = True"
| "is_close CloDone = True"
| "is_close _ = False"

fun before_lock :: "'h cpc \<Rightarrow> bool" where
  "before_lock (SubLock d h tok) = True"
| "before_lock (UnsLock d tok) = True"
| "before_lock CloLock = True"
| "before_lock _ = False"

text \<open>A call stays the call of its goroutine and never goes back before the lock.\<close>

definition goes_on :: "nat \<Rightarrow> 'h lrouter \<Rightarrow> 'h lrouter \<Rightarrow> bool" where
  "goes_on k lr lr' \<longleftrightarrow> k < length (lr_ops lr') \<and> op_from (lr_ops lr' ! k) = op_from (lr_ops lr ! k)
     \<and> is_close (op_pc (lr_ops lr' ! k)) = is_close (op_pc (lr_ops lr ! k))
     \<and> (before_lock (op_pc (lr_ops lr' ! k)) \<longrightarrow> before_lock (op_pc (lr_ops lr ! k)))"

lemma goes_on_refl: "k < length (lr_ops lr) \<Longrightarrow> goes_on k lr lr"
  by (simp add: goes_on_def)

lemma goes_on_trans: "goes_on k lr lr1 \<Longrightarrow> goes_on k lr1 lr2 \<Longrightarrow> goes_on k lr lr2"
  by (auto simp: goes_on_def)

lemma goes_on_same: "lr_ops lr' = lr_ops lr \<Longrightarrow> k < length (lr_ops lr) \<Longrightarrow> goes_on k lr lr'"
  by (simp add: goes_on_def)

lemma goes_on_wakes:
  assumes "lr_ops lr' = Done_wakes pc r (lr_ops lr)" "k < length (lr_ops lr)"
  shows "goes_on k lr lr'"
proof -
  have "is_close (op_pc (wake c)) = is_close (op_pc c)" "before_lock (op_pc (wake c)) = before_lock (op_pc c)" for c :: "'a opcall"
    by (cases "op_pc c"; simp add: wake_def)+
  with assms show ?thesis by (simp add: goes_on_def Done_wakes_nth)
qed

lemma goes_on_goto:
  assumes "lr_ops lr' = lr_ops (goto j pc lr)" "k < length (lr_ops lr)"
    "is_close pc = is_close (op_pc (lr_ops lr ! j))" "\<not> before_lock pc"
  shows "goes_on k lr lr'"
  using assms by (cases "j = k") (simp_all add: goes_on_def)

lemma goes_on_call:
  assumes "call_step res n i j lr = Some lr'" "k < length (lr_ops lr)"
  shows "goes_on k lr lr'"
proof -
  note j = call_step_point [OF assms(1), THEN conjunct1]
  have "\<exists>pc. lr_ops lr' = lr_ops (goto j pc lr) \<and> is_close pc = is_close (op_pc (lr_ops lr ! j)) \<and> \<not> before_lock pc"
    using assms(1) j
    by (auto simp: call_step_def acquire_def Let_def split: cpc.splits list.splits option.splits if_splits prod.splits
      intro!: exI)
  then show ?thesis using goes_on_goto [OF _ assms(2)] by blast
qed

lemma goes_on_step:
  assumes "lock_step act lr = Some lr'" "k < length (lr_ops lr)"
  shows "goes_on k lr lr'"
proof (cases act)
  case (LCall res n i j)
  with assms goes_on_call show ?thesis by auto
next
  case (LReader hs a)
  with assms(1) have "reader_step hs a lr = Some lr'" by simp
  then show ?thesis using assms(2) by (cases rule: reader_step_cases) (auto intro: goes_on_same goes_on_wakes)
qed (use assms in \<open>auto simp: begin_call_def Let_def goes_on_def nth_append split: if_splits\<close>)

lemma goes_on_run:
  assumes "run_actions lock_step acts lr = Some lr'" "k < length (lr_ops lr)"
  shows "goes_on k lr lr'"
  using assms
proof (induction acts arbitrary: lr)
  case (Cons act acts)
  then obtain lr1 where r1: "lock_step act lr = Some lr1" "run_actions lock_step acts lr1 = Some lr'"
    by (auto split: Option.bind_splits)
  note g = goes_on_step [OF r1(1) Cons.prems(2)]
  then have "k < length (lr_ops lr1)" by (simp add: goes_on_def)
  from goes_on_trans [OF g Cons.IH [OF r1(2) this]] show ?case .
qed (simp add: goes_on_refl)

section \<open>Close from within a handler\<close>

text \<open>
  C35: A Close that a handler calls, a Disconnect of the bus included, never returns: it waits for the reader
  that is running the handler. The reader is stuck in it, the wait group never comes down to zero, and whatever
  else happens changes nothing about it.
\<close>

theorem close_in_handler_hangs:
  assumes "run_actions lock_step acts New_lrouter = Some lr"
    and "k < length (lr_ops lr)" "is_close (op_pc (lr_ops lr ! k))" "op_from (lr_ops lr ! k) = Some a"
    and "run_actions lock_step later lr = Some lr'"
  shows "op_pc (lr_ops lr' ! k) \<noteq> CloDone \<and> a \<in> set (lr_run lr') \<and> wg (lr_r lr') \<noteq> 0"
proof -
  from assms(1,5) have "run_actions lock_step (acts @ later) New_lrouter = Some lr'" by (simp add: run_actions_append)
  then have L: "lock_inv lr'" by (rule lk.inv_run_start)
  from goes_on_run [OF assms(5,2)] assms(3,4) have g: "k < length (lr_ops lr')" "op_from (lr_ops lr' ! k) = Some a"
    "is_close (op_pc (lr_ops lr' ! k))" by (simp_all add: goes_on_def)
  from lock_invD(6) [OF L nth_mem [OF g(1)]] g(2) have p: "\<not> past_wait (op_pc (lr_ops lr' ! k))"
    "returned (op_pc (lr_ops lr' ! k)) \<or> a \<in> set (lr_run lr')" by (simp_all add: handler_ok_def)
  moreover from p(1) g(3) have "\<not> returned (op_pc (lr_ops lr' ! k))" by (cases "op_pc (lr_ops lr' ! k)") simp_all
  moreover from p(1) have "op_pc (lr_ops lr' ! k) \<noteq> CloDone" by auto
  ultimately show ?thesis using wg_running [OF L] by (metis empty_iff list.set(1))
qed

theorem close_in_handler_hangs_witness:
  "\<exists>lr'. run_actions lock_step [LCall None 0 0 2, LCall None 0 0 2] in_scan = Some lr'
     \<and> op_pc (lr_ops lr' ! 2) \<noteq> CloDone \<and> 1 \<in> set (lr_run lr') \<and> wg (lr_r lr') \<noteq> 0"
proof -
  have "\<exists>lr'. run_actions lock_step [LCall None 0 0 2, LCall None 0 0 2] in_scan = Some lr'"
    by (simp add: in_scan_def in_handler_def lock_eval)
  then obtain lr' where s: "run_actions lock_step [LCall None 0 0 2, LCall None 0 0 2] in_scan = Some lr'" by blast
  have c: "2 < length (lr_ops in_scan)" "is_close (op_pc (lr_ops in_scan ! 2))" "op_from (lr_ops in_scan ! 2) = Some 1"
    by (simp_all add: in_scan_def in_handler_def)
  from close_in_handler_hangs [OF run_to_scan_end c s] s show ?thesis by blast
qed

section \<open>Close beside a Subscribe\<close>

text \<open>A Subscribe that has not returned.\<close>

fun subscribing :: "'h cpc \<Rightarrow> bool" where
  "subscribing (SubLock d h tok) = True"
| "subscribing (SubTest d h tok) = True"
| "subscribing (SubDial d h tok) = True"
| "subscribing _ = False"

text \<open>No Subscribe is under way, and every Wait that has been woken up finds the wait group at zero.\<close>

definition wait_calm :: "'h lrouter \<Rightarrow> bool" where
  "wait_calm lr \<longleftrightarrow> (\<forall>c \<in> set (lr_ops lr). \<not> subscribing (op_pc c) \<and> op_pc c \<noteq> CloPanic
     \<and> (op_pc c = CloWoken \<longrightarrow> wg (lr_r lr) = 0))"

lemma wait_calm_goto:
  assumes "wait_calm lr" "lr_ops lr' = lr_ops (goto k pc lr)" "wg (lr_r lr') = wg (lr_r lr)"
    "\<not> subscribing pc" "pc \<noteq> CloPanic" "pc \<noteq> CloWoken"
  shows "wait_calm lr'"
  using ball_update [OF assms(1) [unfolded wait_calm_def], of "(lr_ops lr ! k)\<lparr>op_pc := pc\<rparr>" k] assms(2-)
  by (simp add: wait_calm_def)

lemma wait_calm_call:
  assumes "wait_calm lr" "call_step res n i k lr = Some lr'"
  shows "wait_calm lr'"
proof -
  note k = call_step_point [OF assms(2), THEN conjunct1]
  with assms(1) have at: "\<not> subscribing (op_pc (lr_ops lr ! k))" "op_pc (lr_ops lr ! k) = CloWoken \<longrightarrow> wg (lr_r lr) = 0"
    by (auto simp: wait_calm_def)
  have "wg (snd (Unsubscribe_locked d tok r)) = wg r" for d tok and r :: "'a router"
    by (simp add: Unsubscribe_locked_def Let_def split: option.split)
  then have uns: "Unsubscribe_locked d tok r = (s, r1) \<Longrightarrow> wg r1 = wg r" for d tok s and r r1 :: "'a router"
    by (metis snd_conv)
  have "\<exists>pc. lr_ops lr' = lr_ops (goto k pc lr) \<and> wg (lr_r lr') = wg (lr_r lr) \<and> \<not> subscribing pc \<and> pc \<noteq> CloPanic \<and> pc \<noteq> CloWoken"
    using assms(2) k at
    by (auto simp: call_step_def acquire_def clear_dests_def call_sub_def Let_def uns
      split: cpc.splits list.splits option.splits if_splits prod.splits intro!: exI)
  then show ?thesis using wait_calm_goto [OF assms(1)] by blast
qed

lemma readLoop_wg: "readLoop_step hs a r = Some r' \<Longrightarrow> wg r' \<le> wg r"
  by (auto simp: readLoop_step_def Let_def set_pc_def
    split: if_splits rpc.splits option.splits list.splits recv_result.splits send_result.splits)

lemma wait_calm_reader:
  assumes "lock_inv lr" "wait_calm lr" "reader_step hs a lr = Some lr'"
  shows "wait_calm lr'"
  using assms(3)
proof (cases rule: reader_step_cases)
  case (free r')
  have "subscribing (op_pc (wake c)) = subscribing (op_pc c)" "op_pc (wake c) = CloPanic \<longleftrightarrow> op_pc c = CloPanic" for c :: "'a opcall"
    by (cases "op_pc c"; simp add: wake_def)+
  moreover have "wg r' \<le> wg (lr_r lr)" using readLoop_wg [OF free(2)] .
  ultimately show ?thesis using assms(2) free(3) by (auto simp: wait_calm_def Done_wakes_def)
next
  case (work r')
  with assms(2) readLoop_wg [OF work(3)] show ?thesis by (auto simp: wait_calm_def)
qed (use assms(2) in \<open>simp add: wait_calm_def\<close>)

fun is_subscribe :: "'h laction \<Rightarrow> bool" where
  "is_subscribe (LSubscribe fr d h) = True"
| "is_subscribe _ = False"

lemma wait_calm_step:
  assumes "lock_inv lr" "wait_calm lr" "lock_step act lr = Some lr'" "\<not> is_subscribe act"
  shows "wait_calm lr'"
proof (cases act)
  case (LCall res n i k)
  with assms wait_calm_call show ?thesis by auto
next
  case (LReader hs a)
  with assms wait_calm_reader show ?thesis by auto
qed (use assms in \<open>auto simp: wait_calm_def begin_call_def split: if_splits send_result.splits recv_result.splits\<close>)

lemma wait_calm_run:
  assumes "lock_inv lr" "wait_calm lr" "run_actions lock_step later lr = Some lr'" "list_all (\<lambda>act. \<not> is_subscribe act) later"
  shows "wait_calm lr'"
  using assms
proof (induction later arbitrary: lr)
  case (Cons act later)
  then obtain lr1 where r1: "lock_step act lr = Some lr1" "run_actions lock_step later lr1 = Some lr'"
    by (auto split: Option.bind_splits)
  have "wait_calm lr1" by (rule wait_calm_step [OF Cons.prems(1,2) r1(1)]) (use Cons.prems(4) in simp)
  from Cons.IH [OF inv_lock_step [OF Cons.prems(1) r1(1)] this r1(2)] Cons.prems(4) show ?case by simp
qed simp



text \<open>
  C36: A Subscribe beside a Close can make the Close panic. Close has unsubscribed everything and the last
  reader has woken it up; before it runs again, the Subscribe registers a new destination and adds its reader to
  the wait group. The woken Wait finds the group in use again, and the goroutine in Close panics.
\<close>

theorem close_panics:
  assumes "run_actions lock_step acts New_lrouter = Some lr"
    and "j < length (lr_ops lr)" "op_pc (lr_ops lr ! j) = SubDial d h tok"
    and "k < length (lr_ops lr)" "op_pc (lr_ops lr ! k) = CloWoken"
  shows "\<exists>lr'. run_actions lock_step [LCall None n 0 j, LCall None 0 0 k] lr = Some lr'
    \<and> op_pc (lr_ops lr' ! j) = SubDone (Inr tok) \<and> op_pc (lr_ops lr' ! k) = CloPanic
    \<and> map_of (dests (lr_r lr')) d = Some (length (states (lr_r lr)))"
proof -
  let ?lr = "release j (SubDone (Inr tok)) (register tok d h n (lr_r lr)) lr"
  have jk: "j \<noteq> k" using assms(3,5) by auto
  have "call_step None n 0 j lr = Some ?lr" using assms(2,3) by (simp add: call_step_def Let_def)
  moreover have "call_step None 0 0 k ?lr = Some (goto k CloPanic ?lr)"
    using assms(4,5) jk by (simp add: call_step_def register_def Let_def)
  moreover have "map_of (dests (register tok d h n (lr_r lr))) d = Some (length (states (lr_r lr)))"
    by (simp add: register_def Let_def update_conv')
  ultimately show ?thesis using assms(2,4) jk by simp
qed

text \<open>Such a state: one destination, its Close, its reader gone, and a Subscribe for another destination.\<close>

definition run_to_woken :: "nat laction list" where
  "run_to_woken =
     [LSubscribe None ''a'' 7, LCall None 2 0 0, LCall None 2 0 0, LCall None 2 0 0,
      LClose None, LCall None 0 0 1, LCall None 0 0 1, LCall None 0 0 1, LCall None 0 0 1, LCall None 0 0 1, LCall None 0 0 1,
      LPeerClose 0, LReader [] 0, LReader [] 0, LReader [] 0, LReader [] 0, LReader [] 0,
      LSubscribe None ''b'' 8, LCall None 2 0 2, LCall None 2 0 2, LReader [] 0]"

theorem close_panics_witness:
  "\<exists>lr lr'. run_actions lock_step run_to_woken New_lrouter = Some lr
     \<and> run_actions lock_step [LCall None 2 0 2, LCall None 0 0 1] lr = Some lr'
     \<and> op_pc (lr_ops lr' ! 2) = SubDone (Inr 2) \<and> op_pc (lr_ops lr' ! 1) = CloPanic"
proof -
  have "\<exists>lr. run_actions lock_step run_to_woken New_lrouter = Some lr \<and> 2 < length (lr_ops lr)
    \<and> op_pc (lr_ops lr ! 2) = SubDial ''b'' 8 2 \<and> op_pc (lr_ops lr ! 1) = CloWoken"
    by (simp add: run_to_woken_def lock_eval)
  then obtain lr where s: "run_actions lock_step run_to_woken New_lrouter = Some lr" and
    c: "2 < length (lr_ops lr)" "op_pc (lr_ops lr ! 2) = SubDial ''b'' 8 2" "op_pc (lr_ops lr ! 1) = CloWoken" by blast
  from close_panics [OF s c(1,2) _ c(3), of 2] c(1) s show ?thesis by fastforce
qed

section \<open>The mutex comes free\<close>

fun by_holder :: "holder \<Rightarrow> 'h laction \<Rightarrow> bool" where
  "by_holder (HCall k) (LCall res n i j) \<longleftrightarrow> j = k"
| "by_holder (HRead a) (LReader hs b) \<longleftrightarrow> b = a"
| "by_holder _ _ \<longleftrightarrow> False"

text \<open>A run of the holder alone to its release: nobody else moves, no handler returns.\<close>

definition frees :: "holder \<Rightarrow> 'h laction list \<Rightarrow> 'h lrouter \<Rightarrow> 'h lrouter \<Rightarrow> bool" where
  "frees w as lr lr' \<longleftrightarrow> run_actions lock_step as lr = Some lr' \<and> list_all (by_holder w) as
     \<and> lr_mu lr' = None \<and> lr_run lr' = lr_run lr \<and> length (lr_ops lr') = length (lr_ops lr)
     \<and> (\<forall>j. w \<noteq> HCall j \<longrightarrow> lr_ops lr' ! j = lr_ops lr ! j)"

lemma frees_last:
  assumes "call_step None 0 0 k lr = Some (release k pc r lr)"
  shows "frees (HCall k) [LCall None 0 0 k] lr (release k pc r lr)"
  using assms by (simp add: frees_def)

lemma frees_Cons:
  assumes "call_step res n i k lr = Some (goto k pc lr)" "frees (HCall k) as (goto k pc lr) lr'"
  shows "frees (HCall k) (LCall res n i k # as) lr lr'"
  using assms by (auto simp: frees_def)

lemma scan_frees:
  assumes "k < length (lr_ops lr)" "op_pc (lr_ops lr ! k) = CloScan todo subs"
  shows "\<exists>as lr'. frees (HCall k) as lr lr' \<and> length as = length todo + 1"
  using assms
proof (induction todo arbitrary: lr subs)
  case Nil
  then have "call_step None 0 0 k lr = Some (release k (CloCall subs) (clear_dests subs (lr_r lr)) lr)"
    by (simp add: call_step_def Let_def)
  from frees_last [OF this] show ?case by (intro exI [of _ "[LCall None 0 0 k]"] exI) simp
next
  case (Cons p ps)
  let ?lr = "goto k (CloScan ps (if dead (states (lr_r lr) ! snd p) then subs else subs @ [ds_sub (states (lr_r lr) ! snd p)])) lr"
  have "call_step None 0 0 k lr = Some ?lr" using Cons.prems by (simp add: call_step_def Let_def)
  moreover from Cons.IH [of ?lr] Cons.prems(1) obtain as lr' where "frees (HCall k) as ?lr lr'" "length as = length ps + 1" by auto
  ultimately show ?case using frees_Cons by (intro exI [of _ "LCall None 0 0 k # as"] exI [of _ lr']) simp
qed

lemma call_frees:
  assumes "k < length (lr_ops lr)" "has_lock (op_pc (lr_ops lr ! k))" "point_ok (lr_r lr) (op_pc (lr_ops lr ! k))"
  shows "\<exists>as lr'. frees (HCall k) as lr lr' \<and> length as \<le> length (dests (lr_r lr)) + 2"
proof -
  have dial: "\<exists>as lr'. frees (HCall k) as lr lr' \<and> length as = 1"
    if "k < length (lr_ops lr)" "op_pc (lr_ops lr ! k) = SubDial d h tok" for lr :: "'a lrouter" and d h tok
  proof -
    have "call_step None 0 0 k lr = Some (release k (SubDone (Inr tok)) (register tok d h 0 (lr_r lr)) lr)"
      using that by (simp add: call_step_def Let_def)
    from frees_last [OF this] show ?thesis by (intro exI [of _ "[LCall None 0 0 k]"] exI) simp
  qed
  show ?thesis
  proof (cases "op_pc (lr_ops lr ! k)")
    case (SubTest d h tok)
    show ?thesis
    proof (cases "live_state (lr_r lr) d")
      case None
      let ?lr = "goto k (SubDial d h tok) lr"
      have "call_step None 0 0 k lr = Some ?lr" using assms(1) SubTest None by (simp add: call_step_def Let_def)
      moreover from dial [of ?lr d h tok] assms(1) obtain as lr' where "frees (HCall k) as ?lr lr'" "length as = 1" by auto
      ultimately show ?thesis using frees_Cons by (intro exI [of _ "LCall None 0 0 k # as"] exI [of _ lr']) simp
    next
      case (Some a)
      then have "call_step None 0 0 k lr = Some (release k (SubDone (Inr tok)) (attach tok a h (lr_r lr)) lr)"
        using assms(1) SubTest by (simp add: call_step_def Let_def)
      from frees_last [OF this] show ?thesis by (intro exI [of _ "[LCall None 0 0 k]"] exI) simp
    qed
  next
    case (SubDial d h tok)
    from dial [OF assms(1) this] show ?thesis by fastforce
  next
    case (UnsBody d tok)
    obtain s r1 where "Unsubscribe_locked d tok (lr_r lr) = (s, r1)" by fastforce
    with UnsBody assms(1) have "\<exists>pc r. call_step None 0 0 k lr = Some (release k pc r lr)"
      by (cases s) (auto simp: call_step_def Let_def)
    then obtain pc r where "call_step None 0 0 k lr = Some (release k pc r lr)" by blast
    from frees_last [OF this] show ?thesis by (intro exI [of _ "[LCall None 0 0 k]"] exI) simp
  next
    case (CloScan todo subs)
    with assms(3) have "card (set todo) \<le> card (set (dests (lr_r lr)))" "distinct todo" by (auto intro: card_mono)
    then have "length todo \<le> length (dests (lr_r lr))" by (metis card_length distinct_card le_trans)
    with scan_frees [OF assms(1) CloScan] show ?thesis by fastforce
  qed (use assms(2) in simp_all)
qed

lemma reader_frees:
  assumes "lock_inv lr" "lr_mu lr = Some (HRead a)"
  shows "\<exists>as lr'. frees (HRead a) as lr lr' \<and> length as = 1"
proof -
  note I = lock_invD [OF assms(1)]
  from I(3) [OF assms(2)] have a: "a < length (readers (lr_r lr))" "needs_lock (pc_of (lr_r lr) a)" by simp_all
  have run: "a \<notin> set (lr_run lr)" using I(4) [of a] a(2) by (auto simp: run_ok_def)
  let ?hs = "map snd (ds_handlers (states (lr_r lr) ! a))"
  have ne: "\<not> enters_handler (pc_of (lr_r lr) a)" "pc_of (lr_r lr) a \<noteq> ReadFin" using a(2) by (cases "pc_of (lr_r lr) a"; simp)+
  obtain r' where r': "readLoop_step ?hs a (lr_r lr) = Some r'"
    using a by (cases "pc_of (lr_r lr) a") (simp_all add: readLoop_step_def Let_def)
  have "lock_step (LReader ?hs a) lr = Some (lr\<lparr>lr_r := r', lr_mu := None\<rparr>)"
    using a run ne r' assms(2) by (simp add: reader_step_def Done_wakes_def Let_def)
  then show ?thesis by (intro exI [of _ "[LReader ?hs a]"] exI [of _ "lr\<lparr>lr_r := r', lr_mu := None\<rparr>"]) (simp add: frees_def)
qed

lemma holder_frees:
  assumes "lock_inv lr" "lr_mu lr = Some w"
  shows "\<exists>as lr'. frees w as lr lr' \<and> length as \<le> length (dests (lr_r lr)) + 2"
proof (cases w)
  case (HCall k)
  with lock_invD(2) [OF assms(1), of k] assms(2) have "k < length (lr_ops lr)" "has_lock (op_pc (lr_ops lr ! k))" by simp_all
  with call_frees lock_invD(5) [OF assms(1)] HCall show ?thesis by (metis nth_mem)
next
  case (HRead a)
  with reader_frees [OF assms(1)] assms(2) show ?thesis by fastforce
qed

text \<open>
  Whoever holds the mutex of the router is at a point of a critical section, and it is only one. A reader that
  is running a handler, a call that is in the transport's Unsubscribe and a Close that waits for the readers do
  not hold it.
\<close>

lemma lock_scope:
  assumes "run_actions lock_step acts New_lrouter = Some lr"
  shows "(\<forall>k. lr_mu lr = Some (HCall k) \<longleftrightarrow> k < length (lr_ops lr) \<and> has_lock (op_pc (lr_ops lr ! k)))
    \<and> (\<forall>a. lr_mu lr = Some (HRead a) \<longrightarrow> needs_lock (pc_of (lr_r lr) a) \<and> a \<notin> set (lr_run lr))
    \<and> (\<forall>k d s subs. k < length (lr_ops lr) \<and> op_pc (lr_ops lr ! k) \<in> {UnsCall d s, CloCall subs, CloWait} \<longrightarrow> lr_mu lr \<noteq> Some (HCall k))"
proof -
  note I = lock_invD [OF lk.inv_run_start [OF assms]]
  have "a \<notin> set (lr_run lr)" if "needs_lock (pc_of (lr_r lr) a)" for a
    using I(4) [of a] that by (auto simp: run_ok_def)
  with I(2,3) show ?thesis by auto
qed

text \<open>
  The mutex comes free by the steps of its holder alone, of which there are at most as many as there are
  registered destinations, and two: none of them waits for another goroutine or for a handler to return. The
  transport's Subscribe, which is one of them, has to return.
\<close>

lemma lock_released:
  assumes "run_actions lock_step acts New_lrouter = Some lr" "lr_mu lr = Some w"
  shows "\<exists>as lr'. run_actions lock_step as lr = Some lr' \<and> lr_mu lr' = None \<and> lr_run lr' = lr_run lr
    \<and> list_all (by_holder w) as \<and> length as \<le> length (dests (lr_r lr)) + 2"
  using holder_frees [OF lk.inv_run_start [OF assms(1)] assms(2)] by (auto simp: frees_def)

text \<open>From a state in which the mutex is free a call gets through.\<close>

lemma free_returns:
  assumes L: "lock_inv lr" and k: "k < length (lr_ops lr)" and c: "\<not> is_close (op_pc (lr_ops lr ! k))"
    and b: "\<not> before_lock (op_pc (lr_ops lr ! k))" and mu: "lr_mu lr = None"
  shows "\<exists>as lr'. run_actions lock_step as lr = Some lr' \<and> returned (op_pc (lr_ops lr' ! k)) \<and> lr_run lr' = lr_run lr"
proof (cases "op_pc (lr_ops lr ! k)")
  case (UnsCall d s)
  let ?lr = "goto k (UnsDone None) (lr\<lparr>lr_r := call_sub s (lr_r lr)\<rparr>)"
  have "lock_step (LCall None 0 0 k) lr = Some ?lr"
    using k UnsCall by (simp add: call_step_def Let_def Unsubscribe_result_def)
  then show ?thesis using k by (intro exI [of _ "[LCall None 0 0 k]"] exI [of _ ?lr]) simp
next
  case (SubDone v)
  then show ?thesis by (intro exI [of _ "[]"] exI [of _ lr]) simp
next
  case (UnsDone v)
  then show ?thesis by (intro exI [of _ "[]"] exI [of _ lr]) simp
qed (use c b lock_invD(2) [OF L, of k] k mu in simp_all)

lemma frees_inv:
  assumes "lock_inv lr" "frees w as lr lr'"
  shows "lock_inv lr'" "run_actions lock_step as lr = Some lr'" "lr_mu lr' = None" "lr_run lr' = lr_run lr"
  using assms lk.inv_run [OF assms(1)] by (auto simp: frees_def)

lemma call_returns:
  assumes L: "lock_inv lr" and k: "k < length (lr_ops lr)" and c: "\<not> is_close (op_pc (lr_ops lr ! k))" and mu: "lr_mu lr = None"
  shows "\<exists>as lr'. run_actions lock_step as lr = Some lr' \<and> returned (op_pc (lr_ops lr' ! k)) \<and> lr_run lr' = lr_run lr"
proof (cases "before_lock (op_pc (lr_ops lr ! k))")
  case False
  from free_returns [OF L k c False mu] show ?thesis .
next
  case True
  then obtain pc where pc: "call_step None 0 0 k lr = Some (goto k pc (lr\<lparr>lr_mu := Some (HCall k)\<rparr>))" "\<not> before_lock pc" "\<not> is_close pc"
    using k c mu by (cases "op_pc (lr_ops lr ! k)") (simp_all add: call_step_def acquire_def Let_def)
  define lr1 where "lr1 = goto k pc (lr\<lparr>lr_mu := Some (HCall k)\<rparr>)"
  have s1: "lock_step (LCall None 0 0 k) lr = Some lr1" using pc(1) by (simp add: lr1_def)
  have L1: "lock_inv lr1" by (rule inv_lock_step [OF L s1])
  have one: "k < length (lr_ops lr1)" "\<not> before_lock (op_pc (lr_ops lr1 ! k))" "\<not> is_close (op_pc (lr_ops lr1 ! k))"
    "lr_run lr1 = lr_run lr" using k pc(2,3) by (simp_all add: lr1_def)
  have "lr_mu lr1 = Some (HCall k)" by (simp add: lr1_def)
  from holder_frees [OF L1 this] obtain bs lr2 where "frees (HCall k) bs lr1 lr2" by blast
  note two = frees_inv [OF L1 this]
  from goes_on_run [OF two(2) one(1)] one(2,3) have g: "k < length (lr_ops lr2)" "\<not> is_close (op_pc (lr_ops lr2 ! k))"
    "\<not> before_lock (op_pc (lr_ops lr2 ! k))" by (auto simp: goes_on_def)
  from free_returns [OF two(1) g(1,2,3) two(3)] obtain cs lr' where
    three: "run_actions lock_step cs lr2 = Some lr'" "returned (op_pc (lr_ops lr' ! k))" "lr_run lr' = lr_run lr2" by blast
  have "run_actions lock_step (LCall None 0 0 k # bs @ cs) lr = Some lr'"
    using s1 two(2) three(1) by (simp add: run_actions_append)
  with three(2,3) two(4) one(4) show ?thesis by metis
qed

text \<open>
  C18: A Subscribe or an Unsubscribe, whoever made it, can return from every state, although no handler returns
  meanwhile: a handler may call them, also on its own destination.
\<close>

theorem handler_calls_return:
  assumes "run_actions lock_step acts New_lrouter = Some lr" "k < length (lr_ops lr)" "\<not> is_close (op_pc (lr_ops lr ! k))"
  shows "\<exists>as lr'. run_actions lock_step as lr = Some lr' \<and> returned (op_pc (lr_ops lr' ! k)) \<and> lr_run lr' = lr_run lr"
proof (cases "lr_mu lr")
  case None
  from call_returns [OF lk.inv_run_start [OF assms(1)] assms(2,3) this] show ?thesis .
next
  case (Some w)
  note L = lk.inv_run_start [OF assms(1)]
  from holder_frees [OF L Some] obtain bs lr1 where "frees w bs lr lr1" by blast
  note one = frees_inv [OF L this]
  from goes_on_run [OF one(2) assms(2)] assms(3) have "k < length (lr_ops lr1)" "\<not> is_close (op_pc (lr_ops lr1 ! k))"
    by (auto simp: goes_on_def)
  from call_returns [OF one(1) this one(3)] obtain cs lr' where
    "run_actions lock_step cs lr1 = Some lr'" "returned (op_pc (lr_ops lr' ! k))" "lr_run lr' = lr_run lr1" by blast
  moreover from this(1) one(2) have "run_actions lock_step (bs @ cs) lr = Some lr'" by (simp add: run_actions_append)
  ultimately show ?thesis using one(4) by metis
qed

theorem handler_calls_return_witness:
  "\<exists>lr as lr'. run_actions lock_step (run_to_handler @ [LSubscribe (Some 1) ''a'' 9]) New_lrouter = Some lr
     \<and> op_pc (lr_ops lr ! 2) = SubLock ''a'' 9 3
     \<and> run_actions lock_step as lr = Some lr' \<and> returned (op_pc (lr_ops lr' ! 2)) \<and> lr_run lr' = [1]"
proof -
  let ?lr = "in_handler\<lparr>lr_r := (lr_r in_handler)\<lparr>nextToken := 3\<rparr>,
    lr_ops := lr_ops in_handler @ [\<lparr>op_from = Some 1, op_pc = SubLock ''a'' 9 3\<rparr>]\<rparr>"
  have s: "run_actions lock_step (run_to_handler @ [LSubscribe (Some 1) ''a'' 9]) New_lrouter = Some ?lr"
    by (simp add: run_actions_append run_to_handler_end) (simp add: in_handler_def lock_eval)
  have c: "2 < length (lr_ops ?lr)" "op_pc (lr_ops ?lr ! 2) = SubLock ''a'' 9 3" "lr_run ?lr = [1]"
    by (simp_all add: in_handler_def)
  from handler_calls_return [OF s c(1)] c(2,3) obtain as lr' where
    "run_actions lock_step as ?lr = Some lr'" "returned (op_pc (lr_ops lr' ! 2))" "lr_run lr' = [1]" by auto
  with s c(2) show ?thesis by blast
qed

end
