(* ===== verification/Spec2Isabelle.thy ===== *)
theory Spec2Isabelle
  imports Delivery ConnectSession SessionTerm BusTerm BusLocks StompGate LockProps
begin

text \<open>
  A verification development for gridappsd-go, the Go client of the GridAPPS-D platform: a message bus
  over the STOMP protocol with token authentication.

  \<^bold>\<open>The program.\<close> A caller makes a bus (fieldbus/fieldbus.go) and connects it. Connect opens a transport,
  plain TCP or TLS (gridappsd/client.go), and runs the token exchange over it (internal/auth/auth.go):
  a first STOMP connection with user and password fetches a token and is torn down, a second one logs
  in with the token and stays. Connections are those of internal/stomp/stomp.go, a wrapper around the
  library go-stomp, behind the interfaces of transport/transport.go. On the lasting connection the bus
  subscribes through a router (internal/router/router.go), which keeps one subscription and one reader
  goroutine per destination and calls the handlers registered for it, sends messages, and makes
  correlated requests (internal/reqresp/reqresp.go). topics/topics.go and message/message.go hold the
  names and the rule that qualifies a destination; internal/transporttest/fake.go is the connection
  the other packages are tested with.

  \<^bold>\<open>The theories.\<close>
  \<^item> Prelude: Go strings, errors with wrapping and \<open>errors.Is\<close>, contexts, buffered channels, calls that may
    panic; the interfaces \<open>machine\<close> (a transition system with an inductive invariant) and \<open>codec\<close>.
  \<^item> GoLib: the standard library the code relies on, written out: hexadecimal, base64 and UTF-8 coding.
  \<^item> Topics: topics.go and message.go.
  \<^item> Transport: transport.go; a connection is a table of methods over a state, and \<open>transport_conn\<close> is the
    locale of what the interface promises.
  \<^item> FakeTransport: fake.go, the first provider of \<open>transport_conn\<close>.
  \<^item> Reqresp: reqresp.go over any table of methods; its lemmas are proved from \<open>transport_conn\<close> alone.
  \<^item> StompBridge: the subscription of stomp.go and its forwarding goroutine \<open>bridge\<close>, one \<open>select\<close> case at a
    time, as a \<open>machine\<close>.
  \<^item> Stomp: dialer, connection and gate of stomp.go over a table of go-stomp's calls; the interface
    \<open>unsub_gate\<close> with its provider; the connection as the second provider of \<open>transport_conn\<close>.
  \<^item> StompGate: concurrent Unsubscribe and Disconnect calls on one connection, as a \<open>machine\<close>.
  \<^item> Router: router.go; registry, destination states on a heap, readers with program counters, every
    interleaving of callers, readers, transport and health monitor as a sequence of actions; the
    invariant of the health contract. RouterProps: what it promises. RouterClose: how Close can end.
    RouterTerm: that it does; the interface \<open>draining\<close> of a machine with a measure of the work left.
  \<^item> RouterLocks: router.go once more, with its mutex as a field, every call of Subscribe, Unsubscribe and
    Close a thread with a program counter, and handlers that run, call back and return. RouterTokens:
    which number a token has does not matter. LockRefine: this machine refines that of Router, where a
    critical section is one step. LockProps: what the mutex and the wait group mean for callers and handlers.
  \<^item> Session: the router on a STOMP connection, where the two share the channels of the subscriptions,
    as a \<open>machine\<close> that refines the router's. Delivery: the way of a message from go-stomp to a handler.
    SessionTerm: the session as a provider of \<open>draining\<close>.
  \<^item> AuthText, AuthTrim, AuthTeardown, Auth: auth.go; the escaping of untrusted text in errors, the
    trimming of the token, the teardown of the credential connection with its goroutine, context and
    callback as a \<open>machine\<close>, and the exchange as a function from the results of the calls it makes to its
    result and the log of those calls.
  \<^item> AuthConn: the exchange over the table of methods; \<open>credential_conn\<close> extends \<open>transport_conn\<close> by what
    the teardown relies on; both legs over the dialer and connection of stomp.go.
  \<^item> Client: client.go; \<open>net.SplitHostPort\<close>, the choice of transport, the TLS dial, Connect.
  \<^item> Fieldbus: fieldbus.go; its interfaces as tables of methods with the contracts \<open>message_bus\<close> and
    \<open>reporting_bus\<close>, the bus as their provider and as a \<open>machine\<close> that contains the router's, each method
    one step.
  \<^item> ConnectSession: Connect of the bus through client.go and auth.go to the dialer of stomp.go, and the
    session that comes out.
  \<^item> BusCalls: the bus under concurrent calls, its methods cut where they release the mutex, the
    sessions on a heap. BusTerm: the bus with a Disconnect under way as a provider of \<open>draining\<close>.
    BusLocks: the bus once more with its mutex as a field, every call a thread, Connect dialling under the
    mutex; this machine refines that of BusCalls.
  This theory holds what spans the bus, the request routine, the router and the STOMP connection.

  \<^bold>\<open>What is shown.\<close> The registry refines a map from destinations and tokens to handlers; a registered
  destination has a live reader, no handler is attached to a dead one, dispatch is exact, readers end,
  errors are delivered with only the oldest lost. Taking its critical sections apart at the mutex adds no
  behaviour; the mutex is released by its holder's own steps, Subscribe and Unsubscribe may be called
  by a handler, and a Close beside no Subscribe does not panic. The bridge forwards in order, closes its channel once
  and never stalls go-stomp after the end; go-stomp is never closed under an Unsubscribe. Put together,
  a session refines the router, its handles stay valid, and a
  handler gets every message of its destination once and in order; Connect yields such a session, over TLS
  unless told otherwise. Close ends on every run, not only on some: of the router over any transport that
  closes what it was told to close, of the router over a STOMP connection whatever the broker does, and within a
  Disconnect of the bus whatever other calls do; the work that is left is a number that every step of the teardown
  lowers, and when no such step is left, Close returns. A request is subscribed before it is
  sent, unsubscribed on every path and answered by its first reply. A token comes from one exact
  sequence of calls, and the credential leg is ended before the durable one begins; its teardown is
  bounded by the context; the exchange over STOMP connections refines the exchange and leaves nothing
  of the credential leg behind. The bus tears every session down once however calls overlap, also when Connect holds the mutex over its dial, and calls that do not overlap behave as one step
  each.
  Error text is bounded, printable and reversible. TLS is the default, its handshake bounded. Eight
  lemmas show runs in which the code departs from its own comments: a peer's close that is never
  reported, a transport left open in a window of the teardown, a context error lost behind a closed
  channel, a token issued twice, a Subscribe accepted after Close, a Disconnect that a Subscribe in progress makes
  wait for the broker, a Close called by a handler, which never returns, and a Close that panics in its wait
  because a Subscribe adds a reader meanwhile.

  \<^bold>\<open>Bounds.\<close> \<open>publishErr\<close> makes at most \<open>ErrorChanBuffer + 1\<close> attempts, as in the code. The recursive
  functions on text end because every step consumes a byte. Blocking is the value \<open>None\<close>; where the
  code must not block, that it returns is proved. In RouterTerm a reader's way out counts \<open>2 * ErrorChanBuffer + 8\<close> steps,
  a message three and one for every handler; these are upper bounds, not exact. Delivery and the refinement of the mutex are shown for
  runs of fewer than \<open>2 ^ 64\<close> steps, within which the token counter cannot wrap around.

  \<^bold>\<open>What is not modelled.\<close> go-stomp, the TCP and TLS stacks, \<open>crypto/rand\<close> and \<open>log/slog\<close> are inputs: the
  results of the calls made to them. Handlers are names; in RouterLocks one runs as long as it
  likes and may call the router, but that a handler panics is outside the model. The test hook
  \<open>readyForSend\<close> of the bridge, nil in production, does not appear. The mutex of the router is a field in
  RouterLocks, where what is guarded by it may be accessed several times in one step and anything else
  once, and where \<open>sync.WaitGroup\<close> is its counter and its waiters, with Done and the wake-up in one step;
  the mutex of the bus is one in BusLocks. In the other theories, and for the mutexes of connection and fake,
  a critical section is one step. The machine of RouterLocks stands by itself: session and bus contain that of
  Router, which it refines. In a session and in the teardown over a
  connection the Unsubscribe of go-stomp is one step; its interleaving with Disconnect is the subject of
  StompGate. In BusCalls a Send and a request
  are one step on the connection they captured; what a request does there is shown of Reqresp.
\<close>

section \<open>A request of the bus over a STOMP connection\<close>

text \<open>
  C24: A request made through a connected bus and answered over go-stomp leaves nothing behind, whatever
  go-stomp answers and in whatever order the bridge, go-stomp and the end of the context interleave: the
  subscriptions it made are on the reply queue of its nonce and have had their Unsubscribe begun, no
  other subscription was touched, and at most one frame was sent, to the normalised destination, with
  the configured user as subject and the reply name of that nonce.
\<close>

theorem bus_request_over_stomp:
  assumes "reach bus_step (bus_New cfg) b" "IsConnected b" "stomp_inv c"
    and "bus_GetResponse (stomp_ops gs evs pick) (Inr nonce) ctx dest ct body b c = Some (out, c')"
  shows "stomp_inv c' \<and> (\<exists>new fs. stomp_cancelled c' = stomp_cancelled c \<union> set new
    \<and> stomp_subscribed c' = stomp_subscribed c @ map (\<lambda>s. (s, queueReply nonce)) new \<and> length new \<le> 1
    \<and> sc_sent c' = sc_sent c @ fs \<and> length fs \<le> length new
    \<and> (\<forall>f \<in> set fs. sf_dest f = NormalizeDestination dest \<and> sf_body f = body
        \<and> sf_headers f = [HeaderGossHasSubject \<mapsto> ''true'', HeaderGossSubject \<mapsto> cfg_User (fb_cfg b),
            HeaderReplyTo \<mapsto> bareReply nonce]))"
proof -
  have "bus_inv b" by (rule bm.inv_reach [OF assms(1)])
  with assms(2) have b: "fb_conn b" "fb_subject b = cfg_User (fb_cfg b)" by (simp_all add: bus_inv_def IsConnected_def)
  let ?hs = "goss_headers (cfg_User (fb_cfg b))"
  let ?f = "\<lparr>sf_dest = NormalizeDestination dest, sf_ctype = ct, sf_body = body,
    sf_headers = ?hs(HeaderReplyTo \<mapsto> bareReply nonce)\<rparr>"
  from b assms(4) have "GetResponse (stomp_ops gs evs pick) (Inr nonce) ctx dest ct body ?hs c = Some (out, c')"
    by (simp add: bus_GetResponse_def)
  from stomp.GetResponse_effect [OF assms(3) this] consider
      (none) "stomp_inv c'" "sc_sent c' = sc_sent c" "stomp_subscribed c' = stomp_subscribed c"
        "stomp_cancelled c' = stomp_cancelled c"
    | (sub) s where "stomp_inv c'" "stomp_subscribed c' = stomp_subscribed c @ [(s, queueReply nonce)]"
        "stomp_cancelled c' = insert s (stomp_cancelled c)" "sc_sent c' = sc_sent c"
    | (req) s where "stomp_inv c'" "stomp_subscribed c' = stomp_subscribed c @ [(s, queueReply nonce)]"
        "stomp_cancelled c' = insert s (stomp_cancelled c)" "sc_sent c' = sc_sent c @ [?f]"
    by blast
  then show ?thesis
  proof cases
    case none
    then show ?thesis by (intro conjI exI [of _ "[]"]) simp_all
  next
    case sub
    then show ?thesis by (intro conjI exI [of _ "[s]"] exI [of _ "[]"]) simp_all
  next
    case req
    then show ?thesis
      by (intro conjI exI [of _ "[s]"] exI [of _ "[?f]"]) (simp_all add: goss_headers_def del: fun_upd_apply)
  qed
qed

theorem bus_request_over_stomp_witness:
  "\<exists>c'. bus_GetResponse (stomp_ops calm_gostomp [EvSrcPush gmsg1, EvBridge OnSrc, EvBridge OnOut] True) (Inr nonce1)
       (CallerCtx None) ''goss.q'' ''text/plain'' ''hi'' live_bus conn1 = Some (Ret (Inr ''x''), c')
     \<and> (\<exists>new. stomp_cancelled c' = stomp_cancelled conn1 \<union> set new \<and> length new \<le> 1)"
proof -
  obtain c' where run: "bus_GetResponse (stomp_ops calm_gostomp [EvSrcPush gmsg1, EvBridge OnSrc, EvBridge OnOut] True)
      (Inr nonce1) (CallerCtx None) ''goss.q'' ''text/plain'' ''hi'' live_bus conn1 = Some (Ret (Inr ''x''), c')"
    by (simp add: bus_GetResponse_def live_bus_state stomp_run_eval)
  have "IsConnected live_bus" "stomp_inv conn1"
    by (simp_all add: IsConnected_def live_bus_state stomp_inv_def conn1_def sub_inv_def bridge_inv_def newSub_def)
  from bus_request_over_stomp [OF live_bus_reach this run] run show ?thesis by blast
qed

end
